(* ===== verification/Prelude.thy ===== *)
theory Prelude
  imports Main "HOL-Library.Word" "HOL-Library.Monad_Syntax" "HOL-Library.Signed_Division"
begin

unbundle bit_operations_syntax

text \<open>
  Shared vocabulary of the development: the fixed-width integer types of the source
  (\<open>std::uint8_t\<close> .. \<open>std::uint64_t\<close>), checked access to memory, the collections of hints
  the component theories fill, generic lemmas on words, lists and options, and the generic
  interfaces (a state machine with an invariant, a codec with a round trip, a bounded FIFO)
  that the components interpret.
\<close>

section \<open>Integer types of the source\<close>

type_synonym u8 = "8 word"
type_synonym u16 = "16 word"
type_synonym u32 = "32 word"
type_synonym u64 = "64 word"

text \<open>\<open>using Micros = std::uint64_t\<close> (clock.hpp).\<close>
type_synonym micros = u64

text \<open>A \<open>ByteView\<close> / \<open>ByteSpan\<close> is the list of the bytes it refers to.\<close>
type_synonym bytes = "u8 list"

section \<open>Hint collections\<close>

named_theorems ub_simps \<open>evaluation of checked memory accesses\<close>
named_theorems frame_simps \<open>what an operation leaves unchanged\<close>
named_theorems inv_intros \<open>preservation of a component invariant by an operation\<close>

section \<open>Checked memory access\<close>

text \<open>
  The C++ reads and writes raw buffers. An access outside the buffer is undefined behaviour;
  in the model it is \<open>None\<close>, so that a theorem \<open>\<exists>r. f x = Some r\<close> says that the code never
  leaves its buffers on that input.
\<close>

definition rd :: "'a list \<Rightarrow> nat \<Rightarrow> 'a option" where
  "rd buf i = (if i < length buf then Some (buf ! i) else None)"

definition wr :: "'a list \<Rightarrow> nat \<Rightarrow> 'a \<Rightarrow> 'a list option" where
  "wr buf i v = (if i < length buf then Some (buf[i := v]) else None)"

text \<open>\<open>std::memcpy\<close> of a whole source into a buffer at an offset.\<close>

definition memcpy_at :: "'a list \<Rightarrow> nat \<Rightarrow> 'a list \<Rightarrow> 'a list option" where
  "memcpy_at buf off src =
     (if off + length src \<le> length buf
      then Some (take off buf @ src @ drop (off + length src) buf) else None)"

lemma rd_Some [ub_simps]: "i < length buf \<Longrightarrow> rd buf i = Some (buf ! i)"
  by (simp add: rd_def)

lemma wr_Some [ub_simps]: "i < length buf \<Longrightarrow> wr buf i v = Some (buf[i := v])"
  by (simp add: wr_def)

lemma memcpy_at_Some [ub_simps]:
  "off + length src \<le> length buf \<Longrightarrow>
   memcpy_at buf off src = Some (take off buf @ src @ drop (length src) (drop off buf))"
  by (simp add: memcpy_at_def add.commute)

section \<open>Generic lemmas\<close>

lemma nth_append_bounds:
  "i < length xs \<Longrightarrow> (xs @ ys) ! i = xs ! i"
  "length xs \<le> i \<Longrightarrow> (xs @ ys) ! i = ys ! (i - length xs)"
  by (simp_all add: nth_append)

lemma unat_lt2p: "unat x < 2 ^ LENGTH('a)" for x :: "'a::len word"
  by (rule unsigned_less)

lemma unat_u32: "unat x < 4294967296" for x :: u32
  using unat_lt2p [of x] by simp

lemma unat_u64: "unat x < 18446744073709551616" for x :: u64
  using unat_lt2p [of x] by simp

lemma word_zero_iff_bits: "w = 0 \<longleftrightarrow> (\<forall>n. \<not> bit w n)" for w :: "'a::len word"
  by (auto intro: bit_word_eqI)

lemma unat_of_nat_small: "n < 2 ^ LENGTH('a) \<Longrightarrow> unat (of_nat n :: 'a::len word) = n"
  by (simp add: unat_of_nat)

lemma unat_widen_32: "unat (ucast x :: u64) = unat x" for x :: u32
  using unat_u32 [of x] by (simp add: unsigned_ucast_eq take_bit_nat_eq_self)

lemma sint_32_nonneg: "unat x < 2 ^ 31 \<Longrightarrow> sint x = int (unat x)" for x :: u32
proof -
  assume "unat x < 2 ^ 31"
  then have "int (unat x) < int (2 ^ 31)" by (rule of_nat_less_iff [THEN iffD2])
  then have "uint x < 2 ^ 31" by simp
  then have "signed_take_bit 31 (uint x) = uint x"
    by (intro signed_take_bit_int_eq_self) (simp_all add: order_trans [of _ 0])
  then show ?thesis by (simp add: sint_uint)
qed

lemma uint_of_int_small: "0 \<le> i \<Longrightarrow> i < 2 ^ LENGTH('a) \<Longrightarrow> uint (of_int i :: 'a::len word) = i"
  by (simp add: uint_word_of_int)

lemma unat_plus_one: "x \<noteq> - 1 \<Longrightarrow> unat (x + 1) = Suc (unat x)" for x :: "'a::len word"
  by (metis add.commute add.right_inverse unatSuc add_eq_0_iff)

section \<open>Interface: a state machine with an invariant\<close>

text \<open>
  Every stateful component is driven by a sequence of events. The interface asks for one
  step and an invariant the step keeps; the client gets the invariant for whole runs.
\<close>

locale invariant_machine =
  fixes step :: "'s \<Rightarrow> 'e \<Rightarrow> 's"
    and inv :: "'s \<Rightarrow> bool"
  assumes step_inv: "inv s \<Longrightarrow> inv (step s e)"
begin

lemma run_inv: "inv s \<Longrightarrow> inv (foldl step s es)"
  by (induction es arbitrary: s) (auto intro: step_inv)

lemma run_split: "foldl step s (es @ fs) = foldl step (foldl step s es) fs"
  by simp

end

text \<open>A machine one of whose quantities each event moves by a known amount.\<close>

locale accounting_machine = invariant_machine step inv
  for step :: "'s \<Rightarrow> 'e \<Rightarrow> 's" and inv :: "'s \<Rightarrow> bool" +
  fixes total :: "'s \<Rightarrow> 'n::comm_monoid_add"
    and weight :: "'e \<Rightarrow> 'n"
  assumes step_total: "inv s \<Longrightarrow> total (step s e) = total s + weight e"
begin

lemma run_total: "inv s \<Longrightarrow> total (foldl step s es) = total s + sum_list (map weight es)"
  by (induction es arbitrary: s) (auto simp: step_total step_inv add.assoc)

end

section \<open>Interface: an encoding and its decoder\<close>

locale codec =
  fixes enc :: "'a \<Rightarrow> 'b option"
    and dec :: "'b \<Rightarrow> 'a option"
    and valid :: "'a \<Rightarrow> bool"
  assumes enc_total: "valid x \<Longrightarrow> \<exists>b. enc x = Some b"
    and dec_enc: "valid x \<Longrightarrow> enc x = Some b \<Longrightarrow> dec b = Some x"
begin

lemma enc_inj: "valid x \<Longrightarrow> valid y \<Longrightarrow> enc x = enc y \<Longrightarrow> x = y"
  by (metis enc_total dec_enc option.inject)

lemma roundtrip: "valid x \<Longrightarrow> Option.bind (enc x) dec = Some x"
  using enc_total dec_enc by fastforce

end

end
