(* ===== verification/Serial.thy ===== *)
theory Serial
  imports Prelude
begin

text \<open>
  Serial-number arithmetic modulo \<open>2^32\<close> (core/include/radio/serial.hpp): the signed distance
  between two sequence numbers, and the comparisons built on it. The lemmas relate them to the
  definition of RFC 1982 that protocol/specification.md 3.3 quotes, and to arithmetic on the
  integers as long as the numbers compared lie within a window of \<open>2^31\<close>.
\<close>

section \<open>Definitions\<close>

definition distance :: "u32 \<Rightarrow> u32 \<Rightarrow> int" where
  "distance from to = sint (to - from)"

definition precedes :: "u32 \<Rightarrow> u32 \<Rightarrow> bool" where
  "precedes a b \<longleftrightarrow> distance a b > 0"

definition precedes_or_equal :: "u32 \<Rightarrow> u32 \<Rightarrow> bool" where
  "precedes_or_equal a b \<longleftrightarrow> distance a b \<ge> 0"

definition serial_max :: "u32 \<Rightarrow> u32 \<Rightarrow> u32" where
  "serial_max a b = (if precedes a b then b else a)"

section \<open>Distance and integer positions\<close>

lemma distance_of_int:
  "- (2 ^ 31) \<le> y - x \<Longrightarrow> y - x < 2 ^ 31 \<Longrightarrow> distance (of_int x) (of_int y) = y - x"
  unfolding distance_def of_int_diff [symmetric] int_word_sint by simp

lemma distance_forward:
  "x \<le> y \<Longrightarrow> y - x < 2 ^ 31 \<Longrightarrow> distance (of_int x) (of_int y) = y - x"
  by (rule distance_of_int) simp_all

lemma distance_self [simp]: "distance a a = 0"
  by (simp add: distance_def)

lemma distance_range: "- (2 ^ 31) \<le> distance a b" "distance a b < 2 ^ 31"
  using sint_range_size [of "b - a"] by (simp_all add: distance_def word_size)

lemma of_int_distance: "of_int (distance a b) = b - a"
  by (simp add: distance_def)

lemma distance_word: "b = a + of_int (distance a b)"
  by (simp add: of_int_distance)

lemma distance_eq_0_iff [simp]: "distance a b = 0 \<longleftrightarrow> a = b"
  using of_int_distance [of a b] by auto

lemma distance_add: "- (2 ^ 31) \<le> distance a b + k \<Longrightarrow> distance a b + k < 2 ^ 31 \<Longrightarrow>
   distance a (b + of_int k) = distance a b + k"
proof -
  assume r: "- (2 ^ 31) \<le> distance a b + k" "distance a b + k < 2 ^ 31"
  have "b + of_int k - a = of_int (distance a b + k)"
    by (simp add: of_int_distance)
  then have "distance a (b + of_int k) = distance (of_int 0) (of_int (distance a b + k))"
    unfolding distance_def [of a] by (simp add: distance_def del: of_int_add)
  then show ?thesis using r distance_of_int [of "distance a b + k" 0] by simp
qed

lemma distance_from_add: "- (2 ^ 31) \<le> distance a b - k \<Longrightarrow> distance a b - k < 2 ^ 31 \<Longrightarrow>
   distance (a + of_int k) b = distance a b - k"
  using distance_add [of a b "- k"] by (simp add: distance_def algebra_simps)

lemma distance_trans: "- (2 ^ 31) \<le> distance a b + distance b c \<Longrightarrow>
   distance a b + distance b c < 2 ^ 31 \<Longrightarrow> distance a c = distance a b + distance b c"
  using distance_add [of a b "distance b c"] by (simp add: of_int_distance)

lemma distance_flip: "distance a b \<noteq> - (2 ^ 31) \<Longrightarrow> distance b a = - distance a b"
proof -
  assume "distance a b \<noteq> - (2 ^ 31)"
  with distance_range [of a b] have "- (2 ^ 31) \<le> - distance a b" "- distance a b < 2 ^ 31" by simp_all
  moreover have "a = b + of_int (- distance a b)" by (simp add: of_int_distance)
  ultimately show ?thesis using distance_add [of b b "- distance a b"] by simp
qed

lemma distance_uint:
  "distance a b = (if uint (b - a) < 2 ^ 31 then uint (b - a) else uint (b - a) - 2 ^ 32)"
proof -
  define n where "n = uint (b - a)"
  have n: "of_int n = b - a" "0 \<le> n" "n < 2 ^ 32"
    using uint_lt2p [of "b - a"] by (simp_all add: n_def)
  have "distance 0 (b - a) = (if n < 2 ^ 31 then n else n - 2 ^ 32)"
  proof (cases "n < 2 ^ 31")
    case True
    then show ?thesis using distance_of_int [of n 0] n by simp
  next
    case False
    then have "distance (of_int 0) (of_int (n - 2 ^ 32)) = n - 2 ^ 32"
      using n by (subst distance_of_int) simp_all
    moreover have "of_int (n - 2 ^ 32) = b - a" using n by simp
    ultimately show ?thesis using False by (simp only: of_int_0 if_False)
  qed
  then show ?thesis by (simp add: distance_def n_def)
qed

text \<open>Equal residues modulo a power of two that divides \<open>2^32\<close>: the slots of circular arrays.\<close>

lemma uint_mod_eq_iff:
  assumes "m dvd 2 ^ 32"
  shows "uint a mod m = uint b mod m \<longleftrightarrow> m dvd distance a b"
proof -
  have "uint b mod m = (uint a + distance a b) mod m"
  proof -
    have "uint b = (uint a + distance a b) mod 2 ^ 32"
    proof -
      have "b = of_int (uint a + distance a b)" by (simp add: of_int_distance)
      then have "uint b = uint (of_int (uint a + distance a b) :: u32)" by simp
      then show ?thesis by (simp add: uint_word_of_int del: of_int_add)
    qed
    then show ?thesis using assms by (simp add: mod_mod_cancel)
  qed
  then have "uint a mod m = uint b mod m \<longleftrightarrow> (uint a + distance a b) mod m = uint a mod m"
    by auto
  also have "\<dots> \<longleftrightarrow> m dvd distance a b"
    by (simp add: mod_eq_dvd_iff)
  finally show ?thesis .
qed

lemma unat_mod_eq_iff:
  assumes "m dvd 2 ^ 32"
  shows "unat a mod m = unat b mod m \<longleftrightarrow> int m dvd distance a b"
proof -
  have "int m dvd 2 ^ 32" using assms by (metis of_nat_dvd_iff of_nat_numeral of_nat_power)
  from uint_mod_eq_iff [OF this, of a b]
  have "uint a mod int m = uint b mod int m \<longleftrightarrow> int m dvd distance a b" .
  moreover have "int (unat x mod m) = uint x mod int m" for x :: u32
    by (simp add: zmod_int)
  ultimately show ?thesis by (metis of_nat_eq_iff)
qed

lemma distance_multiple:
  assumes "int m dvd distance a b" "\<bar>distance a b\<bar> < int m"
  shows "a = b"
  using assms dvd_imp_le_int [of "distance a b" "int m"] by (cases "distance a b = 0") auto

lemmas distance_simps = distance_self distance_eq_0_iff of_int_distance

section \<open>The comparisons\<close>

lemma precedes_or_equal_iff: "precedes_or_equal a b \<longleftrightarrow> precedes a b \<or> a = b"
  using distance_eq_0_iff [of a b]
  by (auto simp: precedes_def precedes_or_equal_def order_le_less simp del: distance_eq_0_iff)

lemma precedes_irrefl [simp]: "\<not> precedes a a"
  by (simp add: precedes_def)

lemma precedes_asym: "precedes a b \<Longrightarrow> \<not> precedes b a"
  using distance_flip [of a b] by (auto simp: precedes_def)

lemma serial_max_cases: "serial_max a b = a \<or> serial_max a b = b"
  by (simp add: serial_max_def)

text \<open>
  \<open>precedes a b\<close> is the relation of RFC 1982 that protocol/specification.md 3.3 demands:
  \<open>a\<close> precedes \<open>b\<close> exactly when \<open>0 < (b - a) mod 2^32 < 2^31\<close>, for all 32-bit values.
\<close>

theorem precedes_rfc1982: "precedes a b \<longleftrightarrow> 0 < uint (b - a) \<and> uint (b - a) < 2 ^ 31"
  using uint_lt2p [of "b - a"] by (auto simp: precedes_def distance_uint)

end
