(* ===== verification/Bytes.thy ===== *)
theory Bytes
  imports Prelude
begin

text \<open>
  Loads and stores of multi-byte integers (core/include/radio/bytes.hpp). A pointer is a buffer
  with an offset into it; every byte access is checked (\<open>rd\<close>, \<open>wr\<close>), so a result \<open>None\<close> is an
  access outside the buffer. The lemmas give the value of each load and store that stays inside
  its buffer, and the round trips store-then-load.
\<close>

section \<open>Big-endian\<close>

text \<open>\<open>detail::u8\<close>: a byte widened to 32 bits.\<close>

definition widen8 :: "u8 \<Rightarrow> u32" where
  "widen8 b = ucast b"

definition load_be16 :: "bytes \<Rightarrow> nat \<Rightarrow> u16 option" where
  "load_be16 p off = do {
     b0 \<leftarrow> rd p off; b1 \<leftarrow> rd p (off + 1);
     Some (ucast (push_bit 8 (widen8 b0) OR widen8 b1)) }"

definition load_be32 :: "bytes \<Rightarrow> nat \<Rightarrow> u32 option" where
  "load_be32 p off = do {
     b0 \<leftarrow> rd p off; b1 \<leftarrow> rd p (off + 1); b2 \<leftarrow> rd p (off + 2); b3 \<leftarrow> rd p (off + 3);
     Some (push_bit 24 (widen8 b0) OR push_bit 16 (widen8 b1) OR push_bit 8 (widen8 b2)
           OR widen8 b3) }"

definition load_be64 :: "bytes \<Rightarrow> nat \<Rightarrow> u64 option" where
  "load_be64 p off = do {
     hi \<leftarrow> load_be32 p off; lo \<leftarrow> load_be32 p (off + 4);
     Some (push_bit 32 (ucast hi) OR ucast lo) }"

definition store_be16 :: "bytes \<Rightarrow> nat \<Rightarrow> u16 \<Rightarrow> bytes option" where
  "store_be16 p off v = do {
     p \<leftarrow> wr p off (ucast (drop_bit 8 v AND 0xFF));
     wr p (off + 1) (ucast (v AND 0xFF)) }"

definition store_be32 :: "bytes \<Rightarrow> nat \<Rightarrow> u32 \<Rightarrow> bytes option" where
  "store_be32 p off v = do {
     p \<leftarrow> wr p off (ucast (drop_bit 24 v AND 0xFF));
     p \<leftarrow> wr p (off + 1) (ucast (drop_bit 16 v AND 0xFF));
     p \<leftarrow> wr p (off + 2) (ucast (drop_bit 8 v AND 0xFF));
     wr p (off + 3) (ucast (v AND 0xFF)) }"

definition store_be64 :: "bytes \<Rightarrow> nat \<Rightarrow> u64 \<Rightarrow> bytes option" where
  "store_be64 p off v = do {
     p \<leftarrow> store_be32 p off (ucast (drop_bit 32 v));
     store_be32 p (off + 4) (ucast (v AND 0xFFFFFFFF)) }"

section \<open>Little-endian\<close>

definition load_le16 :: "bytes \<Rightarrow> nat \<Rightarrow> u16 option" where
  "load_le16 p off = do {
     b0 \<leftarrow> rd p off; b1 \<leftarrow> rd p (off + 1);
     Some (ucast (widen8 b0 OR push_bit 8 (widen8 b1))) }"

definition load_le32 :: "bytes \<Rightarrow> nat \<Rightarrow> u32 option" where
  "load_le32 p off = do {
     b0 \<leftarrow> rd p off; b1 \<leftarrow> rd p (off + 1); b2 \<leftarrow> rd p (off + 2); b3 \<leftarrow> rd p (off + 3);
     Some (widen8 b0 OR push_bit 8 (widen8 b1) OR push_bit 16 (widen8 b2)
           OR push_bit 24 (widen8 b3)) }"

definition store_le16 :: "bytes \<Rightarrow> nat \<Rightarrow> u16 \<Rightarrow> bytes option" where
  "store_le16 p off v = do {
     p \<leftarrow> wr p off (ucast (v AND 0xFF));
     wr p (off + 1) (ucast (drop_bit 8 v AND 0xFF)) }"

definition store_le32 :: "bytes \<Rightarrow> nat \<Rightarrow> u32 \<Rightarrow> bytes option" where
  "store_le32 p off v = do {
     p \<leftarrow> wr p off (ucast (v AND 0xFF));
     p \<leftarrow> wr p (off + 1) (ucast (drop_bit 8 v AND 0xFF));
     p \<leftarrow> wr p (off + 2) (ucast (drop_bit 16 v AND 0xFF));
     wr p (off + 3) (ucast (drop_bit 24 v AND 0xFF)) }"

section \<open>The bytes of an integer\<close>

text \<open>
  The byte strings the stores write, most or least significant byte first, and the integers
  the loads assemble.
\<close>

definition be16_bytes :: "u16 \<Rightarrow> bytes" where
  "be16_bytes v = [ucast (drop_bit 8 v), ucast v]"

definition be32_bytes :: "u32 \<Rightarrow> bytes" where
  "be32_bytes v = [ucast (drop_bit 24 v), ucast (drop_bit 16 v), ucast (drop_bit 8 v), ucast v]"

definition be64_bytes :: "u64 \<Rightarrow> bytes" where
  "be64_bytes v = be32_bytes (ucast (drop_bit 32 v)) @ be32_bytes (ucast v)"

definition le16_bytes :: "u16 \<Rightarrow> bytes" where
  "le16_bytes v = rev (be16_bytes v)"

definition le32_bytes :: "u32 \<Rightarrow> bytes" where
  "le32_bytes v = rev (be32_bytes v)"

lemma bytes_length [simp]:
  "length (be16_bytes v2) = 2" "length (be32_bytes v4) = 4" "length (be64_bytes v8) = 8"
  "length (le16_bytes v2) = 2" "length (le32_bytes v4) = 4"
  by (simp_all add: be16_bytes_def be32_bytes_def be64_bytes_def le16_bytes_def le32_bytes_def)

lemma ucast_low_byte [simp]:
  "ucast (v AND 0xFF) = (ucast v :: u8)" for v :: "'a::len word"
proof -
  have m: "(0xFF :: 'a word) = mask 8" by (simp add: mask_eq_exp_minus_1)
  show ?thesis unfolding m by (rule bit_word_eqI) (auto simp: bit_simps dest: bit_imp_le_length)
qed

lemma ucast_low_word [simp]: "ucast (v AND 0xFFFFFFFF) = (ucast v :: u32)" for v :: u64
proof -
  have m: "(0xFFFFFFFF :: u64) = mask 32" by (simp add: mask_eq_exp_minus_1)
  show ?thesis unfolding m by (rule bit_word_eqI) (auto simp: bit_simps dest: bit_imp_le_length)
qed

text \<open>Assembling the bytes of \<open>v\<close> gives \<open>v\<close> back.\<close>

lemma assemble_be16:
  "ucast (push_bit 8 (widen8 (ucast (drop_bit 8 v))) OR widen8 (ucast v)) = v" for v :: u16
  unfolding widen8_def by (rule bit_word_eqI) (auto simp: bit_simps)

lemma assemble_be32:
  "push_bit 24 (widen8 (ucast (drop_bit 24 v))) OR push_bit 16 (widen8 (ucast (drop_bit 16 v)))
   OR push_bit 8 (widen8 (ucast (drop_bit 8 v))) OR widen8 (ucast v) = v" for v :: u32
proof (rule bit_word_eqI)
  fix n assume "n < LENGTH(32)"
  then have "n < 8 \<or> (8 \<le> n \<and> n < 16) \<or> (16 \<le> n \<and> n < 24) \<or> (24 \<le> n \<and> n < 32)" by auto
  then show "bit (push_bit 24 (widen8 (ucast (drop_bit 24 v)))
     OR push_bit 16 (widen8 (ucast (drop_bit 16 v))) OR push_bit 8 (widen8 (ucast (drop_bit 8 v)))
     OR widen8 (ucast v)) n \<longleftrightarrow> bit v n"
    unfolding widen8_def by (elim disjE conjE) (auto simp: bit_simps)
qed

lemma assemble_be64:
  "push_bit 32 (ucast (ucast (drop_bit 32 v) :: u32)) OR ucast (ucast v :: u32) = v" for v :: u64
  by (rule bit_word_eqI) (auto simp: bit_simps)

text \<open>Splitting an assembled integer gives the bytes back.\<close>

lemma bit_high:
  "8 \<le> n \<Longrightarrow> \<not> bit (b :: u8) n" "32 \<le> n \<Longrightarrow> \<not> bit (w :: u32) n"
  by (auto dest: bit_imp_le_length)

lemma split_be16:
  "be16_bytes (ucast (push_bit 8 (widen8 b0) OR widen8 b1)) = [b0, b1]"
  unfolding be16_bytes_def widen8_def by (auto intro!: bit_word_eqI simp: bit_simps bit_high)

lemma split_be32:
  "be32_bytes (push_bit 24 (widen8 b0) OR push_bit 16 (widen8 b1) OR push_bit 8 (widen8 b2)
     OR widen8 b3) = [b0, b1, b2, b3]"
  unfolding be32_bytes_def widen8_def
  by (auto intro!: bit_word_eqI simp: bit_simps bit_high)

lemma split_be64:
  "(ucast (drop_bit 32 (push_bit 32 (ucast hi) OR ucast lo :: u64)) :: u32) = hi"
  "(ucast (push_bit 32 (ucast hi) OR ucast lo :: u64) :: u32) = lo" for hi lo :: u32
  by (auto intro!: bit_word_eqI simp: bit_simps bit_high)

section \<open>Loads and stores inside the buffer\<close>

text \<open>A store is the copy of the integer's bytes; a load reads them back.\<close>

lemma two_writes:
  "off + 2 \<le> length p \<Longrightarrow>
   p[off := a, off + 1 := b] = take off p @ [a, b] @ drop (off + 2) p"
  by (rule nth_equalityI) (auto simp: nth_append nth_list_update nth_Cons split: nat.split
      intro!: arg_cong [where f = "(!) p"])

lemma four_writes:
  "off + 4 \<le> length p \<Longrightarrow>
   p[off := a, off + 1 := b, off + 2 := c, off + 3 := d] =
   take off p @ [a, b, c, d] @ drop (off + 4) p"
  by (rule nth_equalityI) (auto simp: nth_append nth_list_update nth_Cons split: nat.split
      intro!: arg_cong [where f = "(!) p"])

lemma store_be16_Some [ub_simps]:
  "off + 2 \<le> length p \<Longrightarrow>
   store_be16 p off v = Some (take off p @ be16_bytes v @ drop (off + 2) p)"
  by (simp add: store_be16_def ub_simps two_writes [simplified] be16_bytes_def)

lemma store_be32_Some [ub_simps]:
  "off + 4 \<le> length p \<Longrightarrow>
   store_be32 p off v = Some (take off p @ be32_bytes v @ drop (off + 4) p)"
  by (simp add: store_be32_def ub_simps four_writes [simplified] be32_bytes_def)

lemma store_be64_Some [ub_simps]:
  "off + 8 \<le> length p \<Longrightarrow>
   store_be64 p off v = Some (take off p @ be64_bytes v @ drop (off + 8) p)"
  by (simp add: store_be64_def ub_simps be64_bytes_def add.commute)

lemma store_le16_Some [ub_simps]:
  "off + 2 \<le> length p \<Longrightarrow>
   store_le16 p off v = Some (take off p @ le16_bytes v @ drop (off + 2) p)"
  by (simp add: store_le16_def ub_simps two_writes [simplified] be16_bytes_def le16_bytes_def)

lemma store_le32_Some [ub_simps]:
  "off + 4 \<le> length p \<Longrightarrow>
   store_le32 p off v = Some (take off p @ le32_bytes v @ drop (off + 4) p)"
  by (simp add: store_le32_def ub_simps four_writes [simplified] be32_bytes_def le32_bytes_def)

text \<open>
  The load of the bytes of \<open>v\<close>, wherever they lie in the buffer.
\<close>

lemma slice_nth:
  "take n (drop off p) = xs \<Longrightarrow> length xs = n \<Longrightarrow> i < n \<Longrightarrow>
   rd p (off + i) = Some (xs ! i)"
  by (auto simp: rd_def)

lemma slice_append:
  "take (m + n) (drop off p) = xs @ ys \<Longrightarrow> length xs = m \<Longrightarrow> length ys = n \<Longrightarrow>
   take m (drop off p) = xs \<and> take n (drop (off + m) p) = ys"
proof -
  assume eq: "take (m + n) (drop off p) = xs @ ys" and len: "length xs = m" "length ys = n"
  from arg_cong [OF eq, of "take m"] len have "take m (drop off p) = xs" by simp
  moreover from arg_cong [OF eq, of "drop m"] len have "take n (drop (off + m) p) = ys"
    by (simp add: drop_take add.commute)
  ultimately show ?thesis ..
qed

lemma load_be16_slice:
  assumes "take 2 (drop off p) = be16_bytes v"
  shows "load_be16 p off = Some v"
  using slice_nth [OF assms, of 0] slice_nth [OF assms, of 1]
  by (simp add: load_be16_def be16_bytes_def assemble_be16)

lemma load_be32_slice:
  assumes "take 4 (drop off p) = be32_bytes v"
  shows "load_be32 p off = Some v"
  using slice_nth [OF assms, of 0] slice_nth [OF assms, of 1]
    slice_nth [OF assms, of 2] slice_nth [OF assms, of 3]
  by (simp add: load_be32_def be32_bytes_def assemble_be32)

lemma load_be64_slice:
  assumes "take 8 (drop off p) = be64_bytes v"
  shows "load_be64 p off = Some v"
proof -
  have "take 4 (drop off p) = be32_bytes (ucast (drop_bit 32 v)) \<and>
        take 4 (drop (off + 4) p) = be32_bytes (ucast v)"
    using assms by (intro slice_append) (simp_all add: be64_bytes_def)
  then show ?thesis
    by (simp add: load_be64_def load_be32_slice assemble_be64)
qed

lemma load_le16_slice:
  assumes "take 2 (drop off p) = le16_bytes v"
  shows "load_le16 p off = Some v"
  using slice_nth [OF assms, of 0] slice_nth [OF assms, of 1] assemble_be16 [of v]
  by (simp add: load_le16_def be16_bytes_def le16_bytes_def or.commute)

lemma load_le32_slice:
  assumes "take 4 (drop off p) = le32_bytes v"
  shows "load_le32 p off = Some v"
  using slice_nth [OF assms, of 0] slice_nth [OF assms, of 1]
    slice_nth [OF assms, of 2] slice_nth [OF assms, of 3] assemble_be32 [of v]
  by (simp add: load_le32_def be32_bytes_def le32_bytes_def ac_simps)

text \<open>A load inside the buffer succeeds, and its value's bytes are what the buffer holds.\<close>

lemma take_drop_2: "off + 2 \<le> length p \<Longrightarrow> take 2 (drop off p) = [p ! off, p ! (off + 1)]"
  by (rule nth_equalityI) (auto simp: nth_Cons split: nat.split)

lemma take_drop_4: "off + 4 \<le> length p \<Longrightarrow>
   take 4 (drop off p) = [p ! off, p ! (off + 1), p ! (off + 2), p ! (off + 3)]"
  by (rule nth_equalityI) (auto simp: nth_Cons split: nat.split intro!: arg_cong [where f = "(!) p"])

lemma load_be16_total:
  assumes "off + 2 \<le> length p"
  obtains v where "load_be16 p off = Some v" "take 2 (drop off p) = be16_bytes v"
proof -
  define v where "v = (ucast (push_bit 8 (widen8 (p ! off)) OR widen8 (p ! (off + 1))) :: u16)"
  have "be16_bytes v = take 2 (drop off p)"
    using assms unfolding v_def split_be16 by (simp add: take_drop_2)
  then show ?thesis using that load_be16_slice by metis
qed

lemma load_be32_total:
  assumes "off + 4 \<le> length p"
  obtains v where "load_be32 p off = Some v" "take 4 (drop off p) = be32_bytes v"
proof -
  define v where "v = push_bit 24 (widen8 (p ! off)) OR push_bit 16 (widen8 (p ! (off + 1)))
    OR push_bit 8 (widen8 (p ! (off + 2))) OR widen8 (p ! (off + 3))"
  have "be32_bytes v = take 4 (drop off p)"
    using assms unfolding v_def split_be32 by (simp add: take_drop_4)
  then show ?thesis using that load_be32_slice by metis
qed

lemma load_be64_total:
  assumes "off + 8 \<le> length p"
  obtains v where "load_be64 p off = Some v" "take 8 (drop off p) = be64_bytes v"
proof -
  obtain hi where hi: "take 4 (drop off p) = be32_bytes hi"
    using assms load_be32_total [of off p] by auto
  obtain lo where lo: "take 4 (drop (off + 4) p) = be32_bytes lo"
    using assms load_be32_total [of "off + 4" p] by auto
  define v where "v = (push_bit 32 (ucast hi) OR ucast lo :: u64)"
  have "take 8 (drop off p) = take (4 + 4) (drop off p)" by simp
  also have "\<dots> = be64_bytes v"
    unfolding take_add be64_bytes_def v_def split_be64 using hi lo by (simp add: add.commute)
  finally show ?thesis using that load_be64_slice by metis
qed

lemma load_le16_total:
  assumes "off + 2 \<le> length p"
  obtains v where "load_le16 p off = Some v" "take 2 (drop off p) = le16_bytes v"
proof -
  define v where "v = (ucast (push_bit 8 (widen8 (p ! (off + 1))) OR widen8 (p ! off)) :: u16)"
  have "le16_bytes v = take 2 (drop off p)"
    using assms unfolding v_def le16_bytes_def split_be16 by (simp add: take_drop_2)
  then show ?thesis using that load_le16_slice by metis
qed

lemma load_le32_total:
  assumes "off + 4 \<le> length p"
  obtains v where "load_le32 p off = Some v" "take 4 (drop off p) = le32_bytes v"
proof -
  define v where "v = push_bit 24 (widen8 (p ! (off + 3))) OR push_bit 16 (widen8 (p ! (off + 2)))
    OR push_bit 8 (widen8 (p ! (off + 1))) OR widen8 (p ! off)"
  have "le32_bytes v = take 4 (drop off p)"
    using assms unfolding v_def le32_bytes_def split_be32 by (simp add: take_drop_4)
  then show ?thesis using that load_le32_slice by metis
qed

lemmas load_slices = load_be16_slice load_be32_slice load_be64_slice load_le16_slice load_le32_slice
lemmas load_totals = load_be16_total load_be32_total load_be64_total load_le16_total load_le32_total

section \<open>The integer codecs\<close>

text \<open>
  Store into a fresh field of the right width and load back: five instances of the codec
  interface, whose \<open>enc_inj\<close> says that no two integers share an encoding.
\<close>

interpretation be16: codec "\<lambda>v. store_be16 [0, 0] 0 v" "\<lambda>p. load_be16 p 0" "\<lambda>_. True"
  by unfold_locales (auto simp: ub_simps intro!: load_slices)

interpretation be32: codec "\<lambda>v. store_be32 [0, 0, 0, 0] 0 v" "\<lambda>p. load_be32 p 0" "\<lambda>_. True"
  by unfold_locales (auto simp: ub_simps intro!: load_slices)

interpretation be64: codec "\<lambda>v. store_be64 [0, 0, 0, 0, 0, 0, 0, 0] 0 v" "\<lambda>p. load_be64 p 0"
  "\<lambda>_. True"
  by unfold_locales (auto simp: ub_simps intro!: load_slices)

interpretation le16: codec "\<lambda>v. store_le16 [0, 0] 0 v" "\<lambda>p. load_le16 p 0" "\<lambda>_. True"
  by unfold_locales (auto simp: ub_simps intro!: load_slices)

interpretation le32: codec "\<lambda>v. store_le32 [0, 0, 0, 0] 0 v" "\<lambda>p. load_le32 p 0" "\<lambda>_. True"
  by unfold_locales (auto simp: ub_simps intro!: load_slices)

end
