(* ===== verification/Proto.thy ===== *)
theory Proto
  imports Bytes
begin

text \<open>
  The wire format, protocol version 1 (core/include/radio/proto.hpp, core/src/proto/proto.cpp):
  classification of a datagram, parsing and encoding of media packets, control packets and PONG
  bodies. Parsers return \<open>None\<close> for an access outside the datagram, \<open>Some (Inl r)\<close> for a
  rejection of class \<open>r\<close> and \<open>Some (Inr p)\<close> for a packet; encoders return the length written
  and the output buffer, and \<open>None\<close> for a failed assertion or a write outside the buffer.
\<close>

section \<open>Constants and types\<close>

definition kVersion :: u8 where "kVersion = 1"
definition kMaxDatagram :: nat where "kMaxDatagram = 1200"
definition kPrefixSize :: nat where "kPrefixSize = 4"
definition kMediaHeaderSize :: nat where "kMediaHeaderSize = 16"
definition kControlHeaderSize :: nat where "kControlHeaderSize = 16"
definition kPongBodySize :: nat where "kPongBodySize = 16"
definition kMaxPayload :: nat where "kMaxPayload = kMaxDatagram - kMediaHeaderSize"

datatype ptype = Audio | Ping | Pong | Join | JoinAck | Leave | PttStart | PttStop | Metrics

fun type_code :: "ptype \<Rightarrow> u8" where
  "type_code Audio = 0x01"
| "type_code Ping = 0x02"
| "type_code Pong = 0x03"
| "type_code Join = 0x10"
| "type_code JoinAck = 0x11"
| "type_code Leave = 0x12"
| "type_code PttStart = 0x30"
| "type_code PttStop = 0x31"
| "type_code Metrics = 0x40"

text \<open>
  \<open>static_cast<Type>\<close> of a byte followed by \<open>is_assigned\<close>: the enumerator, or \<open>None\<close> where the
  switch of \<open>is_assigned\<close> falls through to \<open>return false\<close>.
\<close>

definition assigned_type :: "u8 \<Rightarrow> ptype option" where
  "assigned_type b =
     (if b = 0x01 then Some Audio else if b = 0x02 then Some Ping
      else if b = 0x03 then Some Pong else if b = 0x10 then Some Join
      else if b = 0x11 then Some JoinAck else if b = 0x12 then Some Leave
      else if b = 0x30 then Some PttStart else if b = 0x31 then Some PttStop
      else if b = 0x40 then Some Metrics else None)"

definition is_media :: "ptype \<Rightarrow> bool" where
  "is_media t \<longleftrightarrow> t = Audio"

definition kTalkspurtStart :: u16 where "kTalkspurtStart = 0x0001"
definition kTalkspurtEnd :: u16 where "kTalkspurtEnd = 0x0002"
definition kFec :: u16 where "kFec = 0x0004"
definition kDtx :: u16 where "kDtx = 0x0008"
definition kAssignedMask :: u16 where "kAssignedMask = 0x000F"

record media_header =
  mh_flags :: u16
  mh_stream_id :: u32
  mh_sequence :: u32
  mh_timestamp :: u32

definition talkspurt_start :: "media_header \<Rightarrow> bool" where
  "talkspurt_start h \<longleftrightarrow> mh_flags h AND kTalkspurtStart \<noteq> 0"

definition talkspurt_end :: "media_header \<Rightarrow> bool" where
  "talkspurt_end h \<longleftrightarrow> mh_flags h AND kTalkspurtEnd \<noteq> 0"

definition mh_fec :: "media_header \<Rightarrow> bool" where
  "mh_fec h \<longleftrightarrow> mh_flags h AND kFec \<noteq> 0"

definition mh_dtx :: "media_header \<Rightarrow> bool" where
  "mh_dtx h \<longleftrightarrow> mh_flags h AND kDtx \<noteq> 0"

record media_packet =
  mp_header :: media_header
  mp_payload :: bytes

record control_header =
  ch_type :: ptype
  ch_flags :: u16
  ch_request_id :: u32
  ch_send_time_us :: u64

record control_packet =
  cp_header :: control_header
  cp_body :: bytes

record pong_body =
  pb_orig_t1 :: u64
  pb_recv_t2 :: u64

datatype reject = RejNone | TooShort | BadVersion | UnknownType | ReservedFlag | BadLength

fun reject_to_string :: "reject \<Rightarrow> string" where
  "reject_to_string RejNone = ''none''"
| "reject_to_string TooShort = ''too_short''"
| "reject_to_string BadVersion = ''bad_version''"
| "reject_to_string UnknownType = ''unknown_type''"
| "reject_to_string ReservedFlag = ''reserved_flag''"
| "reject_to_string BadLength = ''bad_length''"

text \<open>\<open>Parsed<T>\<close>: \<open>Inl\<close> is \<open>Parsed::fail\<close>, \<open>Inr\<close> is \<open>Parsed::good\<close> (reject class \<open>None\<close>).\<close>
type_synonym 'a parsed = "reject + 'a"

fun parsed_reject :: "'a parsed \<Rightarrow> reject" where
  "parsed_reject (Inl r) = r"
| "parsed_reject (Inr _) = RejNone"

section \<open>Parsing\<close>

definition kOffVersion :: nat where "kOffVersion = 0"
definition kOffType :: nat where "kOffType = 1"
definition kOffFlags :: nat where "kOffFlags = 2"
definition kOffMediaStreamId :: nat where "kOffMediaStreamId = 4"
definition kOffMediaSequence :: nat where "kOffMediaSequence = 8"
definition kOffMediaTimestamp :: nat where "kOffMediaTimestamp = 12"
definition kOffCtlRequestId :: nat where "kOffCtlRequestId = 4"
definition kOffCtlSendTime :: nat where "kOffCtlSendTime = 8"
definition kOffPongOrigT1 :: nat where "kOffPongOrigT1 = 0"
definition kOffPongRecvT2 :: nat where "kOffPongRecvT2 = 8"

lemmas proto_consts =
  kVersion_def kMaxDatagram_def kPrefixSize_def kMediaHeaderSize_def kControlHeaderSize_def
  kPongBodySize_def kOffVersion_def kOffType_def kOffFlags_def kOffMediaStreamId_def
  kOffMediaSequence_def kOffMediaTimestamp_def kOffCtlRequestId_def kOffCtlSendTime_def
  kOffPongOrigT1_def kOffPongRecvT2_def

definition validate_prefix :: "bytes \<Rightarrow> ptype parsed option" where
  "validate_prefix d =
     (if length d < kPrefixSize then Some (Inl TooShort)
      else do {
        v \<leftarrow> rd d kOffVersion;
        if v \<noteq> kVersion then Some (Inl BadVersion)
        else do {
          t \<leftarrow> rd d kOffType;
          case assigned_type t of
            None \<Rightarrow> Some (Inl UnknownType)
          | Some ty \<Rightarrow> Some (Inr ty) } })"

definition peek_type :: "bytes \<Rightarrow> ptype parsed option" where
  "peek_type d = do {
     prefix \<leftarrow> validate_prefix d;
     case prefix of Inl r \<Rightarrow> Some (Inl r) | Inr ty \<Rightarrow> Some (Inr ty) }"

definition parse_media :: "bytes \<Rightarrow> media_packet parsed option" where
  "parse_media d = do {
     prefix \<leftarrow> validate_prefix d;
     case prefix of
       Inl r \<Rightarrow> Some (Inl r)
     | Inr ty \<Rightarrow>
         if \<not> is_media ty then Some (Inl UnknownType)
         else do {
           flags \<leftarrow> load_be16 d kOffFlags;
           if flags AND NOT kAssignedMask \<noteq> 0 then Some (Inl ReservedFlag)
           else if length d \<le> kMediaHeaderSize \<or> length d > kMaxDatagram
           then Some (Inl BadLength)
           else do {
             stream_id \<leftarrow> load_be32 d kOffMediaStreamId;
             sequence \<leftarrow> load_be32 d kOffMediaSequence;
             timestamp \<leftarrow> load_be32 d kOffMediaTimestamp;
             Some (Inr \<lparr>mp_header = \<lparr>mh_flags = flags, mh_stream_id = stream_id,
                                     mh_sequence = sequence, mh_timestamp = timestamp\<rparr>,
                        mp_payload = drop kMediaHeaderSize d\<rparr>) } } }"

definition parse_control :: "bytes \<Rightarrow> control_packet parsed option" where
  "parse_control d = do {
     prefix \<leftarrow> validate_prefix d;
     case prefix of
       Inl r \<Rightarrow> Some (Inl r)
     | Inr ty \<Rightarrow>
         if is_media ty then Some (Inl UnknownType)
         else do {
           flags \<leftarrow> load_be16 d kOffFlags;
           if flags \<noteq> 0 then Some (Inl ReservedFlag)
           else if length d < kControlHeaderSize \<or> length d > kMaxDatagram
           then Some (Inl BadLength)
           else do {
             request_id \<leftarrow> load_be32 d kOffCtlRequestId;
             send_time_us \<leftarrow> load_be64 d kOffCtlSendTime;
             Some (Inr \<lparr>cp_header = \<lparr>ch_type = ty, ch_flags = 0, ch_request_id = request_id,
                                     ch_send_time_us = send_time_us\<rparr>,
                        cp_body = drop kControlHeaderSize d\<rparr>) } } }"

definition parse_pong_body :: "bytes \<Rightarrow> pong_body parsed option" where
  "parse_pong_body body =
     (if length body \<noteq> kPongBodySize then Some (Inl BadLength)
      else do {
        orig_t1 \<leftarrow> load_be64 body kOffPongOrigT1;
        recv_t2 \<leftarrow> load_be64 body kOffPongRecvT2;
        Some (Inr \<lparr>pb_orig_t1 = orig_t1, pb_recv_t2 = recv_t2\<rparr>) })"

section \<open>Encoding\<close>

definition encode_media :: "media_header \<Rightarrow> bytes \<Rightarrow> bytes \<Rightarrow> (nat \<times> bytes) option" where
  "encode_media header payload out =
     (if mh_flags header AND NOT kAssignedMask \<noteq> 0 then None
      else
        let total = kMediaHeaderSize + length payload in
        if payload = [] \<or> total > length out \<or> total > kMaxDatagram then Some (0, out)
        else do {
          p \<leftarrow> wr out kOffVersion kVersion;
          p \<leftarrow> wr p kOffType (type_code Audio);
          p \<leftarrow> store_be16 p kOffFlags (mh_flags header);
          p \<leftarrow> store_be32 p kOffMediaStreamId (mh_stream_id header);
          p \<leftarrow> store_be32 p kOffMediaSequence (mh_sequence header);
          p \<leftarrow> store_be32 p kOffMediaTimestamp (mh_timestamp header);
          p \<leftarrow> memcpy_at p kMediaHeaderSize payload;
          Some (total, p) })"

definition encode_control :: "control_header \<Rightarrow> bytes \<Rightarrow> bytes \<Rightarrow> (nat \<times> bytes) option" where
  "encode_control header body out =
     (if is_media (ch_type header) \<or> ch_flags header \<noteq> 0 then None
      else
        let total = kControlHeaderSize + length body in
        if total > length out \<or> total > kMaxDatagram then Some (0, out)
        else do {
          p \<leftarrow> wr out kOffVersion kVersion;
          p \<leftarrow> wr p kOffType (type_code (ch_type header));
          p \<leftarrow> store_be16 p kOffFlags (ch_flags header);
          p \<leftarrow> store_be32 p kOffCtlRequestId (ch_request_id header);
          p \<leftarrow> store_be64 p kOffCtlSendTime (ch_send_time_us header);
          p \<leftarrow> (if body \<noteq> [] then memcpy_at p kControlHeaderSize body else Some p);
          Some (total, p) })"

definition encode_pong_body :: "pong_body \<Rightarrow> bytes \<Rightarrow> (nat \<times> bytes) option" where
  "encode_pong_body body out =
     (if length out < kPongBodySize then Some (0, out)
      else do {
        p \<leftarrow> store_be64 out kOffPongOrigT1 (pb_orig_t1 body);
        p \<leftarrow> store_be64 p kOffPongRecvT2 (pb_recv_t2 body);
        Some (kPongBodySize, p) })"

section \<open>The wire image of a packet\<close>

text \<open>The layouts of protocol/specification.md 3, 4 and 4.1, as concatenations of fields.\<close>

definition wire_media :: "media_header \<Rightarrow> bytes \<Rightarrow> bytes" where
  "wire_media h payload =
     [kVersion, type_code Audio] @ be16_bytes (mh_flags h) @ be32_bytes (mh_stream_id h)
     @ be32_bytes (mh_sequence h) @ be32_bytes (mh_timestamp h) @ payload"

definition wire_control :: "control_header \<Rightarrow> bytes \<Rightarrow> bytes" where
  "wire_control h body =
     [kVersion, type_code (ch_type h)] @ be16_bytes (ch_flags h) @ be32_bytes (ch_request_id h)
     @ be64_bytes (ch_send_time_us h) @ body"

definition wire_pong_body :: "pong_body \<Rightarrow> bytes" where
  "wire_pong_body b = be64_bytes (pb_orig_t1 b) @ be64_bytes (pb_recv_t2 b)"

definition media_ok :: "media_packet \<Rightarrow> bool" where
  "media_ok p \<longleftrightarrow> mh_flags (mp_header p) AND NOT kAssignedMask = 0 \<and>
     0 < length (mp_payload p) \<and> length (mp_payload p) \<le> kMaxPayload"

definition control_ok :: "control_packet \<Rightarrow> bool" where
  "control_ok p \<longleftrightarrow> \<not> is_media (ch_type (cp_header p)) \<and> ch_flags (cp_header p) = 0 \<and>
     length (cp_body p) \<le> kMaxDatagram - kControlHeaderSize"

lemma length_wire [simp]:
  "length (wire_media h payload) = 16 + length payload"
  "length (wire_control c body) = 16 + length body"
  "length (wire_pong_body b) = 16"
  by (simp_all add: wire_media_def wire_control_def wire_pong_body_def)

lemma assigned_type_code [simp]: "assigned_type (type_code t) = Some t"
  by (cases t) (simp_all add: assigned_type_def)

lemma assigned_type_1 [simp]: "assigned_type 1 = Some Audio"
  by (simp add: assigned_type_def)

lemma assigned_type_iff: "assigned_type b = Some t \<longleftrightarrow> b = type_code t"
proof
  assume "assigned_type b = Some t"
  then show "b = type_code t" by (auto simp: assigned_type_def split: if_splits)
qed simp

lemma drop_split: "drop a d = take n (drop a d) @ drop (a + n) d"
  by (metis append_take_drop_id drop_drop add.commute)

lemma header16:
  assumes "16 \<le> length d"
  shows "d = [d ! 0, d ! 1] @ take 2 (drop 2 d) @ take 4 (drop 4 d)
     @ take 4 (drop 8 d) @ take 4 (drop 12 d) @ drop 16 d"
proof -
  have "take 2 d = [d ! 0, d ! 1]" using assms take_drop_2 [of 0 d] by simp
  then have "d = [d ! 0, d ! 1] @ drop 2 d" by (metis append_take_drop_id)
  then show ?thesis
    using drop_split [of 2 d 2] drop_split [of 4 d 4] drop_split [of 8 d 4] drop_split [of 12 d 4]
    by simp
qed

lemma two_bytes_at_0: "2 \<le> length out \<Longrightarrow> out[0 := a, Suc 0 := b] = a # b # drop 2 out"
  by (cases out; cases "tl out") auto

section \<open>What the encoders write\<close>

lemma encode_media_Some:
  assumes "mh_flags h AND NOT kAssignedMask = 0" "payload \<noteq> []"
    and "16 + length payload \<le> length out" "16 + length payload \<le> 1200"
  shows "encode_media h payload out =
    Some (16 + length payload, wire_media h payload @ drop (16 + length payload) out)"
proof -
  have "2 \<le> length out" "out \<noteq> []" "1 < length out" using assms by auto
  then show ?thesis using assms
    by (simp add: encode_media_def proto_consts Let_def ub_simps wire_media_def two_bytes_at_0
        add.commute)
qed

lemma encode_media_0:
  assumes "mh_flags h AND NOT kAssignedMask = 0"
    and "payload = [] \<or> length out < 16 + length payload \<or> 1200 < 16 + length payload"
  shows "encode_media h payload out = Some (0, out)"
  using assms by (auto simp: encode_media_def proto_consts Let_def)

lemma encode_control_Some:
  assumes "\<not> is_media (ch_type h)" "ch_flags h = 0"
    and "16 + length body \<le> length out" "16 + length body \<le> 1200"
  shows "encode_control h body out =
    Some (16 + length body, wire_control h body @ drop (16 + length body) out)"
proof -
  have "2 \<le> length out" "out \<noteq> []" "1 < length out" using assms by auto
  then show ?thesis using assms
    by (simp add: encode_control_def proto_consts Let_def ub_simps wire_control_def two_bytes_at_0
        add.commute)
qed

lemma encode_control_0:
  assumes "\<not> is_media (ch_type h)" "ch_flags h = 0"
    and "length out < 16 + length body \<or> 1200 < 16 + length body"
  shows "encode_control h body out = Some (0, out)"
  using assms by (auto simp: encode_control_def proto_consts Let_def)

lemma encode_pong_body_Some:
  "16 \<le> length out \<Longrightarrow> encode_pong_body b out = Some (16, wire_pong_body b @ drop 16 out)"
  by (simp add: encode_pong_body_def proto_consts ub_simps wire_pong_body_def)

section \<open>What the parsers accept\<close>

lemma parse_media_wire:
  assumes "media_ok p"
  shows "parse_media (wire_media (mp_header p) (mp_payload p)) = Some (Inr p)"
proof -
  let ?d = "wire_media (mp_header p) (mp_payload p)"
  have len: "length ?d = 16 + length (mp_payload p)" by (simp add: wire_media_def)
  have "load_be16 ?d 2 = Some (mh_flags (mp_header p))"
    by (rule load_be16_slice) (simp add: wire_media_def)
  moreover have "load_be32 ?d 4 = Some (mh_stream_id (mp_header p))"
    by (rule load_be32_slice) (simp add: wire_media_def)
  moreover have "load_be32 ?d 8 = Some (mh_sequence (mp_header p))"
    by (rule load_be32_slice) (simp add: wire_media_def)
  moreover have "load_be32 ?d 12 = Some (mh_timestamp (mp_header p))"
    by (rule load_be32_slice) (simp add: wire_media_def)
  moreover have "drop 16 ?d = mp_payload p" by (simp add: wire_media_def)
  moreover have "validate_prefix ?d = Some (Inr Audio)"
    using len by (simp add: validate_prefix_def proto_consts wire_media_def rd_def)
  ultimately show ?thesis
    using assms len by (simp add: parse_media_def proto_consts is_media_def media_ok_def kMaxPayload_def)
qed

lemma parse_control_wire:
  assumes "control_ok p"
  shows "parse_control (wire_control (cp_header p) (cp_body p)) = Some (Inr p)"
proof -
  let ?d = "wire_control (cp_header p) (cp_body p)"
  have len: "length ?d = 16 + length (cp_body p)" by (simp add: wire_control_def)
  have "load_be16 ?d 2 = Some (ch_flags (cp_header p))"
    by (rule load_be16_slice) (simp add: wire_control_def)
  moreover have "load_be32 ?d 4 = Some (ch_request_id (cp_header p))"
    by (rule load_be32_slice) (simp add: wire_control_def)
  moreover have "load_be64 ?d 8 = Some (ch_send_time_us (cp_header p))"
    by (rule load_be64_slice) (simp add: wire_control_def)
  moreover have "drop 16 ?d = cp_body p" by (simp add: wire_control_def)
  moreover have "validate_prefix ?d = Some (Inr (ch_type (cp_header p)))"
    using len by (simp add: validate_prefix_def proto_consts wire_control_def rd_def)
  ultimately show ?thesis
    using assms len by (simp add: parse_control_def proto_consts control_ok_def)
qed

lemma parse_pong_body_wire: "parse_pong_body (wire_pong_body b) = Some (Inr b)"
proof -
  have "load_be64 (wire_pong_body b) 0 = Some (pb_orig_t1 b)"
    by (rule load_be64_slice) (simp add: wire_pong_body_def)
  moreover have "load_be64 (wire_pong_body b) 8 = Some (pb_recv_t2 b)"
    by (rule load_be64_slice) (simp add: wire_pong_body_def)
  ultimately show ?thesis
    by (simp add: parse_pong_body_def proto_consts wire_pong_body_def)
qed

lemma validate_prefix_cases:
  "validate_prefix d =
     Some (if length d < 4 then Inl TooShort
           else if d ! 0 \<noteq> 1 then Inl BadVersion
           else case assigned_type (d ! 1) of None \<Rightarrow> Inl UnknownType | Some ty \<Rightarrow> Inr ty)"
  by (simp add: validate_prefix_def proto_consts rd_def split: option.split)

text \<open>An accepted datagram is the wire image of the packet it parses to.\<close>

lemma parse_media_image:
  assumes "parse_media d = Some (Inr p)"
  shows "media_ok p \<and> d = wire_media (mp_header p) (mp_payload p)"
proof -
  from assms have pre: "4 \<le> length d" "d ! 0 = 1" "d ! 1 = type_code Audio"
    by (auto simp: parse_media_def validate_prefix_cases is_media_def assigned_type_iff
        split: if_splits option.splits)
  then obtain flags where f: "load_be16 d 2 = Some flags" "take 2 (drop 2 d) = be16_bytes flags"
    using load_be16_total [of 2 d] by auto
  from assms pre f have len: "16 < length d" "length d \<le> 1200"
    and fl: "flags AND NOT kAssignedMask = 0"
    by (auto simp: parse_media_def validate_prefix_cases is_media_def proto_consts
        split: if_splits)
  obtain sid where s: "load_be32 d 4 = Some sid" "take 4 (drop 4 d) = be32_bytes sid"
    using load_be32_total [of 4 d] len by auto
  obtain sq where q: "load_be32 d 8 = Some sq" "take 4 (drop 8 d) = be32_bytes sq"
    using load_be32_total [of 8 d] len by auto
  obtain ts where t: "load_be32 d 12 = Some ts" "take 4 (drop 12 d) = be32_bytes ts"
    using load_be32_total [of 12 d] len by auto
  have p: "p = \<lparr>mp_header = \<lparr>mh_flags = flags, mh_stream_id = sid, mh_sequence = sq,
     mh_timestamp = ts\<rparr>, mp_payload = drop 16 d\<rparr>"
    using assms pre f len fl s q t
    by (simp add: parse_media_def validate_prefix_cases is_media_def proto_consts)
  have "d = [1, type_code Audio] @ be16_bytes flags @ be32_bytes sid @ be32_bytes sq
     @ be32_bytes ts @ drop 16 d"
    using header16 [of d] len pre f s q t by simp
  then show ?thesis
    using len fl by (simp add: p media_ok_def wire_media_def proto_consts kMaxPayload_def)
qed

lemma parse_control_image:
  assumes "parse_control d = Some (Inr p)"
  shows "control_ok p \<and> d = wire_control (cp_header p) (cp_body p)"
proof -
  from assms obtain ty where pre: "4 \<le> length d" "d ! 0 = 1" "d ! 1 = type_code ty"
    and ty: "\<not> is_media ty"
    by (auto simp: parse_control_def validate_prefix_cases assigned_type_iff
        split: if_splits option.splits)
  then obtain flags where f: "load_be16 d 2 = Some flags" "take 2 (drop 2 d) = be16_bytes flags"
    using load_be16_total [of 2 d] by auto
  from assms pre f ty have len: "16 \<le> length d" "length d \<le> 1200" and fl: "flags = 0"
    by (auto simp: parse_control_def validate_prefix_cases proto_consts split: if_splits)
  obtain rq where r: "load_be32 d 4 = Some rq" "take 4 (drop 4 d) = be32_bytes rq"
    using load_be32_total [of 4 d] len by auto
  obtain st where s: "load_be64 d 8 = Some st" "take 8 (drop 8 d) = be64_bytes st"
    using load_be64_total [of 8 d] len by auto
  have p: "p = \<lparr>cp_header = \<lparr>ch_type = ty, ch_flags = 0, ch_request_id = rq,
     ch_send_time_us = st\<rparr>, cp_body = drop 16 d\<rparr>"
    using assms pre f len fl ty r s
    by (simp add: parse_control_def validate_prefix_cases proto_consts)
  have "take 8 (drop 8 d) = take 4 (drop 8 d) @ take 4 (drop 12 d)"
    using take_add [of 4 4 "drop 8 d"] by simp
  then have "d = [1, type_code ty] @ be16_bytes flags @ be32_bytes rq @ be64_bytes st @ drop 16 d"
    using header16 [of d] len pre f r s by simp
  then show ?thesis
    using len ty fl by (simp add: p control_ok_def wire_control_def proto_consts)
qed

lemma parse_pong_body_image:
  assumes "parse_pong_body d = Some (Inr b)"
  shows "d = wire_pong_body b"
proof -
  from assms have len: "length d = 16"
    by (auto simp: parse_pong_body_def proto_consts split: if_splits)
  obtain t1 where 1: "load_be64 d 0 = Some t1" "take 8 (drop 0 d) = be64_bytes t1"
    using load_be64_total [of 0 d] len by auto
  obtain t2 where 2: "load_be64 d 8 = Some t2" "take 8 (drop 8 d) = be64_bytes t2"
    using load_be64_total [of 8 d] len by auto
  have "d = take 8 d @ take 8 (drop 8 d)"
    using len by (metis add_diff_cancel_left' append_take_drop_id length_drop
        numeral_Bit0 order_refl take_all)
  with assms len 1 2 show ?thesis
    by (auto simp: parse_pong_body_def proto_consts wire_pong_body_def)
qed

section \<open>Rejection classes\<close>

text \<open>
  The validation order of protocol/specification.md 6.1, read off the bytes of the datagram,
  with the type-specific steps of media packets and of control packets.
\<close>

definition media_class :: "bytes \<Rightarrow> reject" where
  "media_class d =
     (if length d < 4 then TooShort
      else if d ! 0 \<noteq> 1 then BadVersion
      else if d ! 1 \<noteq> type_code Audio then UnknownType
      else if d ! 2 \<noteq> 0 \<or> 16 \<le> d ! 3 then ReservedFlag
      else if length d < 17 \<or> 1200 < length d then BadLength
      else RejNone)"

definition control_class :: "bytes \<Rightarrow> reject" where
  "control_class d =
     (if length d < 4 then TooShort
      else if d ! 0 \<noteq> 1 then BadVersion
      else if assigned_type (d ! 1) = None \<or> d ! 1 = type_code Audio then UnknownType
      else if d ! 2 \<noteq> 0 \<or> d ! 3 \<noteq> 0 then ReservedFlag
      else if length d < 16 \<or> 1200 < length d then BadLength
      else RejNone)"

lemma be16_value: "off + 2 \<le> length d \<Longrightarrow>
   load_be16 d off = Some (ucast (push_bit 8 (widen8 (d ! off)) OR widen8 (d ! (off + 1))))"
  by (simp add: load_be16_def ub_simps)

lemma be16_zero_iff:
  "(ucast (push_bit 8 (widen8 a) OR widen8 b) :: u16) = 0 \<longleftrightarrow> a = 0 \<and> b = 0"
proof
  assume "(ucast (push_bit 8 (widen8 a) OR widen8 b) :: u16) = 0"
  with split_be16 [of a b] show "a = 0 \<and> b = 0" by (simp add: be16_bytes_def)
qed (simp add: widen8_def)

lemma less_16_iff_bits: "b < 16 \<longleftrightarrow> (\<forall>n\<ge>4. \<not> bit b n)" for b :: u8
proof -
  have "b < 16 \<longleftrightarrow> unat b div 16 = 0" by (simp add: word_less_nat_alt div_eq_0_iff)
  also have "\<dots> \<longleftrightarrow> drop_bit 4 b = 0"
    using unat_drop_bit_eq [of 4 b] by (simp add: drop_bit_eq_div flip: unat_0_iff)
  also have "\<dots> \<longleftrightarrow> (\<forall>n\<ge>4. \<not> bit b n)"
    by (simp add: word_zero_iff_bits bit_drop_bit_eq le_iff_add) blast
  finally show ?thesis .
qed

lemma be16_reserved_iff:
  "(ucast (push_bit 8 (widen8 a) OR widen8 b) :: u16) AND NOT kAssignedMask = 0
   \<longleftrightarrow> a = 0 \<and> b < 16"
proof -
  let ?v = "ucast (push_bit 8 (widen8 a) OR widen8 b) :: u16"
  have m: "kAssignedMask = mask 4" by (simp add: kAssignedMask_def mask_eq_exp_minus_1)
  have bits: "bit ?v n \<longleftrightarrow> (8 \<le> n \<and> bit a (n - 8)) \<or> bit b n" for n
    by (auto simp: bit_simps widen8_def dest: bit_imp_le_length)
  have "?v AND NOT kAssignedMask = 0 \<longleftrightarrow> (\<forall>n. \<not> bit (?v AND NOT (mask 4)) n)"
    unfolding m by (rule word_zero_iff_bits)
  also have "\<dots> \<longleftrightarrow> (\<forall>n\<ge>4. \<not> bit ?v n)"
    using bit_imp_le_length [of ?v]
    by (simp add: bit_and_iff bit_not_iff bit_mask_iff) (metis not_le)
  also have "\<dots> \<longleftrightarrow> (\<forall>n. \<not> bit a n) \<and> (\<forall>n\<ge>4. \<not> bit b n)"
    unfolding bits by (metis add_diff_cancel_left' le_add1 numeral_le_iff order_trans semiring_norm(68,69,71))
  also have "\<dots> \<longleftrightarrow> a = 0 \<and> b < 16"
    by (simp add: less_16_iff_bits word_zero_iff_bits)
  finally show ?thesis .
qed
lemma media_class_parse:
  "map_option parsed_reject (parse_media d) = Some (media_class d)"
proof (cases "4 \<le> length d \<and> d ! 0 = 1 \<and> d ! 1 = type_code Audio")
  case True
  then have [simp]: "4 \<le> length d" "d ! 0 = 1" "d ! Suc 0 = 1" "\<not> length d < 4" by auto
  show ?thesis
  proof (cases "16 < length d")
    case True
    then show ?thesis
      using be16_reserved_iff [of "d ! 2" "d ! 3"]
      by (simp add: parse_media_def validate_prefix_cases is_media_def proto_consts media_class_def
          be16_value ub_simps load_be32_def not_le not_less del: de_Morgan_conj)
  next
    case False
    then show ?thesis
      using be16_reserved_iff [of "d ! 2" "d ! 3"]
      by (simp add: parse_media_def validate_prefix_cases is_media_def proto_consts media_class_def
          be16_value not_le not_less del: de_Morgan_conj)
  qed
next
  case False
  then show ?thesis
    by (auto simp: parse_media_def validate_prefix_cases media_class_def is_media_def
        assigned_type_iff not_less split: option.split)
qed

lemma control_class_parse:
  "map_option parsed_reject (parse_control d) = Some (control_class d)"
proof (cases "4 \<le> length d \<and> d ! 0 = 1 \<and> d ! 1 \<noteq> type_code Audio \<and> assigned_type (d ! 1) \<noteq> None")
  case True
  then obtain ty where a: "assigned_type (d ! 1) = Some ty" by blast
  with True have [simp]: "4 \<le> length d" "d ! 0 = 1" "d ! Suc 0 = type_code ty"
      "\<not> length d < 4" and ty: "\<not> is_media ty" "type_code ty \<noteq> 1"
    by (auto simp: assigned_type_iff is_media_def)
  have [simp]: "assigned_type (type_code ty) = Some ty" by simp
  show ?thesis
  proof (cases "16 \<le> length d")
    case True
    then show ?thesis
      using be16_zero_iff [of "d ! 2" "d ! 3"] ty
      by (simp add: parse_control_def validate_prefix_cases proto_consts control_class_def
          be16_value ub_simps load_be32_def load_be64_def not_le not_less del: de_Morgan_conj)
  next
    case False
    then show ?thesis
      using be16_zero_iff [of "d ! 2" "d ! 3"] ty
      by (simp add: parse_control_def validate_prefix_cases proto_consts control_class_def
          be16_value not_le not_less del: de_Morgan_conj)
  qed
next
  case False
  then show ?thesis
    by (auto simp: parse_control_def validate_prefix_cases control_class_def is_media_def
        assigned_type_iff not_less split: option.split)
qed

lemma validate_prefix_total: "\<exists>r. validate_prefix d = Some r"
  by (simp add: validate_prefix_cases)

lemma peek_rejects_like_parsers:
  assumes "peek_type d = Some (Inl r)"
  shows "parse_media d = Some (Inl r)" "parse_control d = Some (Inl r)"
  using assms validate_prefix_total [of d]
  by (auto simp: peek_type_def parse_media_def parse_control_def split: sum.splits)

section \<open>The codec interface\<close>

text \<open>
  Encoding into a fresh maximum-size buffer, keeping the bytes written, and parsing: media
  packets, control packets and PONG bodies provide the codec interface of the prelude.
\<close>

definition media_datagram :: "media_packet \<Rightarrow> bytes option" where
  "media_datagram p = do {
     (n, out) \<leftarrow> encode_media (mp_header p) (mp_payload p) (replicate kMaxDatagram 0);
     Some (take n out) }"

definition control_datagram :: "control_packet \<Rightarrow> bytes option" where
  "control_datagram p = do {
     (n, out) \<leftarrow> encode_control (cp_header p) (cp_body p) (replicate kMaxDatagram 0);
     Some (take n out) }"

fun parsed_value :: "'a parsed \<Rightarrow> 'a option" where
  "parsed_value (Inl _) = None"
| "parsed_value (Inr v) = Some v"

lemma media_datagram_wire:
  "media_ok p \<Longrightarrow> media_datagram p = Some (wire_media (mp_header p) (mp_payload p))"
  by (simp add: media_datagram_def media_ok_def encode_media_Some kMaxPayload_def proto_consts)

lemma control_datagram_wire:
  "control_ok p \<Longrightarrow> control_datagram p = Some (wire_control (cp_header p) (cp_body p))"
  by (simp add: control_datagram_def control_ok_def encode_control_Some proto_consts)

interpretation media: codec media_datagram "\<lambda>d. Option.bind (parse_media d) parsed_value" media_ok
  by unfold_locales (auto simp: media_datagram_wire parse_media_wire)

interpretation control: codec control_datagram
  "\<lambda>d. Option.bind (parse_control d) parsed_value" control_ok
  by unfold_locales (auto simp: control_datagram_wire parse_control_wire)

interpretation pong: codec "\<lambda>b. map_option snd (encode_pong_body b (replicate kPongBodySize 0))"
  "\<lambda>d. Option.bind (parse_pong_body d) parsed_value" "\<lambda>_. True"
  by unfold_locales (auto simp: encode_pong_body_Some proto_consts parse_pong_body_wire)

section \<open>Properties\<close>

text \<open>
  C7. Media parsing is total and memory-safe, and sorts every datagram into the rejection class
  that the validation order of the specification (6.1) gives: whatever the bytes, \<open>parse_media\<close>
  reads nothing outside the datagram and its reject class is \<open>media_class\<close>.
\<close>

theorem parse_media_classifies: "map_option parsed_reject (parse_media d) = Some (media_class d)"
  by (rule media_class_parse)

text \<open>
  The same for control packets, whose flags are all reserved and whose body may be empty.
\<close>

theorem parse_control_classifies:
  "map_option parsed_reject (parse_control d) = Some (control_class d)"
  by (rule control_class_parse)

text \<open>
  \<open>parse_media\<close> accepts exactly the wire images of well-formed media packets: the packet it
  returns has only assigned flag bits and a payload of 1 to \<open>kMaxPayload\<close> bytes, and the datagram
  is the header fields in network byte order followed by that payload. Parsing is therefore
  injective, and decoding after encoding is the identity.
\<close>

theorem parse_media_iff:
  "parse_media d = Some (Inr p) \<longleftrightarrow>
   media_ok p \<and> d = wire_media (mp_header p) (mp_payload p)"
  using parse_media_image parse_media_wire by blast

text \<open>
  \<open>parse_control\<close> accepts exactly the wire images of well-formed control packets.
\<close>

theorem parse_control_iff:
  "parse_control d = Some (Inr p) \<longleftrightarrow>
   control_ok p \<and> d = wire_control (cp_header p) (cp_body p)"
  using parse_control_image parse_control_wire by blast

text \<open>
  C6. Encoding a media packet into a caller's buffer: whenever the header carries only assigned
  flags, \<open>encode_media\<close> stays inside the buffer; it returns 0 and leaves the buffer alone when the
  payload is empty or the packet does not fit; otherwise the bytes written parse back to the same
  header and payload, and the rest of the buffer is untouched.
\<close>

theorem encode_media_correct:
  assumes "mh_flags h AND NOT kAssignedMask = 0"
  shows "\<exists>n out'. encode_media h payload out = Some (n, out') \<and> drop n out' = drop n out \<and>
    (if payload = [] \<or> length out < 16 + length payload \<or> 1200 < 16 + length payload
     then n = 0 \<and> out' = out
     else n = 16 + length payload \<and>
          parse_media (take n out') = Some (Inr \<lparr>mp_header = h, mp_payload = payload\<rparr>))"
proof (cases "payload = [] \<or> length out < 16 + length payload \<or> 1200 < 16 + length payload")
  case True
  then show ?thesis using encode_media_0 [OF assms True] by simp
next
  case False
  let ?p = "\<lparr>mp_header = h, mp_payload = payload\<rparr>"
  have "media_ok ?p" using assms False by (auto simp: media_ok_def kMaxPayload_def proto_consts)
  from parse_media_wire [OF this]
  show ?thesis using False encode_media_Some [OF assms, of payload out] by simp
qed

theorem encode_media_correct_witness:
  "\<exists>n out'. encode_media \<lparr>mh_flags = 1, mh_stream_id = 7, mh_sequence = 0xFFFFFFFF,
      mh_timestamp = 960\<rparr> [0xAB] (replicate 20 0) = Some (n, out') \<and> n = 17 \<and>
    parse_media (take n out') = Some (Inr \<lparr>mp_header = \<lparr>mh_flags = 1, mh_stream_id = 7,
      mh_sequence = 0xFFFFFFFF, mh_timestamp = 960\<rparr>, mp_payload = [0xAB]\<rparr>)"
proof -
  have "mh_flags \<lparr>mh_flags = 1, mh_stream_id = 7, mh_sequence = 0xFFFFFFFF, mh_timestamp = 960\<rparr>
     AND NOT kAssignedMask = 0"
    by (simp add: kAssignedMask_def)
  from encode_media_correct [OF this, of "[0xAB]" "replicate 20 0"] show ?thesis by auto
qed

text \<open>
  Encoding a control packet of an assigned control type with zero flags: inside the buffer,
  0 when it does not fit, and otherwise the bytes written parse back to the same packet.
\<close>

theorem encode_control_correct:
  assumes "\<not> is_media (ch_type h)" "ch_flags h = 0"
  shows "\<exists>n out'. encode_control h body out = Some (n, out') \<and> drop n out' = drop n out \<and>
    (if length out < 16 + length body \<or> 1200 < 16 + length body
     then n = 0 \<and> out' = out
     else n = 16 + length body \<and>
          parse_control (take n out') = Some (Inr \<lparr>cp_header = h, cp_body = body\<rparr>))"
proof (cases "length out < 16 + length body \<or> 1200 < 16 + length body")
  case True
  then show ?thesis using encode_control_0 [OF assms True] by simp
next
  case False
  let ?p = "\<lparr>cp_header = h, cp_body = body\<rparr>"
  have "control_ok ?p" using assms False by (auto simp: control_ok_def proto_consts)
  from parse_control_wire [OF this]
  show ?thesis using False encode_control_Some [OF assms, of body out] by simp
qed

theorem encode_control_correct_witness:
  "\<exists>n out'. encode_control \<lparr>ch_type = Ping, ch_flags = 0, ch_request_id = 5,
      ch_send_time_us = 1000\<rparr> [] (replicate 16 0) = Some (n, out') \<and> n = 16 \<and>
    parse_control (take n out') = Some (Inr \<lparr>cp_header = \<lparr>ch_type = Ping, ch_flags = 0,
      ch_request_id = 5, ch_send_time_us = 1000\<rparr>, cp_body = []\<rparr>)"
proof -
  let ?h = "\<lparr>ch_type = Ping, ch_flags = 0, ch_request_id = 5, ch_send_time_us = 1000\<rparr>"
  have "\<not> is_media (ch_type ?h)" "ch_flags ?h = 0" by (simp_all add: is_media_def)
  from encode_control_correct [OF this, of "[]" "replicate 16 0"] show ?thesis by auto
qed

end
