(* ===== verification/Double64.thy ===== *)
theory Double64
  imports Prelude "HOL-Library.Log_Nat"
begin

text \<open>
  The part of IEEE 754 binary64 arithmetic the sources use. A finite \<open>double\<close> is the rational
  number it denotes; every operation is the exact rational operation followed by \<open>rnd\<close>, rounding
  to nearest with ties to even at 53 significant bits and a smallest quantum of \<open>2^-1074\<close>.
  Infinities and NaN are not modelled: overflow needs a magnitude of \<open>2^1024\<close>, which no quantity
  of this program reaches from finite configuration values. The lemmas give what the components
  use: rounding is monotone, exact on integers up to \<open>2^53\<close>, and preserves sign.
\<close>

type_synonym double = rat

section \<open>Rounding to an integer\<close>

definition rne :: "rat \<Rightarrow> int" where
  "rne y = (let f = \<lfloor>y\<rfloor>; r = y - of_int f in
     if r < 1 / 2 then f else if r > 1 / 2 then f + 1 else if even f then f else f + 1)"

lemma rne_bounds: "\<lfloor>y\<rfloor> \<le> rne y" "rne y \<le> \<lfloor>y\<rfloor> + 1"
  by (simp_all add: rne_def Let_def)

lemma rne_of_int [simp]: "rne (of_int k) = k"
  by (simp add: rne_def)

lemma rne_mono: "x \<le> y \<Longrightarrow> rne x \<le> rne y"
proof -
  assume le: "x \<le> y"
  then have fl: "\<lfloor>x\<rfloor> \<le> \<lfloor>y\<rfloor>" by (rule floor_mono)
  show ?thesis
  proof (cases "\<lfloor>x\<rfloor> = \<lfloor>y\<rfloor>")
    case True
    then show ?thesis using le by (auto simp: rne_def Let_def)
  next
    case False
    then have "\<lfloor>x\<rfloor> + 1 \<le> \<lfloor>y\<rfloor>" using fl by simp
    then show ?thesis using rne_bounds [of x] rne_bounds [of y] by simp
  qed
qed

lemma rne_error: "\<bar>of_int (rne y) - y\<bar> \<le> 1 / 2"
proof -
  have "of_int \<lfloor>y\<rfloor> \<le> y" "y < of_int \<lfloor>y\<rfloor> + 1" by (simp, linarith)
  then show ?thesis unfolding rne_def Let_def abs_if by (simp split: if_split) linarith
qed

section \<open>The binary exponent\<close>

definition binexp :: "rat \<Rightarrow> int" where
  "binexp x = (let (n, d) = quotient_of \<bar>x\<bar>;
                   k = int (floorlog 2 (nat n)) - int (floorlog 2 (nat d)) in
     if 2 powi k \<le> \<bar>x\<bar> then k else k - 1)"

lemma powi_mono: "i \<le> j \<Longrightarrow> (2 powi i :: rat) \<le> 2 powi j"
  by (rule power_int_increasing) simp_all

lemma powi_strict: "i < j \<Longrightarrow> (2 powi i :: rat) < 2 powi j"
  by (rule power_int_strict_increasing) simp_all

lemma powi_nat: "0 \<le> i \<Longrightarrow> (2 powi i :: rat) = of_int (2 ^ nat i)"
  by (simp add: power_int_def)

lemma powi_less_imp: "(2 powi i :: rat) < 2 powi j \<Longrightarrow> i < j"
  using powi_mono [of j i] by (cases "i < j") simp_all

lemma powi_pos [simp]: "(0 :: rat) < 2 powi i"
  by (rule zero_less_power_int) simp

lemma powi_diff: "(2 powi (i - j) :: rat) = 2 powi i / 2 powi j"
  by (simp add: power_int_diff)

lemma binexp_bounds:
  assumes "0 < x"
  shows "2 powi (binexp x) \<le> x" "x < 2 powi (binexp x + 1)"
proof -
  obtain n d where q: "quotient_of x = (n, d)" by fastforce
  have d: "0 < d" and x: "x = of_int n / of_int d"
    using quotient_of_denom_pos [OF q] quotient_of_div [OF q] by auto
  have n: "0 < n" using assms d x by (simp add: zero_less_divide_iff)
  define bn bd where "bn = floorlog 2 (nat n)" and "bd = floorlog 2 (nat d)"
  have pos: "0 < nat n" "0 < nat d" using n d by simp_all
  have b: "2 ^ (bn - 1) \<le> nat n" "nat n < 2 ^ bn" "2 ^ (bd - 1) \<le> nat d" "nat d < 2 ^ bd"
    using floorlog_bounds [OF pos(1), of 2] floorlog_bounds [OF pos(2), of 2]
    by (simp_all add: bn_def bd_def)
  have one: "0 < bn" "0 < bd" using pos by (simp_all add: bn_def bd_def floorlog_def)
  have rb: "(2 powi (int bn - 1) :: rat) \<le> of_int n" "(of_int n :: rat) < 2 powi int bn"
    "(2 powi (int bd - 1) :: rat) \<le> of_int d" "(of_int d :: rat) < 2 powi int bd"
  proof -
    have ex: "(2 powi (int k - 1) :: rat) = of_nat (2 ^ (k - 1))" if "0 < k" for k
      using that by (simp add: of_nat_diff power_int_def nat_diff_distrib)
    have toint: "(of_int m :: rat) = of_nat (nat m)" if "0 < m" for m using that by simp
    show "(2 powi (int bn - 1) :: rat) \<le> of_int n" "(2 powi (int bd - 1) :: rat) \<le> of_int d"
      unfolding ex [OF one(1)] ex [OF one(2)] toint [OF n] toint [OF d] using b by (simp_all only: of_nat_le_iff)
    have "(2 powi int k :: rat) = of_nat (2 ^ k)" for k by simp
    then show "(of_int n :: rat) < 2 powi int bn" "(of_int d :: rat) < 2 powi int bd"
      unfolding toint [OF n] toint [OF d] using b by (simp_all only: of_nat_less_iff)
  qed
  define k where "k = int bn - int bd"
  have dpos: "(0 :: rat) < of_int d" using d by simp
  have hi: "x < 2 powi (k + 1)"
  proof -
    have "(2 powi (k + 1) :: rat) = 2 powi int bn / 2 powi (int bd - 1)"
      by (simp only: powi_diff [symmetric] k_def) (simp add: algebra_simps)
    moreover have "of_int n / of_int d < (2 powi int bn / 2 powi (int bd - 1) :: rat)"
      using rb dpos n by (intro frac_less) simp_all
    ultimately show ?thesis by (simp add: x)
  qed
  have lo: "2 powi (k - 1) \<le> x"
  proof -
    have "(2 powi (k - 1) :: rat) = 2 powi (int bn - 1) / 2 powi int bd"
      by (simp only: powi_diff [symmetric] k_def) (simp add: algebra_simps)
    moreover have "(2 powi (int bn - 1) / 2 powi int bd :: rat) \<le> of_int n / of_int d"
      using rb dpos n by (intro frac_le) simp_all
    ultimately show ?thesis by (simp add: x)
  qed
  have e: "binexp x = (if 2 powi k \<le> x then k else k - 1)"
    using assms q by (simp add: binexp_def k_def bn_def bd_def)
  show "2 powi (binexp x) \<le> x" "x < 2 powi (binexp x + 1)"
    using hi lo by (simp_all add: e)
qed

lemma binexp_minus [simp]: "binexp (- x) = binexp x"
  by (simp add: binexp_def)

lemma binexp_unique: "0 < x \<Longrightarrow> 2 powi e \<le> x \<Longrightarrow> x < 2 powi (e + 1) \<Longrightarrow> binexp x = e"
proof -
  assume x: "0 < x" "2 powi e \<le> x" "x < 2 powi (e + 1)"
  note b = binexp_bounds [OF x(1)]
  have "(2 powi e :: rat) < 2 powi (binexp x + 1)" "(2 powi binexp x :: rat) < 2 powi (e + 1)"
    using order_le_less_trans [OF x(2) b(2)] order_le_less_trans [OF b(1) x(3)] by simp_all
  then have "e < binexp x + 1" "binexp x < e + 1" by (auto dest: powi_less_imp)
  then show ?thesis by simp
qed

lemma binexp_mono: "0 < x \<Longrightarrow> x \<le> y \<Longrightarrow> binexp x \<le> binexp y"
proof -
  assume x: "0 < x" "x \<le> y"
  have "(2 powi binexp x :: rat) < 2 powi (binexp y + 1)"
    using binexp_bounds [of x] binexp_bounds [of y] x by simp
  then have "binexp x < binexp y + 1" by (rule powi_less_imp)
  then show ?thesis by simp
qed

section \<open>Rounding to a double\<close>

definition ulp_exp :: "rat \<Rightarrow> int" where
  "ulp_exp x = max (binexp x - 52) (- 1074)"

definition rnd :: "rat \<Rightarrow> double" where
  "rnd x = (if x = 0 then 0 else let q = 2 powi (ulp_exp x) in of_int (rne (x / q)) * q)"

lemma rnd_0 [simp]: "rnd 0 = 0"
  by (simp add: rnd_def)

text \<open>Representable numbers are \<open>m * 2^j\<close> with \<open>\<bar>m\<bar> \<le> 2^53\<close> and \<open>j \<ge> -1074\<close>.\<close>

lemma rnd_representable:
  assumes "\<bar>m\<bar> \<le> 2 ^ 53" "- 1074 \<le> j"
  shows "rnd (of_int m * 2 powi j) = of_int m * 2 powi j"
proof (cases "m = 0")
  case False
  define x :: rat where "x = of_int m * 2 powi j"
  have ax: "\<bar>x\<bar> = of_int \<bar>m\<bar> * 2 powi j" by (simp add: x_def abs_mult)
  have pos: "0 < \<bar>x\<bar>" using False by (simp add: ax)
  have be: "binexp x = binexp \<bar>x\<bar>" by (cases "0 \<le> x") simp_all
  have le: "\<bar>x\<bar> \<le> 2 powi (53 + j)"
  proof -
    have "(of_int \<bar>m\<bar> :: rat) \<le> of_int (2 ^ 53)" using assms(1) by (simp only: of_int_le_iff)
    then have "\<bar>x\<bar> \<le> 2 ^ 53 * 2 powi j" unfolding ax by (intro mult_right_mono) simp_all
    then show ?thesis by (simp add: power_int_add)
  qed
  show ?thesis
  proof (cases "ulp_exp x \<le> j")
    case True
    have "x / 2 powi (ulp_exp x) = of_int m * 2 powi (j - ulp_exp x)" by (simp add: x_def powi_diff)
    also have "(2 powi (j - ulp_exp x) :: rat) = of_int (2 ^ nat (j - ulp_exp x))"
      using True by (simp add: power_int_def)
    finally have "x / 2 powi (ulp_exp x) = of_int (m * 2 ^ nat (j - ulp_exp x))" by simp
    then have "rne (x / 2 powi (ulp_exp x)) = m * 2 ^ nat (j - ulp_exp x)" by (simp only: rne_of_int)
    then have "of_int (rne (x / 2 powi (ulp_exp x))) * 2 powi (ulp_exp x) = x / 2 powi (ulp_exp x) * 2 powi (ulp_exp x)"
      using \<open>x / 2 powi (ulp_exp x) = of_int (m * 2 ^ nat (j - ulp_exp x))\<close> by (simp only:)
    then show ?thesis using False by (simp add: rnd_def Let_def flip: x_def)
  next
    case gt: False
    then have "j < binexp \<bar>x\<bar> - 52" using assms(2) be by (simp add: ulp_exp_def)
    then have "53 + j \<le> binexp \<bar>x\<bar>" by simp
    then have "(2 powi (53 + j) :: rat) \<le> \<bar>x\<bar>"
      using binexp_bounds(1) [OF pos] powi_mono order_trans by blast
    then have eq: "\<bar>x\<bar> = 2 powi (53 + j)" using le by simp
    then have "binexp \<bar>x\<bar> = 53 + j" using pos by (intro binexp_unique) (simp_all add: powi_strict)
    then have u: "ulp_exp x = j + 1" using be assms(2) by (simp add: ulp_exp_def)
    have "x / 2 powi (ulp_exp x) = of_int (sgn m * 2 ^ 52)"
    proof -
      have "x = of_int (sgn m) * \<bar>x\<bar>" 
        by (cases m "0 :: int" rule: linorder_cases) (simp_all add: x_def abs_mult)
      also have "\<dots> = of_int (sgn m) * 2 powi (53 + j)" by (simp only: eq)
      finally have xe: "x = of_int (sgn m) * 2 powi (53 + j)" .
      have "x / 2 powi (ulp_exp x) = x / 2 powi (j + 1)" by (simp only: u)
      also have "\<dots> = of_int (sgn m) * (2 powi (53 + j) / 2 powi (j + 1))" by (subst xe) simp
      also have "(2 powi (53 + j) / 2 powi (j + 1) :: rat) = 2 powi 52" by (simp flip: powi_diff)
      finally show ?thesis by simp
    qed
    then have "of_int (rne (x / 2 powi (ulp_exp x))) * 2 powi (ulp_exp x) = x / 2 powi (ulp_exp x) * 2 powi (ulp_exp x)"
      by (simp only: rne_of_int)
    then show ?thesis using False by (simp add: rnd_def Let_def flip: x_def)
  qed
qed simp

lemma rnd_of_int: "\<bar>k\<bar> \<le> 2 ^ 53 \<Longrightarrow> rnd (of_int k) = of_int k"
  using rnd_representable [of k 0] by simp

lemma rnd_of_nat: "n \<le> 2 ^ 53 \<Longrightarrow> rnd (of_nat n) = of_nat n"
  using rnd_of_int [of "int n"] by simp

lemma rnd_pow2: "- 1074 \<le> j \<Longrightarrow> rnd (2 powi j) = 2 powi j"
  using rnd_representable [of 1 j] by simp

lemma rnd_1 [simp]: "rnd 1 = 1"
  using rnd_of_int [of 1] by simp

lemma rnd_nonneg: "0 \<le> x \<Longrightarrow> 0 \<le> rnd x"
proof -
  assume "0 \<le> x"
  then have "0 \<le> rne (x / 2 powi (ulp_exp x))" using rne_mono [of "of_int 0" "x / 2 powi (ulp_exp x)"] rne_of_int [of 0] by simp
  then show ?thesis by (simp add: rnd_def Let_def)
qed

lemma rnd_mono_pos:
  assumes "0 < x" "x \<le> y"
  shows "rnd x \<le> rnd y"
proof (cases "ulp_exp x = ulp_exp y")
  case True
  have "rne (x / 2 powi (ulp_exp y)) \<le> rne (y / 2 powi (ulp_exp y))"
    using assms by (intro rne_mono divide_right_mono) simp_all
  then show ?thesis using assms True by (simp add: rnd_def Let_def)
next
  case False
  have lt: "ulp_exp x < ulp_exp y" using binexp_mono [OF assms] False unfolding ulp_exp_def by linarith
  then have y: "ulp_exp y = binexp y - 52" by (simp add: ulp_exp_def max_def split: if_splits)
  have "binexp x < binexp y" using lt by (simp add: ulp_exp_def max_def split: if_splits)
  have up: "rnd x \<le> 2 powi (binexp y)"
  proof -
    have "x < 2 powi (binexp x + 1)" using binexp_bounds assms by simp
    also have "\<dots> \<le> 2 powi (binexp y)" using \<open>binexp x < binexp y\<close> by (intro powi_mono) simp
    finally have "x \<le> 2 powi (binexp y)" by simp
    have "x / 2 powi (ulp_exp x) \<le> 2 powi (binexp y) / 2 powi (ulp_exp x)"
      using \<open>x \<le> 2 powi (binexp y)\<close> by (intro divide_right_mono) simp_all
    also have "\<dots> = of_int (2 ^ nat (binexp y - ulp_exp x))"
      using lt y powi_nat [of "binexp y - ulp_exp x"] by (simp only: powi_diff [symmetric])
    finally have "rne (x / 2 powi (ulp_exp x)) \<le> 2 ^ nat (binexp y - ulp_exp x)"
      using rne_mono rne_of_int by metis
    then have "(of_int (rne (x / 2 powi (ulp_exp x))) :: rat) \<le> of_int (2 ^ nat (binexp y - ulp_exp x))"
      by (simp only: of_int_le_iff)
    also have "(of_int (2 ^ nat (binexp y - ulp_exp x)) :: rat) = 2 powi (binexp y - ulp_exp x)"
      using lt y by (simp add: power_int_def)
    finally have "of_int (rne (x / 2 powi (ulp_exp x))) * 2 powi (ulp_exp x) \<le> (2 powi (binexp y - ulp_exp x) :: rat) * 2 powi (ulp_exp x)"
      by (rule mult_right_mono) simp
    then show ?thesis using assms by (simp add: rnd_def Let_def powi_diff)
  qed
  have "2 powi (binexp y) \<le> rnd y"
  proof -
    have "(2 powi 52 :: rat) = 2 powi (binexp y) / 2 powi (ulp_exp y)" by (simp add: y flip: powi_diff)
    also have "\<dots> \<le> y / 2 powi (ulp_exp y)"
      using binexp_bounds(1) [of y] assms by (intro divide_right_mono) simp_all
    finally have "rne (of_int (2 ^ 52)) \<le> rne (y / 2 powi (ulp_exp y))" by (intro rne_mono) simp
    then have "(2 ^ 52 :: int) \<le> rne (y / 2 powi (ulp_exp y))" by (simp only: rne_of_int)
    then have "(of_int (2 ^ 52) :: rat) \<le> of_int (rne (y / 2 powi (ulp_exp y)))" by (simp only: of_int_le_iff)
    then have A: "of_int (2 ^ 52) * 2 powi (ulp_exp y) \<le> (of_int (rne (y / 2 powi (ulp_exp y))) :: rat) * 2 powi (ulp_exp y)"
      by (rule mult_right_mono) simp
    have B: "(of_int (2 ^ 52) * 2 powi (ulp_exp y) :: rat) = 2 powi (binexp y)"
      using power_int_add [of "2 :: rat" 52 "ulp_exp y"] by (simp add: y)
    have C: "rnd y = of_int (rne (y / 2 powi (ulp_exp y))) * 2 powi (ulp_exp y)"
      using assms by (simp add: rnd_def Let_def)
    show ?thesis using A unfolding B C .
  qed
  then show ?thesis using up by simp
qed

lemma rnd_mono_nonneg: "0 \<le> x \<Longrightarrow> x \<le> y \<Longrightarrow> rnd x \<le> rnd y"
  using rnd_mono_pos [of x y] rnd_nonneg [of y] by (cases "x = 0") auto

lemma rnd_le:
  "0 \<le> x \<Longrightarrow> x \<le> of_int k \<Longrightarrow> \<bar>k\<bar> \<le> 2 ^ 53 \<Longrightarrow> rnd x \<le> of_int k"
  using rnd_mono_nonneg [of x "of_int k"] by (simp add: rnd_of_int)

lemma rnd_ge:
  "0 \<le> k \<Longrightarrow> of_int k \<le> x \<Longrightarrow> \<bar>k\<bar> \<le> 2 ^ 53 \<Longrightarrow> of_int k \<le> rnd x"
  using rnd_mono_nonneg [of "of_int k" x] by (simp add: rnd_of_int)

text \<open>The relative error of one rounding in the normal range.\<close>

lemma rnd_error:
  assumes "2 powi (- 1022) \<le> x"
  shows "\<bar>rnd x - x\<bar> \<le> x / 2 ^ 53"
proof -
  have "(0 :: rat) < 2 powi (- 1022)" by (rule powi_pos)
  then have pos: "0 < x" using assms by linarith
  have "- 1022 \<le> binexp x"
  proof -
    have "(2 powi (- 1022) :: rat) < 2 powi (binexp x + 1)"
      using assms binexp_bounds(2) [OF pos] by linarith
    then show ?thesis using powi_less_imp by fastforce
  qed
  then have u: "ulp_exp x = binexp x - 52" by (simp add: ulp_exp_def)
  let ?q = "2 powi (ulp_exp x) :: rat"
  have "\<bar>rnd x - x\<bar> = \<bar>of_int (rne (x / ?q)) - x / ?q\<bar> * ?q"
  proof -
    have "rnd x - x = (of_int (rne (x / ?q)) - x / ?q) * ?q"
      using pos by (simp add: rnd_def Let_def left_diff_distrib)
    then show ?thesis by (simp add: abs_mult)
  qed
  also have "\<dots> \<le> 1 / 2 * ?q" by (intro mult_right_mono rne_error) simp
  also have "\<dots> = 2 powi (binexp x) / 2 ^ 53" by (simp add: u powi_diff)
  also have "\<dots> \<le> x / 2 ^ 53" using binexp_bounds(1) [OF pos] by (intro divide_right_mono) simp_all
  finally show ?thesis .
qed

section \<open>Operations\<close>

text \<open>\<open>static_cast<double>\<close> of integers, and the four operations.\<close>

definition d_of_int :: "int \<Rightarrow> double" where "d_of_int n = rnd (of_int n)"
definition d_of_u64 :: "u64 \<Rightarrow> double" where "d_of_u64 n = d_of_int (uint n)"
definition d_add :: "double \<Rightarrow> double \<Rightarrow> double" where "d_add x y = rnd (x + y)"
definition d_sub :: "double \<Rightarrow> double \<Rightarrow> double" where "d_sub x y = rnd (x - y)"
definition d_mul :: "double \<Rightarrow> double \<Rightarrow> double" where "d_mul x y = rnd (x * y)"
definition d_div :: "double \<Rightarrow> double \<Rightarrow> double" where "d_div x y = rnd (x / y)"

text \<open>\<open>static_cast\<close> of a double to an integer type truncates; out of range it is undefined.\<close>

definition d_trunc :: "double \<Rightarrow> int" where
  "d_trunc x = (if 0 \<le> x then \<lfloor>x\<rfloor> else - \<lfloor>- x\<rfloor>)"

definition u64_of_d :: "double \<Rightarrow> u64 option" where
  "u64_of_d x = (let n = d_trunc x in if 0 \<le> n \<and> n < 2 ^ 64 then Some (of_int n) else None)"

lemma d_of_int_mono: "0 \<le> a \<Longrightarrow> a \<le> b \<Longrightarrow> d_of_int a \<le> d_of_int b"
  unfolding d_of_int_def by (rule rnd_mono_nonneg) simp_all

lemma d_of_int_exact: "\<bar>k\<bar> \<le> 2 ^ 53 \<Longrightarrow> d_of_int k = of_int k"
  by (simp add: d_of_int_def rnd_of_int)

lemma d_of_int_nonneg: "0 \<le> a \<Longrightarrow> 0 \<le> d_of_int a"
  using d_of_int_mono [of 0 a] by (simp add: d_of_int_exact)

lemma d_of_u64_nonneg [simp]: "0 \<le> d_of_u64 n"
  by (simp add: d_of_u64_def d_of_int_nonneg)

lemma d_of_u64_mono: "a \<le> b \<Longrightarrow> d_of_u64 a \<le> d_of_u64 b"
  unfolding d_of_u64_def by (rule d_of_int_mono) (simp_all add: word_le_def)

lemma d_of_u64_pos: "n \<noteq> 0 \<Longrightarrow> 1 \<le> d_of_u64 n"
proof -
  assume "n \<noteq> 0"
  then have "1 \<le> uint n" by (metis int_one_le_iff_zero_less order_le_less uint_0_iff uint_ge_0)
  then show ?thesis using d_of_int_mono [of 1 "uint n"] by (simp add: d_of_u64_def d_of_int_exact)
qed

lemma d_of_u64_le: "d_of_u64 n \<le> 2 ^ 64"
proof -
  have "uint n \<le> 2 ^ 64" using uint_lt2p [of n] by simp
  then have "d_of_int (uint n) \<le> d_of_int (2 ^ 64)" by (intro d_of_int_mono) simp_all
  then show ?thesis using rnd_pow2 [of 64] by (simp add: d_of_u64_def d_of_int_def)
qed

text \<open>A ratio of counters \<open>a \<le> b\<close> is in the unit interval.\<close>

lemma d_ratio_unit:
  assumes "a \<le> b" "b \<noteq> 0"
  shows "0 \<le> d_div (d_of_u64 a) (d_of_u64 b) \<and> d_div (d_of_u64 a) (d_of_u64 b) \<le> 1"
proof -
  have b: "1 \<le> d_of_u64 b" using d_of_u64_pos assms(2) by blast
  then have "0 \<le> d_of_u64 a / d_of_u64 b" "d_of_u64 a / d_of_u64 b \<le> of_int 1"
    using d_of_u64_mono [OF assms(1)] by (simp_all add: divide_le_eq_1)
  then show ?thesis unfolding d_div_def using rnd_nonneg rnd_le [of _ 1] by fastforce
qed

section \<open>The lattice of doubles\<close>

text \<open>Rounding is symmetric and idempotent, its results lie on a grid.\<close>

lemma rne_minus: "rne (- y) = - rne y"
proof -
  consider "of_int \<lfloor>y\<rfloor> = y" | "of_int \<lfloor>y\<rfloor> \<noteq> y" by blast
  then show ?thesis
  proof cases
    case 1
    have "rne (- of_int k) = - rne (of_int k)" for k using rne_of_int [of "- k"] by simp
    then show ?thesis using 1 by metis
  next
    case 2
    have fl: "\<lfloor>- y\<rfloor> = - \<lfloor>y\<rfloor> - 1"
    proof (rule floor_unique)
      show "of_int (- \<lfloor>y\<rfloor> - 1) \<le> - y" using floor_correct [of y] by simp
      show "- y < of_int (- \<lfloor>y\<rfloor> - 1) + 1" using order.not_eq_order_implies_strict [OF 2 of_int_floor_le] by simp
    qed
    show ?thesis unfolding rne_def Let_def fl by (auto simp: field_simps split: if_splits) 
  qed
qed

lemma rnd_minus: "rnd (- x) = - rnd x"
  by (simp add: rnd_def Let_def ulp_exp_def rne_minus minus_divide_left [symmetric])

lemma rnd_form: "\<exists>m j. rnd x = of_int m * 2 powi j \<and> \<bar>m\<bar> \<le> 2 ^ 53 \<and> - 1074 \<le> j"
proof (cases "x = 0")
  case True
  then show ?thesis by (intro exI [of _ 0] exI [of _ 0]) simp
next
  case False
  let ?q = "2 powi (ulp_exp x) :: rat"
  have be: "binexp x = binexp \<bar>x\<bar>" by (cases "0 \<le> x") simp_all
  have "\<bar>x\<bar> < 2 powi (binexp x + 1)" using binexp_bounds(2) [of "\<bar>x\<bar>"] False be by simp
  also have "\<dots> \<le> 2 powi (53 + ulp_exp x)" by (intro powi_mono) (simp add: ulp_exp_def)
  also have "\<dots> = 2 ^ 53 * ?q" by (simp add: power_int_add)
  finally have le: "\<bar>x / ?q\<bar> \<le> 2 ^ 53" by (simp add: abs_divide pos_divide_le_eq)
  have "of_int (- (2 ^ 53)) \<le> x / ?q" "x / ?q \<le> of_int (2 ^ 53)"
    unfolding of_int_minus of_int_power of_int_numeral using abs_le_D1 [OF le] abs_le_D2 [OF le] by linarith+
  then have "- (2 ^ 53) \<le> rne (x / ?q)" "rne (x / ?q) \<le> 2 ^ 53" using rne_mono rne_of_int by metis+
  then show ?thesis using False
    by (intro exI [of _ "rne (x / ?q)"] exI [of _ "ulp_exp x"]) (simp add: rnd_def Let_def ulp_exp_def abs_le_iff)
qed

lemma rnd_idem [simp]: "rnd (rnd x) = rnd x"
  using rnd_form [of x] rnd_representable by auto

text \<open>Doubles lie on a grid, so the difference of two doubles is zero or at least one grid step.\<close>

lemma rnd_grid: "rnd x = x \<Longrightarrow> \<exists>k. x = of_int k * 2 powi (- 1074)"
proof -
  assume "rnd x = x"
  then obtain m j where m: "x = of_int m * 2 powi j" "- 1074 \<le> j" using rnd_form [of x] by auto
  have "2 powi j = (2 powi (j + 1074) * 2 powi (- 1074) :: rat)"
    by (subst power_int_add [symmetric]) simp_all
  also have "2 powi (j + 1074) = (of_int (2 ^ nat (j + 1074)) :: rat)" using m(2) by (intro powi_nat) simp
  finally show ?thesis using m(1) by (intro exI [of _ "m * 2 ^ nat (j + 1074)"]) simp
qed

end
