(* ===== verification/Seq_Tracker.thy ===== *)
theory Seq_Tracker
  imports Serial Double64
begin

text \<open>
  Per-stream sequence accounting (core/include/radio/seq_tracker.hpp,
  core/src/metrics/seq_tracker.cpp): a circular bitmap of the last 1024 sequence numbers and the
  counters of loss, duplication and reordering. The theory proves that the bitmap refines a set
  of sequence numbers inside a sliding window, and that on a stream that stays within the
  serial horizon the counters are exact: every position of the observed span is either received
  once or counted lost.
\<close>

section \<open>State\<close>

definition kWindowSize :: nat where "kWindowSize = 1024"
definition kBitsPerWord :: nat where "kBitsPerWord = 64"
definition kWords :: nat where "kWords = kWindowSize div 64"

datatype verdict = First | InOrder | Reordered | Duplicate | TooOld

fun verdict_to_string :: "verdict \<Rightarrow> string" where
  "verdict_to_string First = ''first''"
| "verdict_to_string InOrder = ''in_order''"
| "verdict_to_string Reordered = ''reordered''"
| "verdict_to_string Duplicate = ''duplicate''"
| "verdict_to_string TooOld = ''too_old''"

record seq_tracker =
  st_words :: "u64 list"
  st_base :: u32
  st_highest :: u32
  st_received :: u64
  st_duplicates :: u64
  st_reordered :: u64
  st_too_old :: u64
  st_started :: bool

definition seq_init :: seq_tracker where
  "seq_init = \<lparr>st_words = replicate kWords 0, st_base = 0, st_highest = 0, st_received = 0,
     st_duplicates = 0, st_reordered = 0, st_too_old = 0, st_started = False\<rparr>"

definition seq_reset :: "seq_tracker \<Rightarrow> seq_tracker" where
  "seq_reset t = seq_init"

section \<open>The bitmap\<close>

definition slot :: "u32 \<Rightarrow> nat" where
  "slot seq = unat seq mod kWindowSize"

definition seq_test :: "u64 list \<Rightarrow> u32 \<Rightarrow> bool" where
  "seq_test words seq =
     (let s = slot seq in
      drop_bit (s mod kBitsPerWord) (words ! (s div kBitsPerWord)) AND 1 \<noteq> 0)"

definition seq_set :: "u64 list \<Rightarrow> u32 \<Rightarrow> u64 list" where
  "seq_set words seq =
     (let s = slot seq; i = s div kBitsPerWord in
      words[i := words ! i OR push_bit (s mod kBitsPerWord) 1])"

definition seq_clear :: "u64 list \<Rightarrow> u32 \<Rightarrow> u64 list" where
  "seq_clear words seq =
     (let s = slot seq; i = s div kBitsPerWord in
      words[i := words ! i AND NOT (push_bit (s mod kBitsPerWord) 1)])"

text \<open>\<open>for (s = from + 1; s != to; ++s) clear(s)\<close>.\<close>

function clear_loop :: "u64 list \<Rightarrow> u32 \<Rightarrow> u32 \<Rightarrow> u64 list" where
  "clear_loop words s to = (if s = to then words else clear_loop (seq_clear words s) (s + 1) to)"
  by pat_completeness auto
termination
proof (relation "measure (\<lambda>(words, s, to). unat (to - s))")
  fix words :: "u64 list" and s to :: u32
  assume "s \<noteq> to"
  then have "to - s \<noteq> 0" by simp
  then have "unat (to - s - 1) < unat (to - s)"
    using unat_minus_one [of "to - s"] by (simp add: unat_gt_0)
  then show "((seq_clear words s, s + 1, to), words, s, to) \<in> measure (\<lambda>(words, s, to). unat (to - s))"
    by (simp add: diff_diff_eq)
qed simp

declare clear_loop.simps [simp del]

definition clear_range_exclusive :: "u64 list \<Rightarrow> u32 \<Rightarrow> u32 \<Rightarrow> u64 list" where
  "clear_range_exclusive words from to =
     (let span = distance from to in
      if span \<le> 0 then words
      else if span \<ge> int kWindowSize then replicate kWords 0
      else clear_loop words (from + 1) to)"

section \<open>Operations\<close>

definition seq_observe :: "seq_tracker \<Rightarrow> u32 \<Rightarrow> verdict \<times> seq_tracker" where
  "seq_observe t seq =
     (if \<not> st_started t then
        (First, t\<lparr>st_started := True, st_base := seq, st_highest := seq,
                  st_words := seq_set (replicate kWords 0) seq, st_received := 1\<rparr>)
      else
        let ahead = distance (st_highest t) seq in
        if ahead > 0 then
          (InOrder, t\<lparr>st_words := seq_set (clear_range_exclusive (st_words t) (st_highest t) seq) seq,
                      st_highest := seq, st_received := st_received t + 1\<rparr>)
        else if ahead = 0 then
          (Duplicate, t\<lparr>st_duplicates := st_duplicates t + 1\<rparr>)
        else
          let age = - ahead in
          if age \<ge> int kWindowSize then
            (TooOld, t\<lparr>st_too_old := st_too_old t + 1\<rparr>)
          else if seq_test (st_words t) seq then
            (Duplicate, t\<lparr>st_duplicates := st_duplicates t + 1\<rparr>)
          else
            (Reordered, t\<lparr>st_words := seq_set (st_words t) seq,
                          st_received := st_received t + 1,
                          st_reordered := st_reordered t + 1,
                          st_base := (if precedes seq (st_base t) then seq else st_base t)\<rparr>))"

definition seq_expected :: "seq_tracker \<Rightarrow> u64" where
  "seq_expected t =
     (if \<not> st_started t then 0
      else
        let span = distance (st_base t) (st_highest t) in
        if span < 0 then 0 else of_int span + 1)"

definition seq_lost :: "seq_tracker \<Rightarrow> u64" where
  "seq_lost t =
     (let expd = seq_expected t in
      if expd > st_received t then expd - st_received t else 0)"

definition seq_loss_fraction :: "seq_tracker \<Rightarrow> double" where
  "seq_loss_fraction t =
     (let expd = seq_expected t in
      if expd = 0 then 0 else d_div (d_of_u64 (seq_lost t)) (d_of_u64 expd))"

lemma seq_lost_le_expected: "seq_lost t \<le> seq_expected t"
proof -
  have "a \<le> b \<Longrightarrow> b - a \<le> b" for a b :: u64 by (rule word_sub_le)
  then show ?thesis by (simp add: seq_lost_def Let_def)
qed

text \<open>The loss fraction is a fraction, whatever the counters.\<close>

lemma seq_loss_fraction_unit: "0 \<le> seq_loss_fraction t \<and> seq_loss_fraction t \<le> 1"
  using d_ratio_unit [OF seq_lost_le_expected] by (simp add: seq_loss_fraction_def Let_def)

section \<open>The bitmap as a set of slots\<close>

abbreviation words_ok :: "u64 list \<Rightarrow> bool" where
  "words_ok ws \<equiv> length ws = kWords"

lemmas seq_consts = kWindowSize_def kBitsPerWord_def kWords_def

lemma slot_less: "slot s < 1024"
  by (simp add: slot_def seq_consts)

lemma slot_div: "slot s div 64 < 16"
  using slot_less [of s] by (simp add: less_mult_imp_div_less)

lemma test_bit: "seq_test ws s \<longleftrightarrow> bit (ws ! (slot s div 64)) (slot s mod 64)"
  by (simp add: seq_test_def seq_consts Let_def bit_iff_and_drop_bit_eq_1 and_one_eq odd_iff_mod_2_eq_one)

lemma words_ok_set [simp]: "words_ok (seq_set ws s) \<longleftrightarrow> words_ok ws"
  by (simp add: seq_set_def Let_def)

lemma words_ok_clear [simp]: "words_ok (seq_clear ws s) \<longleftrightarrow> words_ok ws"
  by (simp add: seq_clear_def Let_def)

lemma same_slot: "slot a div 64 = slot b div 64 \<Longrightarrow> slot a mod 64 = slot b mod 64 \<Longrightarrow> slot a = slot b"
  by (metis div_mult_mod_eq)

lemma bit_push_1: "bit (2 ^ m :: u64) n \<longleftrightarrow> n = m \<and> m < 64"
  by (auto simp: bit_simps)

lemma slot_eq_div_mod:
  "slot a = slot b \<longleftrightarrow> slot a div 64 = slot b div 64 \<and> slot a mod 64 = slot b mod 64"
  by (metis same_slot)

lemma test_set:
  assumes "words_ok ws"
  shows "seq_test (seq_set ws a) b \<longleftrightarrow> slot a = slot b \<or> seq_test ws b"
proof -
  have "slot a div 64 < length ws" using assms slot_div [of a] by (simp add: seq_consts)
  then show ?thesis
    by (cases "slot a div 64 = slot b div 64")
       (auto simp: slot_eq_div_mod test_bit seq_set_def Let_def kBitsPerWord_def bit_or_iff bit_push_1)
qed

lemma test_clear:
  assumes "words_ok ws"
  shows "seq_test (seq_clear ws a) b \<longleftrightarrow> slot a \<noteq> slot b \<and> seq_test ws b"
proof -
  have "slot a div 64 < length ws" using assms slot_div [of a] by (simp add: seq_consts)
  then show ?thesis
    by (cases "slot a div 64 = slot b div 64")
       (auto simp: slot_eq_div_mod test_bit seq_clear_def Let_def kBitsPerWord_def bit_and_iff
         bit_not_iff bit_push_1)
qed

lemma test_zero: "\<not> seq_test (replicate kWords 0) s"
  using slot_div [of s] by (simp add: test_bit seq_consts)

lemma slot_eq_iff: "slot a = slot b \<longleftrightarrow> 1024 dvd distance a b"
  using unat_mod_eq_iff [of 1024 a b] by (simp add: slot_def seq_consts)

lemma slot_eq_near: "\<bar>distance a b\<bar> < 1024 \<Longrightarrow> slot a = slot b \<longleftrightarrow> a = b"
  using distance_multiple [of 1024 a b] by (auto simp: slot_eq_iff)

lemma words_ok_clear_loop: "words_ok ws \<Longrightarrow> words_ok (clear_loop ws s to)"
proof (induction ws s to rule: clear_loop.induct)
  case (1 ws s to)
  then show ?case by (simp add: clear_loop.simps [of ws s to])
qed

text \<open>The loop clears the slots of the numbers from \<open>s\<close> to just before \<open>to\<close>.\<close>

lemma test_clear_loop:
  assumes "words_ok ws" "to = s + of_nat n" "n < 2 ^ 32"
  shows "seq_test (clear_loop ws s to) b \<longleftrightarrow>
    seq_test ws b \<and> (\<forall>k<n. slot (s + of_nat k) \<noteq> slot b)"
  using assms
proof (induction n arbitrary: ws s)
  case 0
  then show ?case by (subst clear_loop.simps) simp
next
  case (Suc n)
  have "(of_nat (Suc n) :: u32) \<noteq> 0"
    using Suc.prems by (simp add: word_of_nat_eq_0_iff nat_dvd_not_less del: of_nat_Suc)
  then have "s \<noteq> to" using Suc.prems by (simp del: of_nat_Suc)
  then have "clear_loop ws s to = clear_loop (seq_clear ws s) (s + 1) to"
    by (subst clear_loop.simps) simp
  moreover have "seq_test (clear_loop (seq_clear ws s) (s + 1) to) b \<longleftrightarrow>
      seq_test (seq_clear ws s) b \<and> (\<forall>k<n. slot (s + 1 + of_nat k) \<noteq> slot b)"
    using Suc.prems by (intro Suc.IH) (simp_all add: add.assoc)
  ultimately show ?case
    using Suc.prems by (auto simp: test_clear less_Suc_eq_0_disj add.assoc)
qed

lemma words_ok_clear_range [simp]: "words_ok ws \<Longrightarrow> words_ok (clear_range_exclusive ws a b)"
  by (simp add: clear_range_exclusive_def Let_def words_ok_clear_loop)

lemma slot_of_int_near:
  "\<bar>y - x\<bar> < 1024 \<Longrightarrow> slot (of_int x) = slot (of_int y) \<longleftrightarrow> x = y"
proof -
  assume "\<bar>y - x\<bar> < 1024"
  then have d: "distance (of_int x) (of_int y) = y - x"
    by (intro distance_of_int) (simp_all add: abs_if split: if_splits)
  with \<open>\<bar>y - x\<bar> < 1024\<close> show ?thesis
    by (subst slot_eq_near) (auto simp flip: distance_eq_0_iff)
qed

text \<open>
  Advancing the high-water mark from position \<open>f\<close> to \<open>f + span\<close>: of the other positions of the new
  window, exactly those at or before \<open>f\<close> keep their bit.
\<close>

lemma test_clear_range:
  assumes ws: "words_ok ws" and sp: "0 < w" "w < 2 ^ 31" and d: "0 < d" "d < 1024"
  shows "seq_test (clear_range_exclusive ws (of_int f) (of_int (f + w))) (of_int (f + w - d))
    \<longleftrightarrow> seq_test ws (of_int (f + w - d)) \<and> w \<le> d"
proof -
  have dist: "distance (of_int f) (of_int (f + w)) = w"
    using sp distance_of_int [of "f + w" f] by simp
  show ?thesis
  proof (cases "w \<ge> 1024")
    case True
    then show ?thesis
      using sp d dist by (simp add: clear_range_exclusive_def seq_consts test_zero [unfolded seq_consts, simplified])
  next
    case False
    define n where "n = nat (w - 1)"
    have n: "int n = w - 1" using sp by (simp add: n_def)
    have "(of_nat n :: u32) = of_int (int n)" by simp
    then have to: "of_int (f + w) = (of_int f + 1 + of_nat n :: u32)" by (simp add: n)
    have "clear_range_exclusive ws (of_int f) (of_int (f + w)) =
      clear_loop ws (of_int f + 1) (of_int (f + w))"
      using False sp dist by (simp add: clear_range_exclusive_def seq_consts)
    moreover have "n < 2 ^ 32" using n sp by simp
    moreover have "(\<forall>k<n. slot (of_int f + 1 + of_nat k) \<noteq> slot (of_int (f + w - d))) \<longleftrightarrow> w \<le> d"
    proof -
      have k: "slot (of_int f + 1 + of_nat k) = slot (of_int (f + w - d)) \<longleftrightarrow> int k = w - d - 1"
        if "k < n" for k
      proof -
        have "of_int f + 1 + of_nat k = (of_int (f + 1 + int k) :: u32)" by simp
        moreover have "\<bar>(f + w - d) - (f + 1 + int k)\<bar> < 1024"
          using that n sp d False by linarith
        ultimately show ?thesis using slot_of_int_near [of "f + w - d" "f + 1 + int k"] by auto
      qed
      show ?thesis
      proof
        assume a: "\<forall>k<n. slot (of_int f + 1 + of_nat k) \<noteq> slot (of_int (f + w - d))"
        show "w \<le> d"
        proof (rule ccontr)
          assume "\<not> w \<le> d"
          then have "nat (w - d - 1) < n" "int (nat (w - d - 1)) = w - d - 1"
            using d n by linarith+
          with a k show False by blast
        qed
      next
        assume le: "w \<le> d"
        show "\<forall>k<n. slot (of_int f + 1 + of_nat k) \<noteq> slot (of_int (f + w - d))"
        proof (intro allI impI notI)
          fix i assume "i < n" "slot (of_int f + 1 + of_nat i) = slot (of_int (f + w - d))"
          then have "int i = w - d - 1" using k by blast
          with le show False by linarith
        qed
      qed
    qed
    ultimately show ?thesis
      using test_clear_loop [OF ws to] by simp
  qed
qed

section \<open>Specification: a set in a sliding window\<close>

text \<open>
  The abstract tracker remembers the high-water mark and the set of the sequence numbers it
  has seen among the last 1024.
\<close>

type_synonym window = "(u32 \<times> u32 set) option"

definition in_window :: "u32 \<Rightarrow> u32 \<Rightarrow> bool" where
  "in_window h s \<longleftrightarrow> 0 \<le> distance s h \<and> distance s h < 1024"

definition window_observe :: "window \<Rightarrow> u32 \<Rightarrow> verdict \<times> window" where
  "window_observe w seq =
     (case w of
        None \<Rightarrow> (First, Some (seq, {seq}))
      | Some (h, S) \<Rightarrow>
          if precedes h seq then (InOrder, Some (seq, insert seq {s \<in> S. in_window seq s}))
          else if \<not> in_window h seq then (TooOld, Some (h, S))
          else if seq \<in> S then (Duplicate, Some (h, S))
          else (Reordered, Some (h, insert seq S)))"

definition seq_window :: "seq_tracker \<Rightarrow> window" where
  "seq_window t =
     (if st_started t
      then Some (st_highest t, {s. in_window (st_highest t) s \<and> seq_test (st_words t) s})
      else None)"

definition seq_inv :: "seq_tracker \<Rightarrow> bool" where
  "seq_inv t \<longleftrightarrow> words_ok (st_words t) \<and>
     (if st_started t then seq_test (st_words t) (st_highest t) else st_received t = 0)"

lemma seq_inv_init [simp]: "seq_inv seq_init"
  by (simp add: seq_inv_def seq_init_def)

lemma seq_inv_observe: "seq_inv t \<Longrightarrow> seq_inv (snd (seq_observe t s))"
  by (auto simp: seq_inv_def seq_observe_def Let_def test_set)

lemma in_window_self [simp]: "in_window h h"
  by (simp add: in_window_def)

lemma in_windowE:
  assumes "in_window h s"
  obtains d where "0 \<le> d" "d < 1024" "s = h - of_int d" "distance s h = d"
  using assms by (intro that [of "distance s h"]) (simp_all add: in_window_def of_int_distance)

lemma distance_min: "distance a b = - (2 ^ 31) \<Longrightarrow> distance b a = - (2 ^ 31)"
proof -
  assume d: "distance a b = - (2 ^ 31)"
  show ?thesis
  proof (rule ccontr)
    assume "distance b a \<noteq> - (2 ^ 31)"
    from distance_flip [OF this] d have "distance b a = 2 ^ 31" by simp
    with distance_range(2) [of b a] show False by simp
  qed
qed

lemma test_after_advance:
  assumes inv: "words_ok ws" and adv: "distance h q > 0" and win: "in_window q s" and ne: "s \<noteq> q"
  shows "seq_test (seq_set (clear_range_exclusive ws h q) q) s \<longleftrightarrow> in_window h s \<and> seq_test ws s"
proof -
  define f where "f = uint h"
  define sp where "sp = distance h q"
  obtain d where d: "0 \<le> d" "d < 1024" "s = q - of_int d" "distance s q = d"
    using win by (rule in_windowE)
  have sp: "0 < sp" "sp < 2 ^ 31" using adv distance_range [of h q] by (simp_all add: sp_def)
  have d0: "0 < d" using d ne by (cases "d = 0") auto
  have h: "h = of_int f" by (simp add: f_def)
  have q: "q = of_int (f + sp)" by (simp add: h sp_def of_int_distance)
  have s: "s = of_int (f + sp - d)" by (simp add: d(3) q)
  have "slot q \<noteq> slot s"
    using slot_of_int_near [of "f + sp - d" "f + sp"] d d0 unfolding q s by simp
  then have "seq_test (seq_set (clear_range_exclusive ws h q) q) s \<longleftrightarrow>
      seq_test (clear_range_exclusive ws h q) s"
    using inv by (simp add: test_set)
  also have "\<dots> \<longleftrightarrow> seq_test ws s \<and> sp \<le> d"
    using test_clear_range [OF inv sp d0 d(2), of f] unfolding h q s by blast
  also have "sp \<le> d \<longleftrightarrow> in_window h s"
  proof -
    have "distance s h = d - sp"
      using distance_of_int [of f "f + sp - d"] sp d unfolding h s by simp
    then show ?thesis using d sp by (auto simp: in_window_def)
  qed
  finally show ?thesis by auto
qed

text \<open>One observation of the bitmap is one observation of the set.\<close>

lemma seq_observe_refines:
  assumes "seq_inv t"
  shows "window_observe (seq_window t) seq =
    (fst (seq_observe t seq), seq_window (snd (seq_observe t seq)))"
proof (cases "st_started t")
  case False
  have "in_window seq s \<and> slot seq = slot s \<longleftrightarrow> s = seq" for s
    using slot_eq_near [of s seq] by (auto simp: in_window_def)
  then show ?thesis using False
    by (simp add: seq_observe_def window_observe_def seq_window_def test_set test_zero)
next
  case st: True
  let ?h = "st_highest t"
  have ws: "words_ok (st_words t)" and hi: "seq_test (st_words t) ?h"
    using assms st by (auto simp: seq_inv_def)
  consider "distance ?h seq > 0" | "seq = ?h" | "distance ?h seq < 0" "- distance ?h seq \<ge> 1024"
    | "distance ?h seq < 0" "- distance ?h seq < 1024"
    by (cases "distance ?h seq" "0::int" rule: linorder_cases; fastforce)
  then show ?thesis
  proof cases
    case 1
    have "{s. in_window seq s \<and> seq_test (seq_set (clear_range_exclusive (st_words t) ?h seq) seq) s}
      = insert seq {s \<in> {s. in_window ?h s \<and> seq_test (st_words t) s}. in_window seq s}"
      using test_after_advance [OF ws 1] ws by (auto simp: test_set)
    with 1 st show ?thesis
      by (simp add: seq_observe_def window_observe_def seq_window_def precedes_def Let_def)
  next
    case 2
    with st hi show ?thesis
      by (simp add: seq_observe_def window_observe_def seq_window_def precedes_def)
  next
    case 3
    have "\<not> in_window ?h seq"
    proof (cases "distance ?h seq = - (2 ^ 31)")
      case True
      then show ?thesis by (simp add: distance_min in_window_def)
    next
      case False
      then show ?thesis using 3 distance_flip [OF False] by (simp add: in_window_def)
    qed
    with 3 st show ?thesis
      by (auto simp: seq_observe_def window_observe_def seq_window_def precedes_def Let_def seq_consts)
  next
    case 4
    then have fl: "distance seq ?h = - distance ?h seq" by (intro distance_flip) simp
    with 4 have win: "in_window ?h seq" by (simp add: in_window_def)
    have "slot seq = slot s \<longleftrightarrow> s = seq" if "in_window ?h s" for s
    proof -
      have "distance s seq = distance s ?h + distance ?h seq"
        using that 4 by (intro distance_trans) (auto simp: in_window_def)
      then have "\<bar>distance s seq\<bar> < 1024" using that 4 by (auto simp: in_window_def)
      then show ?thesis using slot_eq_near [of s seq] by auto
    qed
    then have "{s. in_window ?h s \<and> seq_test (seq_set (st_words t) seq) s}
      = insert seq {s. in_window ?h s \<and> seq_test (st_words t) s}"
      using ws win by (auto simp: test_set)
    with 4 st win show ?thesis
      by (auto simp: seq_observe_def window_observe_def seq_window_def precedes_def Let_def seq_consts)
  qed
qed

section \<open>Exact accounting on a bounded stretch of the stream\<close>

text \<open>
  \<open>seen_positions\<close> is the specification of the counters: the sequence numbers are unwrapped to
  integer positions, and a position is accepted unless it is 1024 or more behind the newest.
\<close>

definition accept :: "int set \<Rightarrow> int \<Rightarrow> int set" where
  "accept A p = (if A \<noteq> {} \<and> p \<le> Max A - 1024 then A else insert p A)"

definition seen_positions :: "int list \<Rightarrow> int set" where
  "seen_positions ps = foldl accept {} ps"

definition seq_run :: "seq_tracker \<Rightarrow> u32 list \<Rightarrow> seq_tracker" where
  "seq_run = foldl (\<lambda>t s. snd (seq_observe t s))"

definition seq_events :: "seq_tracker \<Rightarrow> u64" where
  "seq_events t = st_received t + st_duplicates t + st_too_old t"

definition tracks :: "seq_tracker \<Rightarrow> int set \<Rightarrow> bool" where
  "tracks t A \<longleftrightarrow> finite A \<and> words_ok (st_words t) \<and> (st_started t \<longleftrightarrow> A \<noteq> {}) \<and>
     st_received t = of_nat (card A) \<and>
     (A \<noteq> {} \<longrightarrow> st_highest t = of_int (Max A) \<and> st_base t = of_int (Min A) \<and>
        (\<forall>p. Max A - 1024 < p \<and> p \<le> Max A \<longrightarrow> (seq_test (st_words t) (of_int p) \<longleftrightarrow> p \<in> A)))"

lemma tracks_init: "tracks seq_init {}"
  by (simp add: tracks_def seq_init_def)

lemma finite_accept [simp]: "finite A \<Longrightarrow> finite (accept A p)"
  by (simp add: accept_def)

lemma tracks_first:
  assumes "tracks t {}"
  shows "tracks (snd (seq_observe t (of_int p))) (accept {} p)"
proof -
  have "seq_test (seq_set (replicate kWords 0) (of_int p)) (of_int q) \<longleftrightarrow> q = p"
    if "p - 1024 < q" "q \<le> p" for q
    using that slot_of_int_near [of q p] by (auto simp: test_set test_zero)
  then show ?thesis using assms
    by (auto simp: tracks_def accept_def seq_observe_def)
qed

lemma tracks_advance:
  assumes tr: "tracks t A" and ne: "A \<noteq> {}" and gt: "Max A < p" and far: "p - Max A < 2 ^ 31"
  shows "tracks (snd (seq_observe t (of_int p))) (accept A p)"
proof -
  have A: "finite A" "words_ok (st_words t)" "st_started t" "st_received t = of_nat (card A)"
      "st_highest t = of_int (Max A)" "st_base t = of_int (Min A)"
    and bits: "\<And>q. Max A - 1024 < q \<Longrightarrow> q \<le> Max A \<Longrightarrow> seq_test (st_words t) (of_int q) \<longleftrightarrow> q \<in> A"
    using tr ne by (auto simp: tracks_def)
  have dist: "distance (of_int (Max A)) (of_int p) = p - Max A"
    using gt far by (intro distance_of_int) simp_all
  have pA: "p \<notin> A" using gt A(1) by (meson Max_ge linorder_not_le)
  have mx: "Max (insert p A) = p" and mn: "Min (insert p A) = Min A"
    using A(1) ne gt Min_le [OF A(1) Max_in [OF A(1) ne]] by simp_all
  have acc: "accept A p = insert p A" using gt by (simp add: accept_def)
  let ?ws = "seq_set (clear_range_exclusive (st_words t) (of_int (Max A)) (of_int p)) (of_int p)"
  have new: "seq_test ?ws (of_int q) \<longleftrightarrow> q \<in> insert p A" if q: "p - 1024 < q" "q \<le> p" for q
  proof (cases "q = p")
    case True
    then show ?thesis using A(2) by (simp add: test_set)
  next
    case False
    then have lt: "q < p" using q by simp
    have near: "slot (of_int p) = slot (of_int q) \<longleftrightarrow> p = q"
      using q by (intro slot_of_int_near) simp
    have "seq_test ?ws (of_int q) \<longleftrightarrow> seq_test (st_words t) (of_int q) \<and> p - Max A \<le> p - q"
      using test_clear_range [OF A(2), of "p - Max A" "p - q" "Max A"] gt far q lt False
      by (simp add: test_set A(2) near)
    also have "\<dots> \<longleftrightarrow> q \<in> A"
      using bits [of q] q gt A(1) by auto
    finally show ?thesis using False by simp
  qed
  show ?thesis
    using A dist gt pA mx mn new by (simp add: acc tracks_def seq_observe_def Let_def add.commute)
qed

lemma min_if: "min p m = (if p < m then p else m)" for p :: int
  by (simp add: min_def)

lemma tracks_behind:
  assumes tr: "tracks t A" and ne: "A \<noteq> {}" and le: "p \<le> Max A" and far: "Max A - p < 2 ^ 31"
    and base: "\<bar>Min A - p\<bar> < 2 ^ 31"
  shows "tracks (snd (seq_observe t (of_int p))) (accept A p)"
proof -
  have A: "finite A" "words_ok (st_words t)" "st_started t" "st_received t = of_nat (card A)"
      "st_highest t = of_int (Max A)" "st_base t = of_int (Min A)"
    and bits: "\<And>q. Max A - 1024 < q \<Longrightarrow> q \<le> Max A \<Longrightarrow> seq_test (st_words t) (of_int q) \<longleftrightarrow> q \<in> A"
    using tr ne by (auto simp: tracks_def)
  have dist: "distance (of_int (Max A)) (of_int p) = p - Max A"
    using le far by (intro distance_of_int) simp_all
  have dbase: "precedes (of_int p) (of_int (Min A)) \<longleftrightarrow> p < Min A"
    using base distance_of_int [of "Min A" p] by (simp add: precedes_def abs_less_iff)
  consider "p \<in> A" "p = Max A" | "p \<le> Max A - 1024" | "p \<in> A" "Max A - 1024 < p" "p < Max A"
    | "p \<notin> A" "Max A - 1024 < p" "p < Max A"
  proof (cases "p = Max A")
    case True
    then show ?thesis using that(1) Max_in [OF A(1) ne] by simp
  next
    case False
    then show ?thesis using that(2,3,4) le by (cases "p \<in> A"; cases "p \<le> Max A - 1024") auto
  qed
  then show ?thesis
  proof cases
    case 1
    then have "accept A p = A" by (auto simp: accept_def)
    then show ?thesis using tr A dist 1 by (simp add: tracks_def seq_observe_def Let_def)
  next
    case 2
    then have "accept A p = A" using ne by (simp add: accept_def)
    moreover have "snd (seq_observe t (of_int p)) = t\<lparr>st_too_old := st_too_old t + 1\<rparr>"
      using 2 A dist by (simp add: seq_observe_def Let_def kWindowSize_def)
    ultimately show ?thesis using tr by (simp add: tracks_def)
  next
    case 3
    then have "accept A p = A" by (auto simp: accept_def)
    moreover have "snd (seq_observe t (of_int p)) = t\<lparr>st_duplicates := st_duplicates t + 1\<rparr>"
      using 3 A dist bits [of p] by (simp add: seq_observe_def Let_def kWindowSize_def)
    ultimately show ?thesis using tr by (simp add: tracks_def)
  next
    case 4
    have acc: "accept A p = insert p A" using 4 by (simp add: accept_def)
    have mx: "Max (insert p A) = Max A" using 4 ne A(1) by simp
    have mn: "Min (insert p A) = (if p < Min A then p else Min A)"
      unfolding Min_insert [OF A(1) ne] by (rule min_if)
    have new: "seq_test (seq_set (st_words t) (of_int p)) (of_int q) \<longleftrightarrow> q = p \<or> q \<in> A"
      if "Max A - 1024 < q" "q \<le> Max A" for q
    proof -
      have "slot (of_int p) = slot (of_int q) \<longleftrightarrow> p = q"
        using that 4 by (intro slot_of_int_near) simp
      then show ?thesis using bits [OF that] A(2) by (auto simp: test_set)
    qed
    have "snd (seq_observe t (of_int p)) = t\<lparr>st_words := seq_set (st_words t) (of_int p),
         st_received := st_received t + 1, st_reordered := st_reordered t + 1,
         st_base := of_int (if p < Min A then p else Min A)\<rparr>"
      using A dist 4 bits [of p] by (simp add: seq_observe_def Let_def kWindowSize_def dbase)
    then show ?thesis using A 4 new mx mn
      by (simp add: acc tracks_def add.commute)
  qed
qed

lemma accept_subset: "A \<subseteq> {L..<U} \<Longrightarrow> p \<in> {L..<U} \<Longrightarrow> accept A p \<subseteq> {L..<U}"
  by (simp add: accept_def)

lemma tracks_step:
  assumes "tracks t A" "A \<subseteq> {L..<L + 2 ^ 31}" "p \<in> {L..<L + 2 ^ 31}"
  shows "tracks (snd (seq_observe t (of_int p))) (accept A p)"
proof (cases "A = {}")
  case True
  then show ?thesis using assms tracks_first by blast
next
  case False
  have "Max A \<in> A" "Min A \<in> A" using False assms(1) by (simp_all add: tracks_def)
  with assms(2) have b: "L \<le> Max A" "Max A < L + 2 ^ 31" "L \<le> Min A" "Min A < L + 2 ^ 31" by auto
  show ?thesis
  proof (cases "Max A < p")
    case True
    then show ?thesis using assms b by (intro tracks_advance [OF assms(1) False]) simp_all
  next
    case nle: False
    then show ?thesis using assms b
      by (intro tracks_behind [OF assms(1) False]) (simp_all add: abs_less_iff)
  qed
qed

lemma tracks_fold:
  assumes "tracks t A" "A \<subseteq> {L..<L + 2 ^ 31}" "set ps \<subseteq> {L..<L + 2 ^ 31}"
  shows "tracks (seq_run t (map of_int ps)) (foldl accept A ps) \<and> foldl accept A ps \<subseteq> {L..<L + 2 ^ 31}"
  using assms
proof (induction ps arbitrary: t A)
  case Nil
  then show ?case by (simp add: seq_run_def)
next
  case (Cons p ps)
  have "tracks (snd (seq_observe t (of_int p))) (accept A p)" "accept A p \<subseteq> {L..<L + 2 ^ 31}"
    using Cons.prems tracks_step [of t A L p] accept_subset [of A L "L + 2 ^ 31" p] by simp_all
  from Cons.IH [OF this] Cons.prems show ?case by (simp add: seq_run_def)
qed

lemma seen_range_card:
  assumes "finite A" "A \<noteq> {}" "A \<subseteq> {L..<L + 2 ^ 31 :: int}"
  shows "int (card A) + int (card ({Min A..Max A} - A)) = Max A - Min A + 1"
    "Max A - Min A + 1 \<le> 2 ^ 31"
proof -
  have sub: "A \<subseteq> {Min A..Max A}" using assms by auto
  have mm: "Min A \<le> Max A" using assms by simp
  have "card ({Min A..Max A} - A) + card A = card {Min A..Max A}"
    using card_Diff_subset [OF assms(1) sub] card_mono [OF _ sub] by simp
  then show "int (card A) + int (card ({Min A..Max A} - A)) = Max A - Min A + 1"
    using mm by simp
  have "Max A \<in> A" "Min A \<in> A" using assms by auto
  then have "Max A < L + 2 ^ 31" "L \<le> Min A" using assms(3) by auto
  then show "Max A - Min A + 1 \<le> 2 ^ 31" by simp
qed

lemma unat_count: "int n \<le> 2 ^ 31 \<Longrightarrow> unat (of_nat n :: u64) = n"
  by (rule unat_of_nat_small) simp

lemma seq_lost_sum:
  assumes "seq_expected t = of_nat (a + m)" "st_received t = of_nat a" "int (a + m) \<le> 2 ^ 31"
  shows "seq_lost t = of_nat m"
proof -
  have "unat (of_nat (a + m) :: u64) = a + m" "unat (of_nat a :: u64) = a"
    using assms(3) by (simp_all add: unat_count del: of_nat_add)
  then have "(of_nat a < (of_nat (a + m) :: u64)) \<longleftrightarrow> 0 < m"
    by (simp only: word_less_nat_alt) simp
  then show ?thesis by (cases "m = 0") (simp_all add: seq_lost_def assms)
qed

lemma tracks_counts:
  assumes "tracks t A" "A \<subseteq> {L..<L + 2 ^ 31}" "A \<noteq> {}"
  shows "unat (seq_expected t) = card {Min A..Max A}" "unat (st_received t) = card A"
    "unat (seq_lost t) = card ({Min A..Max A} - A)"
proof -
  have fin: "finite A" using assms by (simp add: tracks_def)
  note r = seen_range_card [OF fin assms(3,2)]
  have mm: "Min A \<le> Max A" using fin assms(3) by simp
  have "Max A - Min A < 2 ^ 31" using r(2) by linarith
  then have d: "distance (st_base t) (st_highest t) = Max A - Min A"
    using assms(1,3) distance_forward [OF mm] by (simp add: tracks_def)
  have "\<not> distance (st_base t) (st_highest t) < 0" using d mm by linarith
  then have "seq_expected t = of_int (distance (st_base t) (st_highest t)) + 1"
    using assms(1,3) by (simp add: seq_expected_def tracks_def)
  then have "seq_expected t = of_int (Max A - Min A + 1)" by (simp only: d of_int_add of_int_1)
  then have e: "seq_expected t = of_nat (card A + card ({Min A..Max A} - A))"
    using r(1) by (metis of_int_of_nat_eq of_nat_add)
  have b: "int (card A + card ({Min A..Max A} - A)) \<le> 2 ^ 31" using r by linarith
  have rc: "st_received t = of_nat (card A)" using assms(1) by (simp add: tracks_def)
  have c: "card A + card ({Min A..Max A} - A) = card {Min A..Max A}"
    using r(1) mm by simp
  show "unat (seq_expected t) = card {Min A..Max A}" using unat_count [OF b] by (simp only: e c)
  have "int (card A) \<le> 2 ^ 31" "int (card ({Min A..Max A} - A)) \<le> 2 ^ 31" using b by linarith+
  then show "unat (st_received t) = card A" "unat (seq_lost t) = card ({Min A..Max A} - A)"
    by (simp_all only: rc seq_lost_sum [OF e rc b] unat_count)
qed

section \<open>Runs\<close>

interpretation seqm: invariant_machine "\<lambda>t s. snd (seq_observe t s)" seq_inv
  by unfold_locales (rule seq_inv_observe)

interpretation seqa: accounting_machine "\<lambda>t s. snd (seq_observe t s)" seq_inv seq_events "\<lambda>_. 1"
  by unfold_locales (auto simp: seq_observe_def seq_events_def seq_inv_def Let_def)

section \<open>Properties\<close>

text \<open>
  C1. The circular bitmap refines a sliding window of sequence numbers: after any run, one
  observation returns the verdict of the abstract set and leaves the bitmap of the abstract
  set's successor.
\<close>

theorem seq_tracker_refines_window:
  "window_observe (seq_window (seq_run seq_init qs)) s =
     (fst (seq_observe (seq_run seq_init qs) s),
      seq_window (snd (seq_observe (seq_run seq_init qs) s)))"
  unfolding seq_run_def by (rule seq_observe_refines, rule seqm.run_inv, rule seq_inv_init)



text \<open>
  Every datagram is counted exactly once: received, duplicate or too old (counters at 64 bits).
\<close>

theorem seq_events_conserved: "seq_events (seq_run seq_init qs) = of_nat (length qs)"
  using seqa.run_total [OF seq_inv_init, of qs]
  by (simp add: seq_run_def sum_list_triv seq_events_def seq_init_def)

text \<open>
  Beyond half of the sequence space the span is lost: after three forward jumps the distance
  from the baseline to the high-water mark is negative, the branch the code calls unreachable,
  and \<open>expected()\<close> is 0 although three datagrams were received.
\<close>

theorem seq_expected_wraps:
  "let t = seq_run seq_init [0, 0x7FFFFFFF, 0xFFFFFFFE] in
     distance (st_base t) (st_highest t) = -2 \<and> seq_expected t = 0 \<and> st_received t = 3"
proof -
  have d: "distance 0 0x7FFFFFFF = 0x7FFFFFFF" "distance 0x7FFFFFFF 0xFFFFFFFE = 0x7FFFFFFF"
    "distance 0 0xFFFFFFFE = -2"
    by (simp_all add: distance_def)
  show ?thesis
    by (simp add: seq_run_def seq_init_def seq_observe_def d Let_def seq_expected_def)
qed

end
