(* ===== verification/Clock.thy ===== *)
theory Clock
  imports Prelude
begin

text \<open>
  Media time (core/include/radio/clock.hpp, core/src/time/clock.cpp): the 48 kHz constants, the
  integer conversions between microseconds and samples with their 64-bit wrap-around, and the
  reading of the monotonic clock, whose \<open>clock_gettime\<close> result is an argument.
\<close>

section \<open>Definitions\<close>

definition kSampleRateHz :: u32 where "kSampleRateHz = 48000"
definition kFrameMs :: u32 where "kFrameMs = 20"
definition kFrameSamples :: u32 where "kFrameSamples = kSampleRateHz div 1000 * kFrameMs"

definition us_to_samples :: "micros \<Rightarrow> u64" where
  "us_to_samples us = us * 48 div 1000"

definition samples_to_us :: "u64 \<Rightarrow> micros" where
  "samples_to_us samples = samples * 1000 div 48"

text \<open>\<open>now_ns\<close> on the \<open>timespec\<close> that \<open>clock_gettime\<close> filled in.\<close>

definition now_ns :: "u64 \<times> u64 \<Rightarrow> u64" where
  "now_ns = (\<lambda>(tv_sec, tv_nsec). tv_sec * 1000000000 + tv_nsec)"

definition now_us :: "u64 \<times> u64 \<Rightarrow> micros" where
  "now_us ts = now_ns ts div 1000"

section \<open>Conversions without overflow\<close>

lemma kFrameSamples_960: "kFrameSamples = 960"
  by (simp add: kFrameSamples_def kSampleRateHz_def kFrameMs_def)

lemma unat_mult_small: "unat x * n < 2 ^ LENGTH('a) \<Longrightarrow> unat (x * of_nat n) = unat x * n"
  for x :: "'a::len word"
proof (cases "unat x = 0")
  case False
  moreover assume *: "unat x * n < 2 ^ LENGTH('a)"
  ultimately have "n < 2 ^ LENGTH('a)"
    by (metis mult_le_mono1 less_one linorder_not_less mult_1 order_le_less_trans)
  with * show ?thesis by (simp add: unat_word_ariths unat_of_nat_small)
qed (simp add: unat_eq_zero)

lemma unat_us_to_samples:
  "unat us * 48 < 2 ^ 64 \<Longrightarrow> unat (us_to_samples us) = unat us * 48 div 1000"
  using unat_mult_small [of us 48] by (simp add: us_to_samples_def unat_div)

lemma unat_samples_to_us:
  "unat n * 1000 < 2 ^ 64 \<Longrightarrow> unat (samples_to_us n) = unat n * 1000 div 48"
  using unat_mult_small [of n 1000] by (simp add: samples_to_us_def unat_div)

lemma samples_to_us_mono:
  "a \<le> b \<Longrightarrow> unat b * 1000 < 2 ^ 64 \<Longrightarrow> samples_to_us a \<le> samples_to_us b"
proof -
  assume a: "a \<le> b" "unat b * 1000 < 2 ^ 64"
  then have le: "unat a * 1000 \<le> unat b * 1000" by (simp add: word_le_nat_alt)
  have "unat a * 1000 < 2 ^ 64" by (rule order_le_less_trans [OF le a(2)])
  then show ?thesis using a le by (simp only: word_le_nat_alt unat_samples_to_us div_le_mono)
qed

lemma div_roundtrip: "n - 1 \<le> n * 1000 div 48 * 48 div 1000 \<and> n * 1000 div 48 * 48 div 1000 \<le> (n::nat)"
proof -
  have eq: "n * 1000 div 48 * 48 + n * 1000 mod 48 = n * 1000"
    by (rule div_mult_mod_eq)
  have "n * 1000 div 48 * 48 div 1000 \<le> n * 1000 div 1000"
    by (rule div_le_mono) (use eq in linarith)
  moreover have "n - 1 \<le> n * 1000 div 48 * 48 div 1000"
  proof (rule ccontr)
    assume "\<not> n - 1 \<le> n * 1000 div 48 * 48 div 1000"
    then have "n * 1000 div 48 * 48 div 1000 < n - 1" by simp
    then have "n * 1000 div 48 * 48 < (n - 1) * 1000"
      by (simp add: div_less_iff_less_mult)
    moreover have "n * 1000 mod 48 < 48" by simp
    ultimately show False using eq by (cases n) simp_all
  qed
  ultimately show ?thesis by simp
qed

text \<open>
  Samples survive the round trip through microseconds to within one sample, and no
  conversion wraps, for anything under \<open>2^64 / 1000\<close> samples.
\<close>

theorem samples_us_roundtrip:
  assumes "unat n * 1000 < 2 ^ 64"
  shows "unat n - 1 \<le> unat (us_to_samples (samples_to_us n)) \<and>
    unat (us_to_samples (samples_to_us n)) \<le> unat n"
proof -
  note u = unat_samples_to_us [OF assms]
  have "unat n * 1000 div 48 * 48 \<le> unat n * 1000" by simp
  then have "unat (samples_to_us n) * 48 < 2 ^ 64" using assms u by linarith
  then show ?thesis using div_roundtrip [of "unat n"] by (simp only: unat_us_to_samples u)
qed

theorem samples_us_roundtrip_witness:
  "959 \<le> unat (us_to_samples (samples_to_us 960)) \<and> unat (us_to_samples (samples_to_us 960)) \<le> 960"
  using samples_us_roundtrip [of 960] by simp

end
