(* ===== verification/Opus_Codec.thy ===== *)
theory Opus_Codec
  imports Clock
begin

text \<open>
  The Opus wrappers (core/include/radio/opus_codec.hpp, core/src/audio/opus_codec.cpp). The Opus
  library itself is not part of the repository: its entry points and error codes are the fields
  of the record \<open>opus\<close>, an argument of every definition that calls it, and \<open>opus_contract\<close> states
  what its documentation promises. The theory proves that an encoder or decoder is open only
  with a configuration that passed every check, that calls never write outside the caller's
  buffers, and which error each refusal reports.
\<close>

section \<open>The library as a parameter\<close>

type_synonym pcm = "16 word list"

datatype enc_ctl =
    CtlSignalVoice | CtlBitrate int | CtlVbr int | CtlComplexity int
  | CtlInbandFec int | CtlPacketLossPerc int | CtlDtx int

datatype enc_get = GetBitrate | GetInbandFec | GetPacketLossPerc

text \<open>\<open>op_channels\<close> is what the library knows of a decoder and the wrappers do not read.\<close>

record ('e, 'd) opus =
  op_bad_arg :: int
  op_buffer_too_small :: int
  op_internal_error :: int
  op_invalid_state :: int
  op_enc_create :: "int \<Rightarrow> int \<Rightarrow> 'e option \<times> int"
  op_enc_ctl :: "'e \<Rightarrow> enc_ctl \<Rightarrow> int \<times> 'e"
  op_enc_get :: "'e \<Rightarrow> enc_get \<Rightarrow> int \<times> int"
  op_encode :: "'e \<Rightarrow> pcm \<Rightarrow> int \<Rightarrow> int \<Rightarrow> int \<times> bytes \<times> 'e"
  op_dec_create :: "int \<Rightarrow> int \<Rightarrow> 'd option \<times> int"
  op_decode :: "'d \<Rightarrow> bytes option \<Rightarrow> int \<Rightarrow> int \<Rightarrow> int \<Rightarrow> int \<times> pcm \<times> 'd"
  op_dec_reset :: "'d \<Rightarrow> int \<times> 'd"
  op_has_lbrr :: "bytes \<Rightarrow> int \<Rightarrow> int"
  op_nb_samples :: "bytes \<Rightarrow> int \<Rightarrow> int \<Rightarrow> int"
  op_channels :: "'d \<Rightarrow> int"

definition opus_ok_code :: int where "opus_ok_code = 0"

text \<open>
  The documented behaviour: error codes are negative; \<open>opus_encode\<close> writes the number of bytes it
  returns and at most the space it was given; \<open>opus_decode\<close> returns at most \<open>frame_size\<close> samples
  per channel and writes exactly the samples it returns, none on an error.
\<close>

definition decode_contract :: "('e, 'd) opus \<Rightarrow> 'd \<Rightarrow> bytes option \<Rightarrow> int \<Rightarrow> int \<Rightarrow> int \<Rightarrow> bool" where
  "decode_contract lib d data len fs fec \<longleftrightarrow>
     (case op_decode lib d data len fs fec of (n, x, d') \<Rightarrow>
        op_channels lib d' = op_channels lib d \<and>
        (if n < 0 then x = [] else n \<le> fs \<and> length x = nat (n * op_channels lib d)))"

definition opus_contract :: "('e, 'd) opus \<Rightarrow> bool" where
  "opus_contract lib \<longleftrightarrow>
     op_bad_arg lib < 0 \<and> op_buffer_too_small lib < 0 \<and> op_internal_error lib < 0 \<and>
     op_invalid_state lib < 0 \<and>
     (\<forall>e x fs space. case op_encode lib e x fs space of (n, bs, e') \<Rightarrow>
        if n < 0 then bs = [] else length bs = nat n \<and> n \<le> space) \<and>
     (\<forall>d data len fs fec. decode_contract lib d data len fs fec) \<and>
     (\<forall>d. op_channels lib (snd (op_dec_reset lib d)) = op_channels lib d) \<and>
     (\<forall>rate ch d err. op_dec_create lib rate ch = (Some d, err) \<longrightarrow> op_channels lib d = ch)"

lemma opus_create_channels:
  "opus_contract lib \<Longrightarrow> op_dec_create lib rate ch = (Some st, err) \<Longrightarrow> op_channels lib st = ch"
  unfolding opus_contract_def by blast

lemma opus_reset_channels:
  "opus_contract lib \<Longrightarrow> op_dec_reset lib st = (rc, st') \<Longrightarrow> op_channels lib st' = op_channels lib st"
  unfolding opus_contract_def by (metis snd_conv)

lemma opus_decodeD:
  assumes "opus_contract lib" "op_decode lib st data len fs fec = (k, smp, st')"
  shows "op_channels lib st' = op_channels lib st"
    "k < 0 \<Longrightarrow> smp = []" "0 \<le> k \<Longrightarrow> k \<le> fs \<and> length smp = nat (k * op_channels lib st)"
proof -
  have "decode_contract lib st data len fs fec" using assms(1) unfolding opus_contract_def by blast
  then show "op_channels lib st' = op_channels lib st"
    "k < 0 \<Longrightarrow> smp = []" "0 \<le> k \<Longrightarrow> k \<le> fs \<and> length smp = nat (k * op_channels lib st)"
    by (simp_all add: decode_contract_def assms(2))
qed

section \<open>Frame sizes\<close>

definition kValidFrameTenthsMs :: "nat list" where
  "kValidFrameTenthsMs = [25, 50, 100, 200, 400, 600]"

definition frame_of_tenths :: "u32 \<Rightarrow> nat \<Rightarrow> u64" where
  "frame_of_tenths rate tenths = ucast rate * of_nat tenths div 10000"

definition is_valid_frame_samples :: "u32 \<Rightarrow> u32 \<Rightarrow> bool" where
  "is_valid_frame_samples rate samples =
     (if rate = 0 \<or> samples = 0 then False
      else list_ex (\<lambda>tenths. frame_of_tenths rate tenths = ucast samples) kValidFrameTenthsMs)"

section \<open>Encoder\<close>

record encoder_config =
  ec_sample_rate_hz :: u32
  ec_channels :: int
  ec_frame_samples :: u32
  ec_bitrate_bps :: int
  ec_complexity :: int
  ec_inband_fec :: bool
  ec_expected_loss_percent :: int
  ec_dtx :: bool
  ec_vbr :: bool

definition default_encoder_config :: encoder_config where
  "default_encoder_config = \<lparr>ec_sample_rate_hz = kSampleRateHz, ec_channels = 1,
     ec_frame_samples = kFrameSamples, ec_bitrate_bps = 32000, ec_complexity = 5,
     ec_inband_fec = False, ec_expected_loss_percent = 0, ec_dtx = False, ec_vbr = True\<rparr>"

record 'e encoder =
  enc_state :: "'e option"
  enc_config :: encoder_config
  enc_last_error :: int

definition encoder_init :: "'e encoder" where
  "encoder_init = \<lparr>enc_state = None, enc_config = default_encoder_config, enc_last_error = 0\<rparr>"

record encode_result =
  er_bytes :: nat
  er_dtx_skipped :: bool
  er_error :: int

definition encode_result_ok :: "encode_result \<Rightarrow> bool" where
  "encode_result_ok r \<longleftrightarrow> er_error r = 0"

definition encoder_close :: "'e encoder \<Rightarrow> 'e encoder" where
  "encoder_close e = e\<lparr>enc_state := None\<rparr>"

definition encoder_is_open :: "'e encoder \<Rightarrow> bool" where
  "encoder_is_open e \<longleftrightarrow> enc_state e \<noteq> None"

definition apply_ctls :: "('e, 'd) opus \<Rightarrow> 'e \<Rightarrow> enc_ctl list \<Rightarrow> 'e" where
  "apply_ctls lib = foldl (\<lambda>st ctl. snd (op_enc_ctl lib st ctl))"

definition flag :: "bool \<Rightarrow> int" where "flag b = (if b then 1 else 0)"

definition encoder_open :: "('e, 'd) opus \<Rightarrow> 'e encoder \<Rightarrow> encoder_config \<Rightarrow> bool \<times> 'e encoder" where
  "encoder_open lib e0 config =
     (let e = encoder_close e0; refuse = (False, e\<lparr>enc_last_error := op_bad_arg lib\<rparr>) in
      if ec_channels config \<noteq> 1 \<and> ec_channels config \<noteq> 2 then refuse
      else if \<not> is_valid_frame_samples (ec_sample_rate_hz config) (ec_frame_samples config) then refuse
      else if ec_inband_fec config \<and> ec_expected_loss_percent config \<le> 0 then refuse
      else if ec_expected_loss_percent config < 0 \<or> ec_expected_loss_percent config > 100 then refuse
      else if ec_complexity config < 0 \<or> ec_complexity config > 10 then refuse
      else
        case op_enc_create lib (sint (ec_sample_rate_hz config)) (ec_channels config) of
          (Some st, error) \<Rightarrow>
            if error \<noteq> opus_ok_code then (False, encoder_close (e\<lparr>enc_last_error := error\<rparr>))
            else
              (True, e\<lparr>enc_state := Some (apply_ctls lib st
                         [CtlSignalVoice, CtlBitrate (ec_bitrate_bps config),
                          CtlVbr (flag (ec_vbr config)), CtlComplexity (ec_complexity config),
                          CtlInbandFec (flag (ec_inband_fec config)),
                          CtlPacketLossPerc (ec_expected_loss_percent config),
                          CtlDtx (flag (ec_dtx config))]),
                       enc_config := config, enc_last_error := opus_ok_code\<rparr>)
        | (None, error) \<Rightarrow>
            (False, encoder_close (e\<lparr>enc_last_error :=
               (if error \<noteq> opus_ok_code then error else op_internal_error lib)\<rparr>)))"

definition encoder_encode ::
  "('e, 'd) opus \<Rightarrow> 'e encoder \<Rightarrow> pcm \<Rightarrow> bytes \<Rightarrow> encode_result \<times> bytes \<times> 'e encoder" where
  "encoder_encode lib e x out =
     (let fail = (\<lambda>err. \<lparr>er_bytes = 0, er_dtx_skipped = False, er_error = err\<rparr>) in
      case enc_state e of
        None \<Rightarrow> (fail (op_invalid_state lib), out, e)
      | Some st \<Rightarrow>
          let expected = ucast (ec_frame_samples (enc_config e)) * of_int (ec_channels (enc_config e)) :: u64 in
          if length x \<noteq> unat expected then (fail (op_bad_arg lib), out, e)
          else if out = [] then (fail (op_buffer_too_small lib), out, e)
          else
            case op_encode lib st x (sint (ec_frame_samples (enc_config e)))
                   (sint (of_nat (length out) :: u32)) of
              (written, bs, st') \<Rightarrow>
                let out' = bs @ drop (length bs) out; e' = e\<lparr>enc_state := Some st'\<rparr> in
                if written < 0 then (fail written, out', e'\<lparr>enc_last_error := written\<rparr>)
                else (\<lparr>er_bytes = nat written,
                       er_dtx_skipped = (ec_dtx (enc_config e) \<and> written \<le> 1), er_error = 0\<rparr>,
                      out', e'))"

text \<open>The four run-time setters share one shape: a guard, one control request, one field.\<close>

definition encoder_ctl ::
  "('e, 'd) opus \<Rightarrow> 'e encoder \<Rightarrow> bool \<Rightarrow> enc_ctl \<Rightarrow> (encoder_config \<Rightarrow> encoder_config) \<Rightarrow> bool \<times> 'e encoder"
  where
  "encoder_ctl lib e valid ctl upd =
     (case enc_state e of
        None \<Rightarrow> (False, e)
      | Some st \<Rightarrow>
          if \<not> valid then (False, e)
          else
            case op_enc_ctl lib st ctl of (rc, st') \<Rightarrow>
              let e' = e\<lparr>enc_state := Some st'\<rparr> in
              if rc \<noteq> opus_ok_code then (False, e'\<lparr>enc_last_error := rc\<rparr>)
              else (True, e'\<lparr>enc_config := upd (enc_config e)\<rparr>))"

definition encoder_set_bitrate :: "('e, 'd) opus \<Rightarrow> 'e encoder \<Rightarrow> int \<Rightarrow> bool \<times> 'e encoder" where
  "encoder_set_bitrate lib e bps =
     encoder_ctl lib e True (CtlBitrate bps) (\<lambda>c. c\<lparr>ec_bitrate_bps := bps\<rparr>)"

definition encoder_set_expected_loss_percent :: "('e, 'd) opus \<Rightarrow> 'e encoder \<Rightarrow> int \<Rightarrow> bool \<times> 'e encoder"
  where
  "encoder_set_expected_loss_percent lib e percent =
     encoder_ctl lib e (\<not> (percent < 0 \<or> percent > 100)) (CtlPacketLossPerc percent)
       (\<lambda>c. c\<lparr>ec_expected_loss_percent := percent\<rparr>)"

definition encoder_set_inband_fec :: "('e, 'd) opus \<Rightarrow> 'e encoder \<Rightarrow> bool \<Rightarrow> bool \<times> 'e encoder" where
  "encoder_set_inband_fec lib e enabled =
     encoder_ctl lib e True (CtlInbandFec (flag enabled)) (\<lambda>c. c\<lparr>ec_inband_fec := enabled\<rparr>)"

definition encoder_set_complexity :: "('e, 'd) opus \<Rightarrow> 'e encoder \<Rightarrow> int \<Rightarrow> bool \<times> 'e encoder" where
  "encoder_set_complexity lib e complexity =
     encoder_ctl lib e (\<not> (complexity < 0 \<or> complexity > 10)) (CtlComplexity complexity)
       (\<lambda>c. c\<lparr>ec_complexity := complexity\<rparr>)"

definition encoder_query :: "('e, 'd) opus \<Rightarrow> 'e encoder \<Rightarrow> enc_get \<Rightarrow> int" where
  "encoder_query lib e what =
     (case enc_state e of
        None \<Rightarrow> 0
      | Some st \<Rightarrow> (case op_enc_get lib st what of (rc, value) \<Rightarrow> if rc \<noteq> opus_ok_code then 0 else value))"

definition encoder_query_bitrate_bps :: "('e, 'd) opus \<Rightarrow> 'e encoder \<Rightarrow> int" where
  "encoder_query_bitrate_bps lib e = encoder_query lib e GetBitrate"

definition encoder_query_inband_fec :: "('e, 'd) opus \<Rightarrow> 'e encoder \<Rightarrow> bool" where
  "encoder_query_inband_fec lib e \<longleftrightarrow> encoder_query lib e GetInbandFec \<noteq> 0"

definition encoder_query_expected_loss_percent :: "('e, 'd) opus \<Rightarrow> 'e encoder \<Rightarrow> int" where
  "encoder_query_expected_loss_percent lib e = encoder_query lib e GetPacketLossPerc"

section \<open>Decoder\<close>

record decoder_config =
  dc_sample_rate_hz :: u32
  dc_channels :: int
  dc_frame_samples :: u32

definition default_decoder_config :: decoder_config where
  "default_decoder_config =
     \<lparr>dc_sample_rate_hz = kSampleRateHz, dc_channels = 1, dc_frame_samples = kFrameSamples\<rparr>"

record 'd decoder =
  dec_state :: "'d option"
  dec_config :: decoder_config
  dec_last_error :: int

definition decoder_init :: "'d decoder" where
  "decoder_init = \<lparr>dec_state = None, dec_config = default_decoder_config, dec_last_error = 0\<rparr>"

datatype dec_source = DecPacket | DecConcealment | DecForwardCorrection

fun dec_source_to_string :: "dec_source \<Rightarrow> string" where
  "dec_source_to_string DecPacket = ''packet''"
| "dec_source_to_string DecConcealment = ''concealment''"
| "dec_source_to_string DecForwardCorrection = ''forward_correction''"

record decode_result =
  dr_samples :: u64
  dr_source :: dec_source
  dr_error :: int

definition decode_result_ok :: "decode_result \<Rightarrow> bool" where
  "decode_result_ok r \<longleftrightarrow> dr_error r = 0"

definition decoder_close :: "'d decoder \<Rightarrow> 'd decoder" where
  "decoder_close d = d\<lparr>dec_state := None\<rparr>"

definition decoder_is_open :: "'d decoder \<Rightarrow> bool" where
  "decoder_is_open d \<longleftrightarrow> dec_state d \<noteq> None"

definition decoder_open :: "('e, 'd) opus \<Rightarrow> 'd decoder \<Rightarrow> decoder_config \<Rightarrow> bool \<times> 'd decoder" where
  "decoder_open lib d0 config =
     (let d = decoder_close d0; refuse = (False, d\<lparr>dec_last_error := op_bad_arg lib\<rparr>) in
      if dc_channels config \<noteq> 1 \<and> dc_channels config \<noteq> 2 then refuse
      else if \<not> is_valid_frame_samples (dc_sample_rate_hz config) (dc_frame_samples config) then refuse
      else
        case op_dec_create lib (sint (dc_sample_rate_hz config)) (dc_channels config) of
          (Some st, error) \<Rightarrow>
            if error \<noteq> opus_ok_code then (False, decoder_close (d\<lparr>dec_last_error := error\<rparr>))
            else (True, d\<lparr>dec_state := Some st, dec_config := config, dec_last_error := opus_ok_code\<rparr>)
        | (None, error) \<Rightarrow>
            (False, decoder_close (d\<lparr>dec_last_error :=
               (if error \<noteq> opus_ok_code then error else op_internal_error lib)\<rparr>)))"

definition dec_needed :: "decoder_config \<Rightarrow> u64" where
  "dec_needed config = ucast (dc_frame_samples config) * of_int (dc_channels config)"

definition run_decode ::
  "('e, 'd) opus \<Rightarrow> 'd decoder \<Rightarrow> bytes option \<Rightarrow> int \<Rightarrow> pcm \<Rightarrow> int \<Rightarrow> dec_source
   \<Rightarrow> decode_result \<times> pcm \<times> 'd decoder" where
  "run_decode lib d data len x use_fec source =
     (let fail = (\<lambda>err. \<lparr>dr_samples = 0, dr_source = source, dr_error = err\<rparr>) in
      case dec_state d of
        None \<Rightarrow> (fail (op_invalid_state lib), x, d)
      | Some st \<Rightarrow>
          if length x < unat (dec_needed (dec_config d)) then (fail (op_buffer_too_small lib), x, d)
          else
            case op_decode lib st data len (sint (dc_frame_samples (dec_config d))) use_fec of
              (decoded, samples, st') \<Rightarrow>
                let x' = samples @ drop (length samples) x; d' = d\<lparr>dec_state := Some st'\<rparr> in
                if decoded < 0 then (fail decoded, x', d'\<lparr>dec_last_error := decoded\<rparr>)
                else (\<lparr>dr_samples = of_int decoded * of_int (dc_channels (dec_config d)),
                       dr_source = source, dr_error = 0\<rparr>, x', d'))"

definition int32_size :: "bytes \<Rightarrow> int" where
  "int32_size p = sint (of_nat (length p) :: u32)"

definition decoder_decode ::
  "('e, 'd) opus \<Rightarrow> 'd decoder \<Rightarrow> bytes \<Rightarrow> pcm \<Rightarrow> decode_result \<times> pcm \<times> 'd decoder" where
  "decoder_decode lib d packet x =
     (if packet = [] then (\<lparr>dr_samples = 0, dr_source = DecPacket, dr_error = op_bad_arg lib\<rparr>, x, d)
      else run_decode lib d (Some packet) (int32_size packet) x 0 DecPacket)"

definition decoder_conceal :: "('e, 'd) opus \<Rightarrow> 'd decoder \<Rightarrow> pcm \<Rightarrow> decode_result \<times> pcm \<times> 'd decoder" where
  "decoder_conceal lib d x = run_decode lib d None 0 x 0 DecConcealment"

definition decoder_recover_previous ::
  "('e, 'd) opus \<Rightarrow> 'd decoder \<Rightarrow> bytes \<Rightarrow> pcm \<Rightarrow> decode_result \<times> pcm \<times> 'd decoder" where
  "decoder_recover_previous lib d next_packet x =
     (if next_packet = []
      then (\<lparr>dr_samples = 0, dr_source = DecForwardCorrection, dr_error = op_bad_arg lib\<rparr>, x, d)
      else run_decode lib d (Some next_packet) (int32_size next_packet) x 1 DecForwardCorrection)"

definition decoder_reset_state :: "('e, 'd) opus \<Rightarrow> 'd decoder \<Rightarrow> bool \<times> 'd decoder" where
  "decoder_reset_state lib d =
     (case dec_state d of
        None \<Rightarrow> (False, d)
      | Some st \<Rightarrow>
          (case op_dec_reset lib st of (rc, st') \<Rightarrow>
             let d' = d\<lparr>dec_state := Some st'\<rparr> in
             if rc \<noteq> opus_ok_code then (False, d'\<lparr>dec_last_error := rc\<rparr>) else (True, d')))"

definition packet_has_redundancy :: "('e, 'd) opus \<Rightarrow> bytes \<Rightarrow> bool" where
  "packet_has_redundancy lib packet =
     (if packet = [] then False else op_has_lbrr lib packet (int32_size packet) = 1)"

definition packet_samples :: "('e, 'd) opus \<Rightarrow> bytes \<Rightarrow> u32 \<Rightarrow> nat" where
  "packet_samples lib packet rate =
     (if packet = [] then 0
      else let samples = op_nb_samples lib packet (int32_size packet) (sint rate) in
        if samples > 0 then nat samples else 0)"

section \<open>Ownership of the handles\<close>

text \<open>Move construction returns the new object and what is left of the old one; move assignment
  first releases the handle of the target.\<close>

definition encoder_move :: "'e encoder \<Rightarrow> 'e encoder \<times> 'e encoder" where
  "encoder_move other = (other, other\<lparr>enc_state := None\<rparr>)"

definition encoder_move_assign :: "'e encoder \<Rightarrow> 'e encoder \<Rightarrow> 'e encoder \<times> 'e encoder" where
  "encoder_move_assign this other =
     (let this = encoder_close this in
      (this\<lparr>enc_state := enc_state other, enc_config := enc_config other,
            enc_last_error := enc_last_error other\<rparr>, other\<lparr>enc_state := None\<rparr>))"

definition decoder_move :: "'d decoder \<Rightarrow> 'd decoder \<times> 'd decoder" where
  "decoder_move other = (other, other\<lparr>dec_state := None\<rparr>)"

definition decoder_move_assign :: "'d decoder \<Rightarrow> 'd decoder \<Rightarrow> 'd decoder \<times> 'd decoder" where
  "decoder_move_assign this other =
     (let this = decoder_close this in
      (this\<lparr>dec_state := dec_state other, dec_config := dec_config other,
            dec_last_error := dec_last_error other\<rparr>, other\<lparr>dec_state := None\<rparr>))"

section \<open>Valid configurations\<close>

lemma frame_of_tenths_less: "t \<le> 600 \<Longrightarrow> unat (frame_of_tenths rate t) < 2 ^ 31"
proof -
  assume t: "t \<le> 600"
  have r: "unat rate < 4294967296" by (rule unat_u32)
  then have le: "unat rate * t \<le> 4294967295 * 600" using t by (intro mult_le_mono) simp_all
  have "unat (ucast rate :: u64) = unat rate"
    by (rule unat_widen_32)
  moreover have "unat rate * t < 2 ^ 64" using le by simp
  ultimately have "unat (frame_of_tenths rate t) = unat rate * t div 10000"
    using unat_mult_small [of "ucast rate :: u64" t] by (simp add: frame_of_tenths_def unat_div)
  also have "\<dots> \<le> 4294967295 * 600 div 10000" using le by (rule div_le_mono)
  finally show ?thesis by simp
qed

lemma valid_frame_samples:
  assumes "is_valid_frame_samples rate fs"
  shows "0 < unat fs" "unat fs < 2 ^ 31" "rate \<noteq> 0"
proof -
  show "0 < unat fs" "rate \<noteq> 0"
    using assms by (auto simp: is_valid_frame_samples_def unat_gt_0 split: if_splits)
  have "\<exists>t \<in> set kValidFrameTenthsMs. frame_of_tenths rate t = ucast fs"
    using assms by (auto simp: is_valid_frame_samples_def list_ex_iff split: if_splits)
  moreover have "\<forall>t \<in> set kValidFrameTenthsMs. t \<le> 600" by (simp add: kValidFrameTenthsMs_def)
  ultimately obtain t where "t \<le> 600" "frame_of_tenths rate t = ucast fs" by blast
  then have "unat (ucast fs :: u64) < 2 ^ 31" using frame_of_tenths_less by metis
  then show "unat fs < 2 ^ 31" by (simp add: unat_widen_32)
qed

definition enc_valid :: "encoder_config \<Rightarrow> bool" where
  "enc_valid c \<longleftrightarrow> ec_channels c \<in> {1, 2} \<and>
     is_valid_frame_samples (ec_sample_rate_hz c) (ec_frame_samples c) \<and>
     0 \<le> ec_expected_loss_percent c \<and> ec_expected_loss_percent c \<le> 100 \<and>
     0 \<le> ec_complexity c \<and> ec_complexity c \<le> 10"

definition enc_fec_effective :: "encoder_config \<Rightarrow> bool" where
  "enc_fec_effective c \<longleftrightarrow> (ec_inband_fec c \<longrightarrow> 0 < ec_expected_loss_percent c)"

definition dec_valid :: "decoder_config \<Rightarrow> bool" where
  "dec_valid c \<longleftrightarrow> dc_channels c \<in> {1, 2} \<and>
     is_valid_frame_samples (dc_sample_rate_hz c) (dc_frame_samples c)"

definition enc_inv :: "'e encoder \<Rightarrow> bool" where
  "enc_inv e \<longleftrightarrow> (encoder_is_open e \<longrightarrow> enc_valid (enc_config e))"

definition dec_inv :: "('e, 'd) opus \<Rightarrow> 'd decoder \<Rightarrow> bool" where
  "dec_inv lib d \<longleftrightarrow> (case dec_state d of
     None \<Rightarrow> True
   | Some st \<Rightarrow> dec_valid (dec_config d) \<and> op_channels lib st = dc_channels (dec_config d))"

lemma encoder_open_effect:
  "encoder_open lib e c = (ok, e') \<Longrightarrow>
   (ok \<longleftrightarrow> encoder_is_open e') \<and>
   (ok \<longrightarrow> enc_valid c \<and> enc_fec_effective c \<and> enc_config e' = c \<and> enc_last_error e' = 0)"
  by (auto simp: encoder_open_def encoder_close_def encoder_is_open_def enc_valid_def
      enc_fec_effective_def opus_ok_code_def Let_def split: if_splits prod.splits option.splits)

lemma encoder_open_refused:
  "\<not> (enc_valid c \<and> enc_fec_effective c) \<Longrightarrow>
   encoder_open lib e c = (False, e\<lparr>enc_state := None, enc_last_error := op_bad_arg lib\<rparr>)"
  by (auto simp: encoder_open_def encoder_close_def enc_valid_def enc_fec_effective_def Let_def)

datatype enc_event =
    EncOpen encoder_config | EncClose | EncEncode pcm bytes | EncSetBitrate int
  | EncSetLoss int | EncSetFec bool | EncSetComplexity int

fun enc_step :: "('e, 'd) opus \<Rightarrow> 'e encoder \<Rightarrow> enc_event \<Rightarrow> 'e encoder" where
  "enc_step lib e (EncOpen c) = snd (encoder_open lib e c)"
| "enc_step lib e EncClose = encoder_close e"
| "enc_step lib e (EncEncode x out) = snd (snd (encoder_encode lib e x out))"
| "enc_step lib e (EncSetBitrate b) = snd (encoder_set_bitrate lib e b)"
| "enc_step lib e (EncSetLoss p) = snd (encoder_set_expected_loss_percent lib e p)"
| "enc_step lib e (EncSetFec b) = snd (encoder_set_inband_fec lib e b)"
| "enc_step lib e (EncSetComplexity n) = snd (encoder_set_complexity lib e n)"

lemma encoder_ctl_inv:
  "enc_inv e \<Longrightarrow> (valid \<Longrightarrow> enc_valid (enc_config e) \<Longrightarrow> enc_valid (upd (enc_config e))) \<Longrightarrow>
   enc_inv (snd (encoder_ctl lib e valid ctl upd))"
  by (auto simp: encoder_ctl_def enc_inv_def encoder_is_open_def Let_def split: option.splits prod.splits)

lemma encoder_encode_inv: "enc_inv e \<Longrightarrow> enc_inv (snd (snd (encoder_encode lib e x out)))"
  by (auto simp: encoder_encode_def enc_inv_def encoder_is_open_def Let_def split: option.splits prod.splits)

lemma enc_step_inv: "enc_inv e \<Longrightarrow> enc_inv (enc_step lib e ev)"
proof (cases ev)
  case (EncOpen c)
  obtain ok e' where "encoder_open lib e c = (ok, e')" by fastforce
  from encoder_open_effect [OF this] show ?thesis using EncOpen \<open>encoder_open lib e c = (ok, e')\<close>
    by (auto simp: enc_inv_def)
next
  case EncClose
  then show ?thesis by (simp add: encoder_close_def enc_inv_def encoder_is_open_def)
qed (auto simp: encoder_encode_inv encoder_set_bitrate_def encoder_set_expected_loss_percent_def
  encoder_set_inband_fec_def encoder_set_complexity_def enc_valid_def intro!: encoder_ctl_inv)

interpretation encm: invariant_machine "enc_step lib" enc_inv for lib
  by unfold_locales (rule enc_step_inv)

section \<open>Buffers\<close>

lemma dec_valid_needed:
  assumes "dec_valid c"
  shows "unat (dec_needed c) = unat (dc_frame_samples c) * nat (dc_channels c)"
    "sint (dc_frame_samples c) = int (unat (dc_frame_samples c))" "0 < unat (dec_needed c)"
    "dc_channels c = 1 \<or> dc_channels c = 2"
proof -
  show ch: "dc_channels c = 1 \<or> dc_channels c = 2" using assms by (auto simp: dec_valid_def)
  have v: "0 < unat (dc_frame_samples c)" "unat (dc_frame_samples c) < 2 ^ 31"
    using assms valid_frame_samples by (auto simp: dec_valid_def)
  have up: "unat (ucast (dc_frame_samples c) :: u64) = unat (dc_frame_samples c)"
    by (simp add: unat_widen_32)
  have "(of_int (dc_channels c) :: u64) = of_nat (nat (dc_channels c))" using ch by auto
  moreover have "unat (dc_frame_samples c) * nat (dc_channels c) < 2 ^ 64" using v ch by auto
  ultimately show "unat (dec_needed c) = unat (dc_frame_samples c) * nat (dc_channels c)"
    using unat_mult_small [of "ucast (dc_frame_samples c) :: u64" "nat (dc_channels c)"]
    by (simp add: dec_needed_def up)
  then show "0 < unat (dec_needed c)" using v ch by auto
  show "sint (dc_frame_samples c) = int (unat (dc_frame_samples c))" using v by (simp add: sint_32_nonneg)
qed

lemma dec_inv_init [simp]: "dec_inv lib decoder_init"
  by (simp add: dec_inv_def decoder_init_def)

lemma dec_inv_close [simp]: "dec_inv lib (decoder_close d)"
  by (simp add: dec_inv_def decoder_close_def)

lemma decoder_is_open_close [simp]: "\<not> decoder_is_open (decoder_close d)"
  by (simp add: decoder_is_open_def decoder_close_def)

lemma decoder_open_effect:
  assumes "opus_contract lib"
  shows "dec_inv lib (snd (decoder_open lib d c))"
    "fst (decoder_open lib d c) \<longleftrightarrow> decoder_is_open (snd (decoder_open lib d c))"
    "fst (decoder_open lib d c) \<Longrightarrow> dec_valid c \<and> dec_config (snd (decoder_open lib d c)) = c"
proof -
  have ch: "op_dec_create lib rate ch = (Some st, err) \<Longrightarrow> op_channels lib st = ch" for rate ch st err
    using assms by (rule opus_create_channels)
  show "dec_inv lib (snd (decoder_open lib d c))"
    by (auto simp: decoder_open_def Let_def dec_inv_def dec_valid_def decoder_close_def ch
        split: option.splits prod.splits)
  show "fst (decoder_open lib d c) \<longleftrightarrow> decoder_is_open (snd (decoder_open lib d c))"
    "fst (decoder_open lib d c) \<Longrightarrow> dec_valid c \<and> dec_config (snd (decoder_open lib d c)) = c"
    by (auto simp: decoder_open_def Let_def decoder_is_open_def dec_valid_def decoder_close_def
        split: option.splits prod.splits if_splits)
qed

text \<open>What one decode call does to the caller's buffer and to the decoder.\<close>

lemma run_decode_effect:
  assumes lib: "opus_contract lib" and inv: "dec_inv lib d"
    and res: "run_decode lib d data len x fec src = (r, x', d')"
  shows "dec_inv lib d'" "dec_config d' = dec_config d" "decoder_is_open d' = decoder_is_open d"
    "dr_source r = src" "length x' = length x" "drop (unat (dr_samples r)) x' = drop (unat (dr_samples r)) x"
    "dr_error r \<noteq> 0 \<Longrightarrow> x' = x"
    "unat (dr_samples r) \<le> unat (dec_needed (dec_config d))"
proof -
  let ?c = "dec_config d"
  have "dec_inv lib d' \<and> dec_config d' = dec_config d \<and> decoder_is_open d' = decoder_is_open d \<and>
    dr_source r = src \<and> length x' = length x \<and> drop (unat (dr_samples r)) x' = drop (unat (dr_samples r)) x \<and>
    (dr_error r \<noteq> 0 \<longrightarrow> x' = x) \<and> unat (dr_samples r) \<le> unat (dec_needed ?c)"
  proof (cases "dec_state d")
    case None
    then show ?thesis using inv res by (auto simp: run_decode_def Let_def)
  next
    case (Some st)
    then have v: "dec_valid ?c" and ch: "op_channels lib st = dc_channels ?c"
      using inv by (simp_all add: dec_inv_def)
    note n = dec_valid_needed [OF v]
    show ?thesis
    proof (cases "length x < unat (dec_needed ?c)")
      case True
      then show ?thesis using inv res Some by (auto simp: run_decode_def Let_def)
    next
      case big: False
      obtain k smp st' where dec: "op_decode lib st data len (sint (dc_frame_samples ?c)) fec = (k, smp, st')"
        by (metis prod_cases3)
      note con = opus_decodeD [OF lib dec]
      have inv': "dec_inv lib (d\<lparr>dec_state := Some st'\<rparr>)"
        "dec_inv lib (d\<lparr>dec_state := Some st', dec_last_error := e\<rparr>)" for e
        using v ch con(1) by (simp_all add: dec_inv_def)
      show ?thesis
      proof (cases "k < 0")
        case True
        then show ?thesis using res Some dec con big inv'
          by (auto simp: run_decode_def Let_def decoder_is_open_def)
      next
        case False
        then have k: "0 \<le> k" "k \<le> int (unat (dc_frame_samples ?c))" "length smp = nat (k * dc_channels ?c)"
          using con(3) n(2) ch by simp_all
        have c0: "0 \<le> dc_channels ?c" using n(4) by linarith
        have len: "length smp = nat k * nat (dc_channels ?c)" using k(1,3) by (simp add: nat_mult_distrib)
        also have "\<dots> \<le> unat (dc_frame_samples ?c) * nat (dc_channels ?c)"
          using k(2) by (intro mult_le_mono1) (simp only: nat_le_iff)
        finally have le: "length smp \<le> unat (dec_needed ?c)" by (simp add: n(1))
        have "k * dc_channels ?c = int (length smp)" using k(1,3) c0 by simp
        then have "(of_int k * of_int (dc_channels ?c) :: u64) = of_nat (length smp)"
          by (metis of_int_mult of_int_of_nat_eq)
        moreover have "length smp < 2 ^ 64" using le unat_lt2p [of "dec_needed ?c"] by simp
        ultimately have u: "unat (of_int k * of_int (dc_channels ?c) :: u64) = length smp"
          by (simp add: unat_of_nat_small)
        have "r = \<lparr>dr_samples = of_int k * of_int (dc_channels ?c), dr_source = src, dr_error = 0\<rparr>"
            "x' = smp @ drop (length smp) x" "d' = d\<lparr>dec_state := Some st'\<rparr>"
          using res Some dec False big by (auto simp: run_decode_def Let_def)
        then show ?thesis using u inv' le big Some by (simp add: decoder_is_open_def)
      qed
    qed
  qed
  then show "dec_inv lib d'" "dec_config d' = dec_config d" "decoder_is_open d' = decoder_is_open d"
    "dr_source r = src" "length x' = length x" "drop (unat (dr_samples r)) x' = drop (unat (dr_samples r)) x"
    "dr_error r \<noteq> 0 \<Longrightarrow> x' = x"
    "unat (dr_samples r) \<le> unat (dec_needed (dec_config d))"
    by simp_all
qed

lemma decoder_reset_effect:
  assumes "opus_contract lib" "dec_inv lib d"
  shows "dec_inv lib (snd (decoder_reset_state lib d))"
    "dec_config (snd (decoder_reset_state lib d)) = dec_config d"
    "decoder_is_open (snd (decoder_reset_state lib d)) = decoder_is_open d"
proof -
  have ch: "op_dec_reset lib st = (rc, st') \<Longrightarrow> op_channels lib st' = op_channels lib st" for rc st st'
    using assms(1) by (rule opus_reset_channels)
  show "dec_inv lib (snd (decoder_reset_state lib d))"
    "dec_config (snd (decoder_reset_state lib d)) = dec_config d"
    "decoder_is_open (snd (decoder_reset_state lib d)) = decoder_is_open d"
    using assms(2) by (auto simp: decoder_reset_state_def dec_inv_def decoder_is_open_def Let_def ch
        split: option.splits prod.splits)
qed

section \<open>A concrete library\<close>

text \<open>
  An instance of the parameter: a decoder is its channel count, a decode fills the frame with
  zeros, encoding yields one byte, and every control request succeeds.
\<close>

definition silent_opus :: "(unit, int) opus" where
  "silent_opus = \<lparr>op_bad_arg = -1, op_buffer_too_small = -2, op_internal_error = -3,
     op_invalid_state = -6, op_enc_create = (\<lambda>rate ch. (Some (), 0)),
     op_enc_ctl = (\<lambda>e c. (0, e)), op_enc_get = (\<lambda>e g. (0, 0)),
     op_encode = (\<lambda>e x fs space. if space < 1 then (-2, [], e) else (1, [0], e)),
     op_dec_create = (\<lambda>rate ch. (Some ch, 0)),
     op_decode = (\<lambda>d data len fs fec.
        if fs < 0 then (-1, [], d) else (fs, replicate (nat (fs * d)) 0, d)),
     op_dec_reset = (\<lambda>d. (0, d)), op_has_lbrr = (\<lambda>p n. 1), op_nb_samples = (\<lambda>p n r. 960),
     op_channels = (\<lambda>d. d)\<rparr>"

lemma silent_opus_contract: "opus_contract silent_opus"
  by (auto simp: opus_contract_def decode_contract_def silent_opus_def)

section \<open>Properties\<close>

text \<open>
  However it is driven, an open encoder carries a configuration that passed the checks of
  \<open>open()\<close>: one or two channels, a frame duration Opus accepts, a loss estimate of 0 to 100
  percent and a complexity of 0 to 10.
\<close>

theorem encoder_config_checked:
  assumes "encoder_is_open (foldl (enc_step lib) encoder_init evs)"
  shows "enc_valid (enc_config (foldl (enc_step lib) encoder_init evs))"
proof -
  have "enc_inv encoder_init" by (simp add: enc_inv_def encoder_is_open_def encoder_init_def)
  from encm.run_inv [OF this, of lib evs] assms show ?thesis by (simp add: enc_inv_def)
qed

definition voice_config :: encoder_config where
  "voice_config = default_encoder_config\<lparr>ec_inband_fec := True, ec_expected_loss_percent := 20\<rparr>"

lemma valid_960: "is_valid_frame_samples 48000 960"
  by (simp add: is_valid_frame_samples_def kValidFrameTenthsMs_def frame_of_tenths_def)

lemma voice_open:
  "encoder_open silent_opus encoder_init voice_config =
     (True, \<lparr>enc_state = Some (), enc_config = voice_config, enc_last_error = 0\<rparr>)"
  by (simp add: encoder_open_def encoder_close_def encoder_init_def voice_config_def kSampleRateHz_def
      default_encoder_config_def silent_opus_def opus_ok_code_def valid_960 kFrameSamples_960 Let_def)

theorem encoder_config_checked_witness: "enc_valid voice_config"
  using encoder_config_checked [of silent_opus "[EncOpen voice_config]"]
  by (simp add: voice_open encoder_is_open_def)

text \<open>
  \<open>open()\<close> refuses in-band FEC with a zero loss estimate as a configuration that cannot do
  what it claims, but the run-time setters lead an open encoder into exactly that configuration.
\<close>

theorem encoder_setters_reach_rejected_config:
  "let e = foldl (enc_step silent_opus) encoder_init [EncOpen voice_config, EncSetLoss 0] in
     encoder_is_open e \<and> ec_inband_fec (enc_config e) \<and> ec_expected_loss_percent (enc_config e) = 0 \<and>
     \<not> fst (encoder_open silent_opus encoder_init (enc_config e))"
proof -
  have "foldl (enc_step silent_opus) encoder_init [EncOpen voice_config, EncSetLoss 0] =
      \<lparr>enc_state = Some (), enc_config = voice_config\<lparr>ec_expected_loss_percent := 0\<rparr>, enc_last_error = 0\<rparr>"
    by (simp add: voice_open encoder_set_expected_loss_percent_def encoder_ctl_def opus_ok_code_def)
       (simp add: silent_opus_def)
  moreover have "\<not> enc_fec_effective (voice_config\<lparr>ec_expected_loss_percent := 0\<rparr>)"
    by (simp add: enc_fec_effective_def voice_config_def)
  ultimately show ?thesis
    by (simp add: encoder_open_refused encoder_is_open_def) (simp add: voice_config_def)
qed

text \<open>
  Decoding stays inside the caller's buffer: whatever the packet, \<open>decode\<close> keeps the length of
  the PCM span, changes nothing beyond the samples it reports, never reports more than one frame,
  and on an error leaves the span as it was.
\<close>

theorem decode_within_buffer:
  assumes "opus_contract lib" "decoder_open lib d0 c = (True, d)"
    and "decoder_decode lib d packet x = (r, x', d')"
  shows "length x' = length x \<and> drop (unat (dr_samples r)) x' = drop (unat (dr_samples r)) x \<and>
    unat (dr_samples r) \<le> unat (dc_frame_samples c) * nat (dc_channels c) \<and>
    (dr_error r \<noteq> 0 \<longrightarrow> x' = x) \<and> decoder_is_open d'"
proof -
  have o: "dec_inv lib d" "decoder_is_open d" "dec_valid c" "dec_config d = c"
    using decoder_open_effect [OF assms(1), of d0 c] assms(2) by simp_all
  show ?thesis
  proof (cases "packet = []")
    case True
    then show ?thesis using assms(3) o by (auto simp: decoder_decode_def)
  next
    case False
    then have "run_decode lib d (Some packet) (int32_size packet) x 0 DecPacket = (r, x', d')"
      using assms(3) by (simp add: decoder_decode_def)
    from run_decode_effect [OF assms(1) o(1) this] o dec_valid_needed(1) [OF o(3)]
    show ?thesis by auto
  qed
qed

theorem decode_within_buffer_witness:
  "length (fst (snd (decoder_decode silent_opus
      (snd (decoder_open silent_opus decoder_init default_decoder_config)) [7] (replicate 1000 5)))) = 1000"
proof -
  have "decoder_open silent_opus decoder_init default_decoder_config =
      (True, snd (decoder_open silent_opus decoder_init default_decoder_config))"
    by (simp add: decoder_open_def decoder_close_def decoder_init_def kSampleRateHz_def
      default_decoder_config_def silent_opus_def opus_ok_code_def valid_960 kFrameSamples_960 Let_def)
  from decode_within_buffer [OF silent_opus_contract this, of "[7]" "replicate 1000 5"]
  show ?thesis by (metis length_replicate prod.collapse)
qed

end
