(* ===== verification/Reorder_Queue.thy ===== *)
theory Reorder_Queue
  imports Serial Proto
begin

text \<open>
  The sequence-ordered holding pen for received frames
  (core/include/radio/reorder_queue.hpp, core/src/audio/reorder_queue.cpp): 64 slots addressed by
  \<open>sequence & 63\<close>, a play cursor, and one counter per fate of a frame. The theory shows that the
  slot array is a finite map from the sequence numbers of the window to frames, that slot aliasing
  cannot happen, that no copy leaves a slot's storage, and that no frame is counted twice or lost
  from the accounts.
\<close>

section \<open>State\<close>

definition rq_capacity :: nat where "rq_capacity = 64"
definition rq_max_payload :: nat where "rq_max_payload = 512"
definition rq_window :: int where "rq_window = int rq_capacity"

record frame_info =
  fi_header :: media_header
  fi_arrival_us :: micros
  fi_deadline_us :: micros

type_synonym frame = "frame_info \<times> bytes"

datatype rq_insert_result = InsAccepted | InsDuplicate | InsLate | InsTooOld | InsTooFarAhead | InsOversized

datatype rq_step = Delivered | Gap

fun rq_insert_to_string :: "rq_insert_result \<Rightarrow> string" where
  "rq_insert_to_string InsAccepted = ''accepted''"
| "rq_insert_to_string InsDuplicate = ''duplicate''"
| "rq_insert_to_string InsLate = ''late''"
| "rq_insert_to_string InsTooOld = ''too_old''"
| "rq_insert_to_string InsTooFarAhead = ''too_far_ahead''"
| "rq_insert_to_string InsOversized = ''oversized''"

fun rq_step_to_string :: "rq_step \<Rightarrow> string" where
  "rq_step_to_string Delivered = ''delivered''"
| "rq_step_to_string Gap = ''gap''"

record rq_slot =
  sl_info :: frame_info
  sl_size :: u16
  sl_occupied :: bool
  sl_bytes :: bytes

record reorder_queue =
  rq_slots :: "rq_slot list"
  rq_cursor :: u32
  rq_highest :: u32
  rq_held :: u64
  rq_started :: bool
  rq_accepted :: u64
  rq_duplicates :: u64
  rq_late :: u64
  rq_too_old :: u64
  rq_too_far_ahead :: u64
  rq_oversized :: u64
  rq_expired :: u64
  rq_discarded :: u64
  rq_delivered :: u64
  rq_gaps :: u64
  rq_resyncs :: u64

definition empty_header :: media_header where
  "empty_header = \<lparr>mh_flags = 0, mh_stream_id = 0, mh_sequence = 0, mh_timestamp = 0\<rparr>"

definition empty_info :: frame_info where
  "empty_info = \<lparr>fi_header = empty_header, fi_arrival_us = 0, fi_deadline_us = 0\<rparr>"

definition empty_slot :: rq_slot where
  "empty_slot = \<lparr>sl_info = empty_info, sl_size = 0, sl_occupied = False,
     sl_bytes = replicate rq_max_payload 0\<rparr>"

definition rq_init :: reorder_queue where
  "rq_init = \<lparr>rq_slots = replicate rq_capacity empty_slot, rq_cursor = 0, rq_highest = 0,
     rq_held = 0, rq_started = False, rq_accepted = 0, rq_duplicates = 0, rq_late = 0,
     rq_too_old = 0, rq_too_far_ahead = 0, rq_oversized = 0, rq_expired = 0, rq_discarded = 0,
     rq_delivered = 0, rq_gaps = 0, rq_resyncs = 0\<rparr>"

abbreviation info_seq :: "frame_info \<Rightarrow> u32" where
  "info_seq info \<equiv> mh_sequence (fi_header info)"

section \<open>Operations\<close>

definition rq_index :: "u32 \<Rightarrow> nat" where
  "rq_index sequence = unat (sequence AND 63)"

definition vacate :: "rq_slot \<Rightarrow> rq_slot" where
  "vacate s = s\<lparr>sl_occupied := False\<rparr>"

definition rq_start :: "reorder_queue \<Rightarrow> u32 \<Rightarrow> reorder_queue" where
  "rq_start q first =
     (if rq_started q then q
      else q\<lparr>rq_cursor := first, rq_highest := first, rq_started := True\<rparr>)"

definition rq_resync :: "reorder_queue \<Rightarrow> u32 \<Rightarrow> reorder_queue" where
  "rq_resync q sequence =
     q\<lparr>rq_slots := map vacate (rq_slots q), rq_held := 0, rq_cursor := sequence,
       rq_highest := sequence, rq_started := True, rq_resyncs := rq_resyncs q + 1\<rparr>"

definition rq_reset :: "reorder_queue \<Rightarrow> reorder_queue" where
  "rq_reset q = rq_init\<lparr>rq_slots := map vacate (rq_slots q)\<rparr>"

definition rq_insert :: "reorder_queue \<Rightarrow> frame_info \<Rightarrow> bytes \<Rightarrow> micros \<Rightarrow> rq_insert_result \<times> reorder_queue"
  where
  "rq_insert q0 info payload now =
     (if length payload > rq_max_payload then
        (InsOversized, q0\<lparr>rq_oversized := rq_oversized q0 + 1\<rparr>)
      else
        let sequence = info_seq info;
            q = (if \<not> rq_started q0 then rq_start q0 sequence else q0);
            offset = distance (rq_cursor q) sequence in
        if offset < 0 then
          (if offset > - rq_window then (InsLate, q\<lparr>rq_late := rq_late q + 1\<rparr>)
           else (InsTooOld, q\<lparr>rq_too_old := rq_too_old q + 1\<rparr>))
        else if offset \<ge> rq_window then
          (InsTooFarAhead, q\<lparr>rq_too_far_ahead := rq_too_far_ahead q + 1\<rparr>)
        else if now > fi_deadline_us info then
          (InsLate, q\<lparr>rq_late := rq_late q + 1\<rparr>)
        else
          let i = rq_index sequence; s = rq_slots q ! i in
          if sl_occupied s then
            (InsDuplicate, q\<lparr>rq_duplicates := rq_duplicates q + 1\<rparr>)
          else
            (InsAccepted,
             q\<lparr>rq_slots := (rq_slots q)[i := s\<lparr>sl_info := info, sl_size := of_nat (length payload),
                 sl_bytes := payload @ drop (length payload) (sl_bytes s), sl_occupied := True\<rparr>],
               rq_highest := (if rq_held q = 0 \<or> precedes (rq_highest q) sequence then sequence
                              else rq_highest q),
               rq_held := rq_held q + 1,
               rq_accepted := rq_accepted q + 1\<rparr>))"

definition slot_frame :: "rq_slot \<Rightarrow> frame" where
  "slot_frame s = (sl_info s, take (unat (sl_size s)) (sl_bytes s))"

definition rq_peek :: "reorder_queue \<Rightarrow> u32 \<Rightarrow> frame option" where
  "rq_peek q sequence =
     (if \<not> rq_started q then None
      else
        let offset = distance (rq_cursor q) sequence in
        if offset < 0 \<or> offset \<ge> rq_window then None
        else
          let s = rq_slots q ! rq_index sequence in
          if \<not> sl_occupied s \<or> info_seq (sl_info s) \<noteq> sequence then None
          else Some (slot_frame s))"

definition rq_peek_next :: "reorder_queue \<Rightarrow> frame option" where
  "rq_peek_next q = rq_peek q (rq_cursor q)"

definition rq_has_next :: "reorder_queue \<Rightarrow> bool" where
  "rq_has_next q =
     (if \<not> rq_started q then False
      else let s = rq_slots q ! rq_index (rq_cursor q) in
        sl_occupied s \<and> info_seq (sl_info s) = rq_cursor q)"

definition rq_step_once :: "reorder_queue \<Rightarrow> rq_step \<times> reorder_queue" where
  "rq_step_once q =
     (let i = rq_index (rq_cursor q); s = rq_slots q ! i in
      if sl_occupied s \<and> info_seq (sl_info s) = rq_cursor q then
        (Delivered, q\<lparr>rq_slots := (rq_slots q)[i := vacate s], rq_held := rq_held q - 1,
                      rq_cursor := rq_cursor q + 1\<rparr>)
      else (Gap, q\<lparr>rq_cursor := rq_cursor q + 1\<rparr>))"

definition rq_advance :: "reorder_queue \<Rightarrow> rq_step \<times> reorder_queue" where
  "rq_advance q =
     (if \<not> rq_started q then (Gap, q\<lparr>rq_gaps := rq_gaps q + 1\<rparr>)
      else
        let (result, q) = rq_step_once q in
        (result, if result = Delivered then q\<lparr>rq_delivered := rq_delivered q + 1\<rparr>
                 else q\<lparr>rq_gaps := rq_gaps q + 1\<rparr>))"

text \<open>The body of the loop of \<open>skip_to\<close> and the loop itself.\<close>

definition skip_one :: "reorder_queue \<Rightarrow> reorder_queue" where
  "skip_one q =
     (let i = rq_index (rq_cursor q); s = rq_slots q ! i;
          q = (if sl_occupied s \<and> info_seq (sl_info s) = rq_cursor q then
                 q\<lparr>rq_slots := (rq_slots q)[i := vacate s], rq_held := rq_held q - 1,
                   rq_discarded := rq_discarded q + 1\<rparr>
               else q) in
      q\<lparr>rq_cursor := rq_cursor q + 1\<rparr>)"

fun skip_steps :: "nat \<Rightarrow> reorder_queue \<Rightarrow> reorder_queue" where
  "skip_steps 0 q = q"
| "skip_steps (Suc n) q = skip_steps n (skip_one q)"

definition rq_skip_to :: "reorder_queue \<Rightarrow> u32 \<Rightarrow> nat \<times> reorder_queue" where
  "rq_skip_to q sequence =
     (if \<not> rq_started q then (0, q)
      else
        let offset = distance (rq_cursor q) sequence in
        if offset \<le> 0 then (0, q)
        else
          let frames = nat offset; stepped = min frames rq_capacity;
              q = skip_steps stepped q in
          (frames, q\<lparr>rq_gaps := rq_gaps q + of_nat frames, rq_cursor := sequence\<rparr>))"

text \<open>One slot of the loop of \<open>drop_expired\<close>; the pair is the queue and the count.\<close>

definition drop_slot :: "micros \<Rightarrow> nat \<times> reorder_queue \<Rightarrow> nat \<Rightarrow> nat \<times> reorder_queue" where
  "drop_slot now = (\<lambda>(dropped, q) i.
     let s = rq_slots q ! i in
     if sl_occupied s \<and> now > fi_deadline_us (sl_info s) then
       (dropped + 1, q\<lparr>rq_slots := (rq_slots q)[i := vacate s], rq_held := rq_held q - 1,
                       rq_expired := rq_expired q + 1\<rparr>)
     else (dropped, q))"

definition rq_drop_expired :: "reorder_queue \<Rightarrow> micros \<Rightarrow> nat \<times> reorder_queue" where
  "rq_drop_expired q now = foldl (drop_slot now) (0, q) [0..<rq_capacity]"

definition rq_depth :: "reorder_queue \<Rightarrow> u64" where
  "rq_depth q =
     (if rq_held q = 0 then 0 else of_int (distance (rq_cursor q) (rq_highest q)) + 1)"

section \<open>Slots\<close>

lemmas rq_consts = rq_capacity_def rq_max_payload_def rq_window_def

lemma rq_index_mod: "rq_index s = unat s mod 64"
proof -
  have "s AND 63 = take_bit 6 s" by (simp add: take_bit_eq_mask mask_eq_exp_minus_1)
  then show ?thesis by (simp add: rq_index_def take_bit_eq_mod unat_mod)
qed

lemma rq_index_less [simp]: "rq_index s < 64"
  by (simp add: rq_index_mod)

lemma rq_index_eq_iff: "rq_index a = rq_index b \<longleftrightarrow> 64 dvd distance a b"
  using unat_mod_eq_iff [of 64 a b] by (simp add: rq_index_mod)

definition rq_in_window :: "u32 \<Rightarrow> u32 \<Rightarrow> bool" where
  "rq_in_window c s \<longleftrightarrow> 0 \<le> distance c s \<and> distance c s < 64"

lemma rq_in_window_self [simp]: "rq_in_window c c"
  by (simp add: rq_in_window_def)

lemma rq_window_no_alias:
  assumes "rq_in_window c a" "rq_in_window c b" "rq_index a = rq_index b"
  shows "a = b"
proof -
  have "distance a c = - distance c a"
    using assms(1) by (intro distance_flip) (simp add: rq_in_window_def)
  then have "distance a b = distance c b - distance c a"
    using assms distance_trans [of a c b] by (simp add: rq_in_window_def)
  then have "\<bar>distance a b\<bar> < int 64" using assms by (auto simp: rq_in_window_def)
  then show ?thesis using assms(3) by (intro distance_multiple [of 64]) (simp_all add: rq_index_eq_iff)
qed

text \<open>The window after the cursor has moved on by one.\<close>

lemma rq_in_window_pos: "s \<noteq> c \<Longrightarrow> rq_in_window c s \<Longrightarrow> 0 < distance c s"
  using distance_eq_0_iff [of c s] by (auto simp: rq_in_window_def order_le_less simp del: distance_eq_0_iff)

lemma distance_succ:
  "s \<noteq> c \<Longrightarrow> rq_in_window c s \<Longrightarrow> distance (c + 1) s = distance c s - 1"
  using rq_in_window_pos [of s c] distance_from_add [of c s 1] by (simp add: rq_in_window_def)

lemma rq_in_window_succ:
  "rq_in_window (c + 1) s \<longleftrightarrow> rq_in_window c s \<and> s \<noteq> c \<or> s = c + 64"
proof (cases "rq_in_window c s \<and> s \<noteq> c")
  case True
  then show ?thesis
    using distance_succ [of s c] rq_in_window_pos [of s c] by (auto simp: rq_in_window_def)
next
  case False
  have "s = c + 64" if "rq_in_window (c + 1) s"
  proof (rule ccontr)
    assume ne: "s \<noteq> c + 64"
    define d where "d = distance (c + 1) s"
    have d: "0 \<le> d" "d < 64" using that by (simp_all add: rq_in_window_def d_def)
    have s: "s = c + of_int (d + 1)" by (simp add: d_def of_int_distance)
    have "d \<noteq> 63" using s ne by auto
    moreover have dist: "distance c s = d + 1"
      unfolding s using d distance_add [of c c "d + 1"] by simp
    moreover have "s \<noteq> c" using dist d by auto
    ultimately show False using False d by (simp add: rq_in_window_def)
  qed
  moreover have "rq_in_window (c + 1) (c + 64)"
    using distance_add [of "c + 1" "c + 1" 63] by (simp add: rq_in_window_def add.assoc)
  ultimately show ?thesis using False by auto
qed

lemma rq_next_not_in_window [simp]: "\<not> rq_in_window c (c + 64)"
  using distance_add [of c c 64] by (simp add: rq_in_window_def)

section \<open>Invariant\<close>

definition rq_occ :: "reorder_queue \<Rightarrow> nat set" where
  "rq_occ q = {i. i < 64 \<and> sl_occupied (rq_slots q ! i)}"

definition slot_ok :: "rq_slot \<Rightarrow> bool" where
  "slot_ok s \<longleftrightarrow> length (sl_bytes s) = 512 \<and> unat (sl_size s) \<le> 512"

abbreviation slot_seq :: "reorder_queue \<Rightarrow> nat \<Rightarrow> u32" where
  "slot_seq q i \<equiv> info_seq (sl_info (rq_slots q ! i))"

definition rq_inv :: "reorder_queue \<Rightarrow> bool" where
  "rq_inv q \<longleftrightarrow>
     length (rq_slots q) = 64 \<and> (\<forall>s \<in> set (rq_slots q). slot_ok s) \<and>
     unat (rq_held q) = card (rq_occ q) \<and>
     (\<forall>i \<in> rq_occ q. rq_started q \<and> rq_index (slot_seq q i) = i \<and>
        rq_in_window (rq_cursor q) (slot_seq q i) \<and>
        rq_in_window (rq_cursor q) (rq_highest q) \<and>
        distance (rq_cursor q) (slot_seq q i) \<le> distance (rq_cursor q) (rq_highest q))"

lemma rq_occ_finite [simp]: "finite (rq_occ q)"
  by (simp add: rq_occ_def)

lemma rq_occ_card: "card (rq_occ q) \<le> 64"
  using card_mono [of "{..<64}" "rq_occ q"] by (auto simp: rq_occ_def)

lemma rq_invD:
  assumes "rq_inv q" "i \<in> rq_occ q"
  shows "rq_started q" "rq_index (slot_seq q i) = i" "rq_in_window (rq_cursor q) (slot_seq q i)"
    "rq_in_window (rq_cursor q) (rq_highest q)"
    "distance (rq_cursor q) (slot_seq q i) \<le> distance (rq_cursor q) (rq_highest q)"
  using assms by (auto simp: rq_inv_def)

lemma rq_inv_length [simp]: "rq_inv q \<Longrightarrow> length (rq_slots q) = 64"
  by (simp add: rq_inv_def)

text \<open>The invariant does not depend on the counters.\<close>

lemma rq_occ_counters [simp]:
  "rq_occ (q\<lparr>rq_accepted := x\<rparr>) = rq_occ q" "rq_occ (q\<lparr>rq_duplicates := x\<rparr>) = rq_occ q"
  "rq_occ (q\<lparr>rq_late := x\<rparr>) = rq_occ q" "rq_occ (q\<lparr>rq_too_old := x\<rparr>) = rq_occ q"
  "rq_occ (q\<lparr>rq_too_far_ahead := x\<rparr>) = rq_occ q" "rq_occ (q\<lparr>rq_oversized := x\<rparr>) = rq_occ q"
  "rq_occ (q\<lparr>rq_expired := x\<rparr>) = rq_occ q" "rq_occ (q\<lparr>rq_discarded := x\<rparr>) = rq_occ q"
  "rq_occ (q\<lparr>rq_delivered := x\<rparr>) = rq_occ q" "rq_occ (q\<lparr>rq_gaps := x\<rparr>) = rq_occ q"
  "rq_occ (q\<lparr>rq_resyncs := x\<rparr>) = rq_occ q" "rq_occ (q\<lparr>rq_held := h\<rparr>) = rq_occ q"
  "rq_occ (q\<lparr>rq_cursor := c\<rparr>) = rq_occ q" "rq_occ (q\<lparr>rq_highest := c\<rparr>) = rq_occ q"
  by (simp_all add: rq_occ_def)

lemma rq_inv_counters [simp]:
  "rq_inv (q\<lparr>rq_accepted := x\<rparr>) \<longleftrightarrow> rq_inv q" "rq_inv (q\<lparr>rq_duplicates := x\<rparr>) \<longleftrightarrow> rq_inv q"
  "rq_inv (q\<lparr>rq_late := x\<rparr>) \<longleftrightarrow> rq_inv q" "rq_inv (q\<lparr>rq_too_old := x\<rparr>) \<longleftrightarrow> rq_inv q"
  "rq_inv (q\<lparr>rq_too_far_ahead := x\<rparr>) \<longleftrightarrow> rq_inv q" "rq_inv (q\<lparr>rq_oversized := x\<rparr>) \<longleftrightarrow> rq_inv q"
  "rq_inv (q\<lparr>rq_expired := x\<rparr>) \<longleftrightarrow> rq_inv q" "rq_inv (q\<lparr>rq_discarded := x\<rparr>) \<longleftrightarrow> rq_inv q"
  "rq_inv (q\<lparr>rq_delivered := x\<rparr>) \<longleftrightarrow> rq_inv q" "rq_inv (q\<lparr>rq_gaps := x\<rparr>) \<longleftrightarrow> rq_inv q"
  "rq_inv (q\<lparr>rq_resyncs := x\<rparr>) \<longleftrightarrow> rq_inv q"
  by (simp_all add: rq_inv_def)

lemma vacate_simps [simp]:
  "sl_occupied (vacate s) \<longleftrightarrow> False" "sl_info (vacate s) = sl_info s"
  "slot_ok (vacate s) \<longleftrightarrow> slot_ok s"
  by (simp_all add: vacate_def slot_ok_def)

lemma rq_inv_init [simp]: "rq_inv rq_init"
  by (auto simp: rq_inv_def rq_init_def rq_occ_def rq_consts slot_ok_def empty_slot_def)

lemma rq_inv_empty:
  assumes "length (rq_slots q) = 64" "\<forall>s \<in> set (rq_slots q). slot_ok s" "rq_held q = 0"
    "rq_occ q = {}"
  shows "rq_inv q"
  using assms by (simp add: rq_inv_def)

lemma rq_occ_none: "\<not> rq_started q \<Longrightarrow> rq_inv q \<Longrightarrow> rq_occ q = {}"
  by (auto simp: rq_inv_def)

section \<open>The queue as a map\<close>

lemma rq_slot_seq:
  assumes "rq_inv q" "rq_in_window (rq_cursor q) s" "sl_occupied (rq_slots q ! rq_index s)"
  shows "slot_seq q (rq_index s) = s"
proof -
  have "rq_index s \<in> rq_occ q" using assms by (simp add: rq_occ_def)
  from rq_invD [OF assms(1) this] assms(2) show ?thesis by (blast intro: rq_window_no_alias)
qed

lemma rq_peek_eq:
  assumes "rq_inv q"
  shows "rq_peek q s = (if rq_in_window (rq_cursor q) s \<and> rq_index s \<in> rq_occ q
    then Some (slot_frame (rq_slots q ! rq_index s)) else None)"
  using assms rq_slot_seq [OF assms, of s] rq_invD(1) [OF assms, of "rq_index s"]
  by (auto simp: rq_peek_def rq_in_window_def rq_consts rq_occ_def Let_def)

lemma rq_peek_counters [simp]:
  "rq_peek (q\<lparr>rq_accepted := x\<rparr>) = rq_peek q" "rq_peek (q\<lparr>rq_duplicates := x\<rparr>) = rq_peek q"
  "rq_peek (q\<lparr>rq_late := x\<rparr>) = rq_peek q" "rq_peek (q\<lparr>rq_too_old := x\<rparr>) = rq_peek q"
  "rq_peek (q\<lparr>rq_too_far_ahead := x\<rparr>) = rq_peek q" "rq_peek (q\<lparr>rq_oversized := x\<rparr>) = rq_peek q"
  "rq_peek (q\<lparr>rq_expired := x\<rparr>) = rq_peek q" "rq_peek (q\<lparr>rq_discarded := x\<rparr>) = rq_peek q"
  "rq_peek (q\<lparr>rq_delivered := x\<rparr>) = rq_peek q" "rq_peek (q\<lparr>rq_gaps := x\<rparr>) = rq_peek q"
  "rq_peek (q\<lparr>rq_resyncs := x\<rparr>) = rq_peek q"
  by (simp_all add: fun_eq_iff rq_peek_def Let_def)

lemma rq_has_next_iff: "rq_inv q \<Longrightarrow> rq_has_next q \<longleftrightarrow> rq_peek_next q \<noteq> None"
  by (auto simp: rq_has_next_def rq_peek_next_def rq_peek_def Let_def rq_consts)

section \<open>Vacating and filling a slot\<close>

lemma rq_occ_vacate:
  "length (rq_slots q) = 64 \<Longrightarrow>
   rq_occ (q\<lparr>rq_slots := (rq_slots q)[i := vacate (rq_slots q ! i)]\<rparr>) = rq_occ q - {i}"
  by (cases "i < 64") (auto simp: rq_occ_def nth_list_update list_update_beyond split: if_splits)

lemma unat_pred: "unat h = card A \<Longrightarrow> i \<in> A \<Longrightarrow> finite A \<Longrightarrow> unat (h - 1) = card (A - {i})"
  for h :: u64
  by (metis card_Diff_singleton card_gt_0_iff empty_iff unat_eq_zero unat_minus_one less_irrefl One_nat_def)

lemma slot_ok_update:
  "\<forall>s \<in> set xs. slot_ok s \<Longrightarrow> slot_ok x \<Longrightarrow> \<forall>s \<in> set (xs[i := x]). slot_ok s"
  using set_update_subset_insert [of xs i x] by auto

lemma slot_ok_vacate_nth: "\<forall>s \<in> set xs. slot_ok s \<Longrightarrow> i < length xs \<Longrightarrow> slot_ok (vacate (xs ! i))"
  by simp

lemma slot_info_vacate:
  "sl_info (((rq_slots q)[i := vacate (rq_slots q ! i)]) ! k) = sl_info (rq_slots q ! k)"
  by (cases "i < length (rq_slots q)") (auto simp: nth_list_update list_update_beyond)

lemma slot_frame_vacate:
  "slot_frame (((rq_slots q)[i := vacate (rq_slots q ! i)]) ! k) = slot_frame (rq_slots q ! k)"
  by (cases "i < length (rq_slots q)")
     (auto simp: nth_list_update list_update_beyond slot_frame_def vacate_def)

definition vacate_slot :: "nat \<Rightarrow> reorder_queue \<Rightarrow> reorder_queue" where
  "vacate_slot i q = q\<lparr>rq_slots := (rq_slots q)[i := vacate (rq_slots q ! i)], rq_held := rq_held q - 1\<rparr>"

lemma vacate_slot_sel [simp]:
  "rq_cursor (vacate_slot i q) = rq_cursor q" "rq_highest (vacate_slot i q) = rq_highest q"
  "rq_started (vacate_slot i q) = rq_started q"
  by (simp_all add: vacate_slot_def)

lemma rq_occ_vacate_slot: "rq_inv q \<Longrightarrow> rq_occ (vacate_slot i q) = rq_occ q - {i}"
  using rq_occ_vacate [of q i] by (simp add: vacate_slot_def rq_occ_def)

lemma rq_inv_vacate_slot: "rq_inv q \<Longrightarrow> i \<in> rq_occ q \<Longrightarrow> rq_inv (vacate_slot i q)"
proof -
  assume inv: "rq_inv q" and i: "i \<in> rq_occ q"
  have "\<forall>s \<in> set ((rq_slots q)[i := vacate (rq_slots q ! i)]). slot_ok s"
    using inv i by (intro slot_ok_update) (auto simp: rq_inv_def rq_occ_def)
  moreover have "unat (rq_held q - 1) = card (rq_occ q - {i})"
    using inv i by (intro unat_pred) (simp_all add: rq_inv_def)
  ultimately show ?thesis
    using inv rq_invD [OF inv] unfolding rq_inv_def [of "vacate_slot i q"] rq_occ_vacate_slot [OF inv]
    by (auto simp: vacate_slot_def slot_info_vacate)
qed

lemma rq_peek_vacate_slot:
  assumes "rq_inv q" "i \<in> rq_occ q"
  shows "rq_peek (vacate_slot i q) s = (if s = slot_seq q i then None else rq_peek q s)"
proof -
  have eq: "rq_index s = i \<and> rq_in_window (rq_cursor q) s \<longleftrightarrow> s = slot_seq q i"
    using rq_invD [OF assms] by (auto intro: rq_window_no_alias)
  have "slot_frame (rq_slots (vacate_slot i q) ! k) = slot_frame (rq_slots q ! k)" for k
    by (simp add: vacate_slot_def slot_frame_vacate)
  moreover have "rq_in_window (rq_cursor q) s \<and> rq_index s \<in> rq_occ q - {i} \<longleftrightarrow>
      s \<noteq> slot_seq q i \<and> rq_in_window (rq_cursor q) s \<and> rq_index s \<in> rq_occ q"
    using eq by blast
  ultimately show ?thesis
    by (simp add: rq_peek_eq rq_inv_vacate_slot assms rq_occ_vacate_slot del: Diff_iff)
qed

text \<open>Moving the cursor past a position that holds nothing.\<close>

lemma rq_inv_next_cursor:
  assumes inv: "rq_inv q" and free: "rq_index (rq_cursor q) \<notin> rq_occ q"
  shows "rq_inv (q\<lparr>rq_cursor := rq_cursor q + 1\<rparr>)"
proof -
  have "slot_seq q i \<noteq> rq_cursor q" if "i \<in> rq_occ q" for i
    using rq_invD(2) [OF inv that] free that by auto
  moreover have "rq_highest q \<noteq> rq_cursor q" if "i \<in> rq_occ q" for i
    using rq_invD [OF inv that] rq_in_window_pos calculation [OF that] by fastforce
  moreover have "distance (rq_cursor q) (slot_seq q i) - 1 < distance (rq_cursor q) (rq_highest q)"
    if "i \<in> rq_occ q" for i
    using rq_invD(5) [OF inv that] by simp
  ultimately show ?thesis
    using inv rq_invD [OF inv] unfolding rq_inv_def
    by (auto simp: rq_in_window_succ distance_succ)
qed

lemma rq_peek_next_cursor:
  assumes inv: "rq_inv q" and free: "rq_index (rq_cursor q) \<notin> rq_occ q"
  shows "rq_peek (q\<lparr>rq_cursor := rq_cursor q + 1\<rparr>) s = rq_peek q s"
proof -
  have "rq_index (rq_cursor q) = rq_index (rq_cursor q + 64)"
    using distance_add [of "rq_cursor q" "rq_cursor q" 64] by (simp add: rq_index_eq_iff)
  then show ?thesis
    using free by (auto simp: rq_peek_eq [OF inv] rq_peek_eq [OF rq_inv_next_cursor [OF assms]] rq_in_window_succ)
qed

section \<open>Effect of the operations on the map\<close>

lemma rq_start_effect:
  assumes "rq_inv q"
  shows "rq_inv (rq_start q c)" "rq_peek (rq_start q c) = rq_peek q"
    "rq_started (rq_start q c)" "rq_occ (rq_start q c) = rq_occ q"
proof -
  show "rq_started (rq_start q c)" by (simp add: rq_start_def)
  show occ: "rq_occ (rq_start q c) = rq_occ q" by (simp add: rq_start_def rq_occ_def)
  show "rq_inv (rq_start q c)"
    using assms rq_occ_none [of q] occ by (auto simp: rq_start_def rq_inv_def)
  show "rq_peek (rq_start q c) = rq_peek q"
  proof (cases "rq_started q")
    case False
    have "rq_peek (rq_start q c) s = None" for s
      using rq_occ_none [OF False assms] by (simp add: rq_peek_eq \<open>rq_inv (rq_start q c)\<close> occ)
    moreover have "rq_peek q s = None" for s using False by (simp add: rq_peek_def)
    ultimately show ?thesis by (simp add: fun_eq_iff)
  qed (simp add: rq_start_def)
qed

lemma rq_resync_effect:
  assumes "rq_inv q"
  shows "rq_inv (rq_resync q c)" "rq_peek (rq_resync q c) s = None"
proof -
  have occ: "rq_occ (rq_resync q c) = {}" using assms by (simp add: rq_resync_def rq_occ_def)
  moreover have "\<forall>s \<in> set (rq_slots (rq_resync q c)). slot_ok s"
    using assms by (auto simp: rq_resync_def rq_inv_def)
  ultimately show inv: "rq_inv (rq_resync q c)"
    using assms by (intro rq_inv_empty) (simp_all add: rq_resync_def)
  show "rq_peek (rq_resync q c) s = None" using inv occ by (simp add: rq_peek_eq)
qed

lemma rq_reset_effect: "rq_inv q \<Longrightarrow> rq_inv (rq_reset q)" "rq_peek (rq_reset q) s = None"
proof -
  show "rq_inv (rq_reset q)" if "rq_inv q"
    using that by (intro rq_inv_empty) (auto simp: rq_reset_def rq_init_def rq_inv_def rq_occ_def)
  show "rq_peek (rq_reset q) s = None" by (simp add: rq_peek_def rq_reset_def rq_init_def)
qed

text \<open>The state an accepted insertion leaves.\<close>

definition fill_slot :: "frame_info \<Rightarrow> bytes \<Rightarrow> reorder_queue \<Rightarrow> reorder_queue" where
  "fill_slot info payload q =
     (let i = rq_index (info_seq info); s = rq_slots q ! i in
      q\<lparr>rq_slots := (rq_slots q)[i := s\<lparr>sl_info := info, sl_size := of_nat (length payload),
          sl_bytes := payload @ drop (length payload) (sl_bytes s), sl_occupied := True\<rparr>],
        rq_highest := (if rq_held q = 0 \<or> precedes (rq_highest q) (info_seq info)
                       then info_seq info else rq_highest q),
        rq_held := rq_held q + 1,
        rq_accepted := rq_accepted q + 1\<rparr>)"

lemma rq_held_0_iff: "rq_inv q \<Longrightarrow> rq_held q = 0 \<longleftrightarrow> rq_occ q = {}"
  by (metis card_0_eq rq_inv_def rq_occ_finite unat_eq_zero)

definition fillable :: "reorder_queue \<Rightarrow> frame_info \<Rightarrow> bytes \<Rightarrow> bool" where
  "fillable q info payload \<longleftrightarrow> rq_inv q \<and> rq_started q \<and>
     rq_in_window (rq_cursor q) (info_seq info) \<and> rq_index (info_seq info) \<notin> rq_occ q \<and>
     length payload \<le> 512"

lemma fillableD:
  assumes "fillable q info payload"
  shows "rq_inv q" "rq_started q" "rq_in_window (rq_cursor q) (info_seq info)"
    "rq_index (info_seq info) \<notin> rq_occ q" "length payload \<le> 512"
  using assms by (simp_all add: fillable_def)

lemma fill_occ: "rq_inv q \<Longrightarrow> rq_occ (fill_slot info payload q) = insert (rq_index (info_seq info)) (rq_occ q)"
  by (auto simp: fill_slot_def rq_occ_def Let_def nth_list_update split: if_splits)

lemma fill_slots:
  "rq_inv q \<Longrightarrow> rq_slots (fill_slot info payload q) ! i =
     (if i = rq_index (info_seq info)
      then (rq_slots q ! i)\<lparr>sl_info := info, sl_size := of_nat (length payload),
         sl_bytes := payload @ drop (length payload) (sl_bytes (rq_slots q ! i)), sl_occupied := True\<rparr>
      else rq_slots q ! i)"
  by (simp add: fill_slot_def Let_def nth_list_update)

lemma fill_slot_ok: "rq_inv q \<Longrightarrow> length payload \<le> 512 \<Longrightarrow> \<forall>s \<in> set (rq_slots (fill_slot info payload q)). slot_ok s"
proof -
  assume inv: "rq_inv q" and len: "length payload \<le> 512"
  have "\<forall>s \<in> set (rq_slots q). slot_ok s" "slot_ok (rq_slots q ! rq_index (info_seq info))"
    using inv by (auto simp: rq_inv_def)
  then have "\<forall>s \<in> set ((rq_slots q)[rq_index (info_seq info) := (rq_slots q ! rq_index (info_seq info))
      \<lparr>sl_info := info, sl_size := of_nat (length payload),
        sl_bytes := payload @ drop (length payload) (sl_bytes (rq_slots q ! rq_index (info_seq info))),
        sl_occupied := True\<rparr>]). slot_ok s"
    using len by (intro slot_ok_update) (simp_all add: slot_ok_def unat_of_nat_small)
  then show ?thesis by (simp add: fill_slot_def Let_def)
qed

lemma fill_highest:
  assumes inv: "rq_inv q" and win: "rq_in_window (rq_cursor q) (info_seq info)" and i: "i \<in> rq_occ (fill_slot info payload q)"
  shows "rq_in_window (rq_cursor q) (rq_highest (fill_slot info payload q)) \<and>
    distance (rq_cursor q) (slot_seq (fill_slot info payload q) i)
      \<le> distance (rq_cursor q) (rq_highest (fill_slot info payload q))"
proof -
  have hi: "precedes (rq_highest q) (info_seq info) \<longleftrightarrow>
      distance (rq_cursor q) (rq_highest q) < distance (rq_cursor q) (info_seq info)"
    if "rq_in_window (rq_cursor q) (rq_highest q)"
  proof -
    have "distance (rq_highest q) (rq_cursor q) = - distance (rq_cursor q) (rq_highest q)"
      using that by (intro distance_flip) (simp add: rq_in_window_def)
    then have "distance (rq_highest q) (info_seq info) =
        distance (rq_cursor q) (info_seq info) - distance (rq_cursor q) (rq_highest q)"
      using that win distance_trans [of "rq_highest q" "rq_cursor q" "info_seq info"]
      by (simp add: rq_in_window_def)
    then show ?thesis by (simp add: precedes_def)
  qed
  have sel: "rq_highest (fill_slot info payload q) =
      (if rq_occ q = {} \<or> precedes (rq_highest q) (info_seq info) then info_seq info else rq_highest q)"
    using rq_held_0_iff [OF inv] by (simp add: fill_slot_def Let_def)
  show ?thesis
  proof (cases "rq_occ q = {}")
    case True
    then show ?thesis using i inv win by (simp add: sel fill_occ fill_slots)
  next
    case False
    then obtain j where "j \<in> rq_occ q" by blast
    from rq_invD [OF inv this] have w: "rq_in_window (rq_cursor q) (rq_highest q)" by simp
    show ?thesis
    proof (cases "i = rq_index (info_seq info)")
      case True
      then show ?thesis using w hi [OF w] win inv by (simp add: sel fill_slots)
    next
      case False
      then have "i \<in> rq_occ q" using i inv by (simp add: fill_occ)
      from rq_invD [OF inv this] False show ?thesis
        using hi [OF w] win inv \<open>rq_occ q \<noteq> {}\<close> by (simp add: sel fill_slots)
    qed
  qed
qed

lemma fill_inv: "fillable q info payload \<Longrightarrow> rq_inv (fill_slot info payload q)"
proof -
  assume f: "fillable q info payload"
  note inv = fillableD(1) [OF f] and started = fillableD(2) [OF f] and win = fillableD(3) [OF f]
    and free = fillableD(4) [OF f] and len = fillableD(5) [OF f]
  have "unat (rq_held q) = card (rq_occ q)" using inv by (simp add: rq_inv_def)
  then have held: "unat (rq_held q + 1) = Suc (card (rq_occ q))"
    using rq_occ_card [of q] by (subst unat_plus_one) (auto simp: unsigned_minus_1_eq_mask mask_eq_exp_minus_1)
  have len64: "length (rq_slots (fill_slot info payload q)) = 64" "rq_started (fill_slot info payload q)"
    "rq_cursor (fill_slot info payload q) = rq_cursor q" "rq_held (fill_slot info payload q) = rq_held q + 1"
    using inv started by (simp_all add: fill_slot_def Let_def)
  have "rq_index (slot_seq (fill_slot info payload q) i) = i \<and>
      rq_in_window (rq_cursor q) (slot_seq (fill_slot info payload q) i)"
    if "i \<in> rq_occ (fill_slot info payload q)" for i
    using that rq_invD [OF inv] inv win by (auto simp: fill_occ fill_slots)
  then show ?thesis
    using fill_highest [OF inv win] fill_slot_ok [OF inv len] held free inv
    unfolding rq_inv_def [of "fill_slot info payload q"] len64 by (auto simp: fill_occ len64)
qed

lemma fill_peek:
  assumes f: "fillable q info payload"
  shows "rq_peek (fill_slot info payload q) s = (if s = info_seq info then Some (info, payload) else rq_peek q s)"
proof -
  note inv = fillableD(1) [OF f] and started = fillableD(2) [OF f] and win = fillableD(3) [OF f]
    and free = fillableD(4) [OF f] and len = fillableD(5) [OF f]
  show ?thesis
  proof (cases "s = info_seq info")
  case True
  have "rq_index (info_seq info) < length (rq_slots q)" using inv by simp
  then have "length (sl_bytes (rq_slots q ! rq_index (info_seq info))) = 512"
    using inv nth_mem by (fastforce simp: rq_inv_def slot_ok_def)
  then show ?thesis using True win len inv
    by (simp add: rq_peek_eq [OF fill_inv [OF f]] fill_occ fill_slots slot_frame_def unat_of_nat_small)
       (simp add: fill_slot_def Let_def)
next
  case False
  then have "rq_in_window (rq_cursor q) s \<Longrightarrow> rq_index s \<noteq> rq_index (info_seq info)"
    using win rq_window_no_alias by blast
  then show ?thesis using False inv
    by (auto simp: rq_peek_eq [OF fill_inv [OF f]] rq_peek_eq [OF inv] fill_occ fill_slots)
       (auto simp: fill_slot_def Let_def)
  qed
qed

text \<open>The outcome of \<open>insert\<close> on every branch, over the anchored queue.\<close>

definition rq_anchored :: "reorder_queue \<Rightarrow> frame_info \<Rightarrow> reorder_queue" where
  "rq_anchored q info = (if rq_started q then q else rq_start q (info_seq info))"

lemma rq_anchored_effect:
  assumes "rq_inv q"
  shows "rq_inv (rq_anchored q info)" "rq_peek (rq_anchored q info) = rq_peek q"
    "rq_started (rq_anchored q info)"
  using assms rq_start_effect [OF assms] by (simp_all add: rq_anchored_def)

definition rq_verdict :: "reorder_queue \<Rightarrow> frame_info \<Rightarrow> bytes \<Rightarrow> micros \<Rightarrow> rq_insert_result" where
  "rq_verdict q info payload now =
     (let d = distance (rq_cursor (rq_anchored q info)) (info_seq info) in
      if 512 < length payload then InsOversized
      else if d \<le> - 64 then InsTooOld
      else if d < 0 then InsLate
      else if 64 \<le> d then InsTooFarAhead
      else if fi_deadline_us info < now then InsLate
      else if rq_peek q (info_seq info) \<noteq> None then InsDuplicate
      else InsAccepted)"

lemma rq_insert_unfold:
  "rq_insert q info payload now =
     (if length payload > rq_max_payload then (InsOversized, q\<lparr>rq_oversized := rq_oversized q + 1\<rparr>)
      else
        let q = rq_anchored q info; offset = distance (rq_cursor q) (info_seq info) in
        if offset < 0 then
          (if offset > - rq_window then (InsLate, q\<lparr>rq_late := rq_late q + 1\<rparr>)
           else (InsTooOld, q\<lparr>rq_too_old := rq_too_old q + 1\<rparr>))
        else if offset \<ge> rq_window then (InsTooFarAhead, q\<lparr>rq_too_far_ahead := rq_too_far_ahead q + 1\<rparr>)
        else if now > fi_deadline_us info then (InsLate, q\<lparr>rq_late := rq_late q + 1\<rparr>)
        else if sl_occupied (rq_slots q ! rq_index (info_seq info))
          then (InsDuplicate, q\<lparr>rq_duplicates := rq_duplicates q + 1\<rparr>)
          else (InsAccepted, fill_slot info payload q))"
  by (simp add: rq_insert_def rq_anchored_def Let_def fill_slot_def)

lemma rq_insert_verdict:
  assumes "rq_inv q"
  shows "fst (rq_insert q info payload now) = rq_verdict q info payload now"
proof -
  let ?a = "rq_anchored q info"
  have "rq_in_window (rq_cursor ?a) (info_seq info) \<Longrightarrow>
      rq_peek q (info_seq info) \<noteq> None \<longleftrightarrow> sl_occupied (rq_slots ?a ! rq_index (info_seq info))"
    using rq_peek_eq [OF rq_anchored_effect(1) [OF assms], of info "info_seq info"]
    by (simp add: rq_anchored_effect(2) [OF assms] rq_occ_def)
  then show ?thesis
    by (auto simp: rq_insert_unfold rq_verdict_def rq_consts Let_def rq_in_window_def)
qed

lemma rq_insert_fillable:
  assumes "rq_inv q" "fst (rq_insert q info payload now) = InsAccepted"
  shows "fillable (rq_anchored q info) info payload"
    "snd (rq_insert q info payload now) = fill_slot info payload (rq_anchored q info)"
  using assms rq_anchored_effect [OF assms(1), of info]
  by (auto simp: rq_insert_unfold fillable_def rq_consts rq_in_window_def rq_occ_def Let_def split: if_splits)

lemma rq_insert_rejected:
  assumes "rq_inv q" "fst (rq_insert q info payload now) \<noteq> InsAccepted"
  shows "rq_inv (snd (rq_insert q info payload now))"
    "rq_peek (snd (rq_insert q info payload now)) = rq_peek q"
  using assms rq_anchored_effect [OF assms(1), of info]
  by (auto simp: rq_insert_unfold Let_def split: if_splits)

lemma rq_insert_inv [inv_intros]: "rq_inv q \<Longrightarrow> rq_inv (snd (rq_insert q info payload now))"
  using rq_insert_rejected(1) [of q info payload now] rq_insert_fillable [of q info payload now] fill_inv
  by (cases "fst (rq_insert q info payload now) = InsAccepted") auto

lemma rq_insert_peek:
  assumes "rq_inv q"
  shows "rq_peek (snd (rq_insert q info payload now)) =
    (if rq_verdict q info payload now = InsAccepted
     then (rq_peek q)(info_seq info \<mapsto> (info, payload)) else rq_peek q)"
proof (cases "rq_verdict q info payload now = InsAccepted")
  case True
  then have "fst (rq_insert q info payload now) = InsAccepted" by (simp add: rq_insert_verdict [OF assms])
  from rq_insert_fillable [OF assms this] show ?thesis
    using True by (auto simp: fill_peek rq_anchored_effect(2) [OF assms] fun_eq_iff)
next
  case False
  then show ?thesis using rq_insert_rejected(2) [OF assms] by (simp add: rq_insert_verdict [OF assms])
qed

lemma rq_insert_cursor:
  "rq_cursor (snd (rq_insert q info payload now)) =
     (if rq_started q \<or> 512 < length payload then rq_cursor q else info_seq info)"
  by (simp add: rq_insert_unfold rq_anchored_def rq_start_def fill_slot_def rq_consts Let_def)

text \<open>One position of the cursor.\<close>

lemma rq_step_once_eq:
  assumes "rq_inv q"
  shows "rq_step_once q =
    (if rq_peek_next q \<noteq> None
     then (Delivered, (vacate_slot (rq_index (rq_cursor q)) q)\<lparr>rq_cursor := rq_cursor q + 1\<rparr>)
     else (Gap, q\<lparr>rq_cursor := rq_cursor q + 1\<rparr>))"
  using rq_peek_eq [OF assms, of "rq_cursor q"] rq_slot_seq [OF assms, of "rq_cursor q"]
  by (auto simp: rq_step_once_def rq_peek_next_def rq_occ_def vacate_slot_def Let_def)

lemma rq_step_once_effect:
  assumes "rq_inv q"
  shows "rq_inv (snd (rq_step_once q))"
    "rq_peek (snd (rq_step_once q)) = (rq_peek q)(rq_cursor q := None)"
    "fst (rq_step_once q) = (if rq_peek_next q \<noteq> None then Delivered else Gap)"
    "rq_cursor (snd (rq_step_once q)) = rq_cursor q + 1"
proof -
  let ?i = "rq_index (rq_cursor q)"
  show "fst (rq_step_once q) = (if rq_peek_next q \<noteq> None then Delivered else Gap)"
    "rq_cursor (snd (rq_step_once q)) = rq_cursor q + 1"
    by (simp_all add: rq_step_once_eq [OF assms])
  have "rq_inv (snd (rq_step_once q)) \<and> rq_peek (snd (rq_step_once q)) = (rq_peek q)(rq_cursor q := None)"
  proof (cases "rq_peek_next q = None")
    case True
    then have "?i \<notin> rq_occ q" using rq_peek_eq [OF assms, of "rq_cursor q"]
      by (auto simp: rq_peek_next_def)
    with True show ?thesis using rq_inv_next_cursor [OF assms] rq_peek_next_cursor [OF assms]
      by (simp add: rq_step_once_eq [OF assms] rq_peek_next_def fun_eq_iff)
  next
    case False
    then have occ: "?i \<in> rq_occ q" using rq_peek_eq [OF assms, of "rq_cursor q"]
      by (auto simp: rq_peek_next_def split: if_splits)
    have seq: "slot_seq q ?i = rq_cursor q"
      using occ by (intro rq_slot_seq [OF assms]) (simp_all add: rq_occ_def)
    note v = rq_inv_vacate_slot [OF assms occ] rq_peek_vacate_slot [OF assms occ]
    have "?i \<notin> rq_occ (vacate_slot ?i q)" by (simp add: rq_occ_vacate_slot [OF assms])
    then show ?thesis
      using False rq_inv_next_cursor [OF v(1)] rq_peek_next_cursor [OF v(1)]
      by (simp add: rq_step_once_eq [OF assms] fun_eq_iff v(2) seq)
  qed
  then show "rq_inv (snd (rq_step_once q))"
    "rq_peek (snd (rq_step_once q)) = (rq_peek q)(rq_cursor q := None)" by simp_all
qed

lemma rq_advance_effect:
  assumes "rq_inv q"
  shows "rq_inv (snd (rq_advance q))"
    "rq_peek (snd (rq_advance q)) = (rq_peek q)(rq_cursor q := None)"
    "fst (rq_advance q) = (if rq_peek_next q \<noteq> None then Delivered else Gap)"
    "rq_cursor (snd (rq_advance q)) = (if rq_started q then rq_cursor q + 1 else rq_cursor q)"
proof -
  have none: "\<not> rq_started q \<Longrightarrow> rq_peek q = (\<lambda>_. None)" by (simp add: rq_peek_def fun_eq_iff)
  show "rq_inv (snd (rq_advance q))"
    "rq_peek (snd (rq_advance q)) = (rq_peek q)(rq_cursor q := None)"
    "fst (rq_advance q) = (if rq_peek_next q \<noteq> None then Delivered else Gap)"
    "rq_cursor (snd (rq_advance q)) = (if rq_started q then rq_cursor q + 1 else rq_cursor q)"
    using assms none rq_step_once_effect [OF assms]
    by (auto simp: rq_advance_def rq_peek_next_def split: prod.splits)
qed

lemma skip_one_eq:
  "skip_one q = (snd (rq_step_once q))\<lparr>rq_discarded :=
     (if fst (rq_step_once q) = Delivered then rq_discarded q + 1 else rq_discarded q)\<rparr>"
  by (simp add: skip_one_def rq_step_once_def Let_def)

lemma skip_steps_effect:
  assumes "rq_inv q"
  shows "rq_inv (skip_steps n q)" "rq_cursor (skip_steps n q) = rq_cursor q + of_nat n"
    "rq_peek (skip_steps n q) s = (if \<exists>k<n. s = rq_cursor q + of_nat k then None else rq_peek q s)"
    "rq_started (skip_steps n q) = rq_started q"
proof -
  have st: "rq_started (skip_one r) = rq_started r" for r
    by (simp add: skip_one_def Let_def)
  have "rq_inv (skip_steps n q) \<and> rq_cursor (skip_steps n q) = rq_cursor q + of_nat n \<and>
    rq_peek (skip_steps n q) s = (if \<exists>k<n. s = rq_cursor q + of_nat k then None else rq_peek q s) \<and>
    rq_started (skip_steps n q) = rq_started q"
    using assms
  proof (induction n arbitrary: q)
    case (Suc n)
    note e = rq_step_once_effect [OF Suc.prems]
    have "rq_inv (skip_one q)" "rq_cursor (skip_one q) = rq_cursor q + 1"
      "rq_peek (skip_one q) = (rq_peek q)(rq_cursor q := None)"
      using e by (simp_all add: skip_one_eq)
    with Suc.IH [of "skip_one q"] show ?case
      by (auto simp: st add.assoc Ex_less_Suc2 simp del: of_nat_Suc) auto
  qed simp
  then show "rq_inv (skip_steps n q)" "rq_cursor (skip_steps n q) = rq_cursor q + of_nat n"
    "rq_peek (skip_steps n q) s = (if \<exists>k<n. s = rq_cursor q + of_nat k then None else rq_peek q s)"
    "rq_started (skip_steps n q) = rq_started q"
    by simp_all
qed

lemma rq_in_window_after_skip:
  assumes "0 < distance c t" "rq_in_window c s"
  shows "rq_in_window t s \<longleftrightarrow> (\<forall>k < nat (distance c t). s \<noteq> c + of_nat k)"
proof -
  define d where "d = distance c s"
  have d: "0 \<le> d" "d < 64" using assms(2) by (simp_all add: rq_in_window_def d_def)
  have s: "s = c + of_int d" by (simp add: d_def of_int_distance)
  have "distance t c = - distance c t"
    using assms(1) by (intro distance_flip) simp
  then have ts: "distance t s = d - distance c t"
    using d assms(1) distance_range(2) [of c t] distance_trans [of t c s] by (simp add: d_def)
  have "s = c + of_nat k \<longleftrightarrow> int k = d" if "k < nat (distance c t)" for k
  proof -
    have "int k < 2 ^ 31" using that distance_range(2) [of c t] by simp
    then have "distance c (c + of_nat k) = int k" using distance_add [of c c "int k"] by simp
    then show ?thesis using s d_def by (metis of_int_of_nat_eq)
  qed
  then have "(\<forall>k < nat (distance c t). s \<noteq> c + of_nat k) \<longleftrightarrow> (\<forall>k < nat (distance c t). int k \<noteq> d)"
    by blast
  also have "\<dots> \<longleftrightarrow> distance c t \<le> d"
  proof
    assume a: "\<forall>k < nat (distance c t). int k \<noteq> d"
    show "distance c t \<le> d"
    proof (rule ccontr)
      assume "\<not> distance c t \<le> d"
      then have "nat d < nat (distance c t)" "int (nat d) = d" using d by simp_all
      with a show False by blast
    qed
  qed (use d in auto)
  finally show ?thesis using ts d assms(1) by (auto simp: rq_in_window_def)
qed

lemma rq_skip_to_effect:
  assumes "rq_inv q"
  shows "rq_inv (snd (rq_skip_to q t))"
    "rq_peek (snd (rq_skip_to q t)) s =
       (if fst (rq_skip_to q t) = 0 \<or> rq_in_window t s then rq_peek q s else None)"
    "rq_cursor (snd (rq_skip_to q t)) = (if fst (rq_skip_to q t) = 0 then rq_cursor q else t)"
    "fst (rq_skip_to q t) = (if rq_started q then nat (distance (rq_cursor q) t) else 0)"
proof -
  let ?d = "distance (rq_cursor q) t" and ?c = "rq_cursor q"
  show fst: "fst (rq_skip_to q t) = (if rq_started q then nat ?d else 0)"
    by (simp add: rq_skip_to_def Let_def)
  show "rq_cursor (snd (rq_skip_to q t)) = (if fst (rq_skip_to q t) = 0 then ?c else t)"
    by (simp add: rq_skip_to_def Let_def)
  have "rq_inv (snd (rq_skip_to q t)) \<and> rq_peek (snd (rq_skip_to q t)) s =
       (if fst (rq_skip_to q t) = 0 \<or> rq_in_window t s then rq_peek q s else None)"
  proof (cases "rq_started q \<and> 0 < ?d")
    case False
    then show ?thesis using assms by (auto simp: rq_skip_to_def Let_def)
  next
    case True
    define r where "r = skip_steps (min (nat ?d) 64) q"
    note e = skip_steps_effect [OF assms, of "min (nat ?d) 64", folded r_def]
    have res: "snd (rq_skip_to q t) = (r\<lparr>rq_cursor := t\<rparr>)\<lparr>rq_gaps := rq_gaps r + of_nat (nat ?d)\<rparr>"
      using True by (simp add: rq_skip_to_def Let_def r_def rq_consts)
    have gone: "rq_in_window t s \<Longrightarrow> rq_peek q s \<noteq> None \<Longrightarrow> \<forall>k < nat ?d. s \<noteq> ?c + of_nat k" for s
      using rq_in_window_after_skip [of ?c t s] True rq_peek_eq [OF assms, of s] by (auto split: if_splits)
    have "rq_inv (r\<lparr>rq_cursor := t\<rparr>) \<and>
      rq_peek (r\<lparr>rq_cursor := t\<rparr>) s = (if rq_in_window t s then rq_peek q s else None)"
    proof (cases "nat ?d \<le> 64")
      case near: True
      have "rq_cursor r = t" using near True e(2)
        by (simp add: min_def of_int_distance of_nat_nat)
      then have same: "r\<lparr>rq_cursor := t\<rparr> = r" by simp
      have "rq_in_window t s \<Longrightarrow> rq_peek r s = rq_peek q s"
        using e(3) [of s] gone [of s] near by (cases "rq_peek q s = None") (simp_all only: min_def if_True if_cancel, auto)
      moreover have "\<not> rq_in_window t s \<Longrightarrow> rq_peek r s = None"
        using rq_peek_eq [OF e(1), of s] \<open>rq_cursor r = t\<close> by simp
      ultimately show ?thesis using e(1) by (simp add: same)
    next
      case far: False
      have pos: "\<exists>k<64. s = ?c + of_nat k" if "rq_in_window ?c s" for s
      proof -
        have "nat (distance ?c s) < nat 64" "s = ?c + of_nat (nat (distance ?c s))"
          using that by (simp_all only: rq_in_window_def nat_mono_iff of_nat_nat) (simp_all add: of_int_distance)
        then show ?thesis by auto
      qed
      have "rq_peek r s = None" for s
        using e(3) [of s] rq_peek_eq [OF assms, of s] pos [of s] far by (auto simp: min_def)
      then have occ: "rq_occ r = {}"
        using rq_peek_eq [OF e(1)] rq_invD [OF e(1)] by (metis equals0I option.distinct(1))
      then have inv: "rq_inv (r\<lparr>rq_cursor := t\<rparr>)" using e(1) rq_held_0_iff [OF e(1)] by (intro rq_inv_empty) (auto simp: rq_inv_def)
      have "rq_in_window t s \<Longrightarrow> rq_peek q s = None"
      proof (rule ccontr)
        assume w: "rq_in_window t s" and ne: "rq_peek q s \<noteq> None"
        then have "rq_in_window ?c s" using rq_peek_eq [OF assms, of s] by (auto split: if_splits)
        then obtain k where "k < 64" "s = ?c + of_nat k" using pos by blast
        moreover have "k < nat ?d" using \<open>k < 64\<close> far by simp
        ultimately show False using gone [OF w ne] by blast
      qed
      then show ?thesis using inv occ by (simp add: rq_peek_eq [OF inv])
    qed
    then show ?thesis using True fst by (simp add: res)
  qed
  then show "rq_inv (snd (rq_skip_to q t))" "rq_peek (snd (rq_skip_to q t)) s =
       (if fst (rq_skip_to q t) = 0 \<or> rq_in_window t s then rq_peek q s else None)"
    by simp_all
qed

text \<open>The sweep of \<open>drop_expired\<close>, slot by slot.\<close>

definition expired_at :: "micros \<Rightarrow> frame option \<Rightarrow> bool" where
  "expired_at now f \<longleftrightarrow> (\<exists>info p. f = Some (info, p) \<and> fi_deadline_us info < now)"

lemma drop_slot_eq:
  "drop_slot now (d, q) i =
     (if sl_occupied (rq_slots q ! i) \<and> now > fi_deadline_us (sl_info (rq_slots q ! i))
      then (d + 1, (vacate_slot i q)\<lparr>rq_expired := rq_expired q + 1\<rparr>) else (d, q))"
  by (simp add: drop_slot_def vacate_slot_def Let_def)

lemma rq_drop_prefix:
  fixes now :: micros
  assumes "rq_inv q" "n \<le> 64"
  defines "r \<equiv> snd (foldl (drop_slot now) (0, q) [0..<n])"
  shows "rq_inv r" "rq_cursor r = rq_cursor q" "rq_started r = rq_started q" "rq_highest r = rq_highest q"
    "rq_peek r s = (if rq_index s < n \<and> expired_at now (rq_peek q s) then None else rq_peek q s)"
proof -
  have "rq_inv (snd (foldl (drop_slot now) (0, q) [0..<n])) \<and>
    rq_cursor (snd (foldl (drop_slot now) (0, q) [0..<n])) = rq_cursor q \<and>
    rq_started (snd (foldl (drop_slot now) (0, q) [0..<n])) = rq_started q \<and>
    rq_highest (snd (foldl (drop_slot now) (0, q) [0..<n])) = rq_highest q \<and>
    (\<forall>s. rq_peek (snd (foldl (drop_slot now) (0, q) [0..<n])) s =
      (if rq_index s < n \<and> expired_at now (rq_peek q s) then None else rq_peek q s))"
    using assms(2)
  proof (induction n)
    case (Suc n)
    obtain d p where dp: "foldl (drop_slot now) (0, q) [0..<n] = (d, p)" by fastforce
    have p: "rq_inv p" "rq_cursor p = rq_cursor q" "rq_started p = rq_started q" "rq_highest p = rq_highest q"
      and peek: "\<And>s. rq_peek p s = (if rq_index s < n \<and> expired_at now (rq_peek q s) then None else rq_peek q s)"
      using Suc dp by auto
    have n: "n < 64" using Suc.prems by simp
    show ?case
    proof (cases "n \<in> rq_occ p \<and> fi_deadline_us (sl_info (rq_slots p ! n)) < now")
      case True
      then have occ: "n \<in> rq_occ p" by simp
      note i = rq_invD [OF p(1) occ]
      have res: "foldl (drop_slot now) (0, q) [0..<Suc n] =
          (d + 1, (vacate_slot n p)\<lparr>rq_expired := rq_expired p + 1\<rparr>)"
        using True by (simp add: dp drop_slot_eq rq_occ_def)
      have "rq_peek p (slot_seq p n) = Some (slot_frame (rq_slots p ! n))"
        using i occ by (simp add: rq_peek_eq [OF p(1)])
      then have ex: "expired_at now (rq_peek q (slot_seq p n))"
        using True peek [of "slot_seq p n"] i by (auto simp: expired_at_def slot_frame_def split: if_splits)
      have other: "rq_peek p s = None" if "rq_index s = n" "s \<noteq> slot_seq p n" for s
        using that i rq_peek_eq [OF p(1), of s] by (auto dest: rq_window_no_alias)
      then have "rq_peek (vacate_slot n p) s =
          (if rq_index s < Suc n \<and> expired_at now (rq_peek q s) then None else rq_peek q s)" for s
        using ex i(2) peek [of s] other [of s]
        by (cases "rq_index s = n"; cases "s = slot_seq p n")
           (auto simp: rq_peek_vacate_slot [OF p(1) occ] less_Suc_eq)
      then show ?thesis unfolding res using rq_inv_vacate_slot [OF p(1) occ] p by simp
    next
      case False
      then have res: "foldl (drop_slot now) (0, q) [0..<Suc n] = (d, p)"
        using n by (auto simp: dp drop_slot_eq rq_occ_def)
      have live: "\<not> expired_at now (rq_peek p s)" if "rq_index s = n" for s
        using False that rq_peek_eq [OF p(1), of s] by (auto simp: expired_at_def slot_frame_def)
      then have "rq_peek p s =
          (if rq_index s < Suc n \<and> expired_at now (rq_peek q s) then None else rq_peek q s)" for s
        using peek [of s] live [of s] by (cases "rq_index s = n") (auto simp: less_Suc_eq)
      then show ?thesis unfolding res using p by simp
    qed
  qed (use assms in simp)
  then show "rq_inv r" "rq_cursor r = rq_cursor q" "rq_started r = rq_started q" "rq_highest r = rq_highest q"
    "rq_peek r s = (if rq_index s < n \<and> expired_at now (rq_peek q s) then None else rq_peek q s)"
    by (auto simp: r_def)
qed

lemma rq_drop_expired_effect:
  assumes "rq_inv q"
  shows "rq_inv (snd (rq_drop_expired q now))" "rq_cursor (snd (rq_drop_expired q now)) = rq_cursor q"
    "rq_started (snd (rq_drop_expired q now)) = rq_started q"
    "rq_highest (snd (rq_drop_expired q now)) = rq_highest q"
    "rq_peek (snd (rq_drop_expired q now)) s = (if expired_at now (rq_peek q s) then None else rq_peek q s)"
  using rq_drop_prefix [OF assms, of 64 now] by (simp_all add: rq_drop_expired_def rq_consts)

section \<open>Events and accounts\<close>

datatype rq_event =
    EvInsert frame_info bytes micros
  | EvStart u32
  | EvAdvance
  | EvSkip u32
  | EvDrop micros
  | EvResync u32

fun rq_event_step :: "reorder_queue \<Rightarrow> rq_event \<Rightarrow> reorder_queue" where
  "rq_event_step q (EvInsert info payload now) = snd (rq_insert q info payload now)"
| "rq_event_step q (EvStart s) = rq_start q s"
| "rq_event_step q EvAdvance = snd (rq_advance q)"
| "rq_event_step q (EvSkip s) = snd (rq_skip_to q s)"
| "rq_event_step q (EvDrop now) = snd (rq_drop_expired q now)"
| "rq_event_step q (EvResync s) = rq_resync q s"

definition rq_run :: "reorder_queue \<Rightarrow> rq_event list \<Rightarrow> reorder_queue" where
  "rq_run = foldl rq_event_step"

lemma rq_event_inv: "rq_inv q \<Longrightarrow> rq_inv (rq_event_step q e)"
  by (cases e) (simp_all add: rq_insert_inv rq_start_effect rq_advance_effect rq_skip_to_effect
    rq_drop_expired_effect rq_resync_effect)

text \<open>Arrivals: every insertion moves exactly one of six counters.\<close>

definition rq_arrivals :: "reorder_queue \<Rightarrow> u64" where
  "rq_arrivals q = rq_accepted q + rq_duplicates q + rq_late q + rq_too_old q + rq_too_far_ahead q +
     rq_oversized q"

definition arrival_weight :: "rq_event \<Rightarrow> u64" where
  "arrival_weight e = (case e of EvInsert _ _ _ \<Rightarrow> 1 | _ \<Rightarrow> 0)"

text \<open>Frames: every accepted frame is held, delivered, expired, discarded, or was dropped by a resync.\<close>

definition rq_frames :: "reorder_queue \<Rightarrow> u64" where
  "rq_frames q = rq_held q + rq_delivered q + rq_expired q + rq_discarded q"

definition rq_ledger_step :: "reorder_queue \<times> u64 \<Rightarrow> rq_event \<Rightarrow> reorder_queue \<times> u64" where
  "rq_ledger_step = (\<lambda>(q, cleared) e. (rq_event_step q e,
     case e of EvResync _ \<Rightarrow> cleared + rq_held q | _ \<Rightarrow> cleared))"

definition rq_balance :: "reorder_queue \<times> u64 \<Rightarrow> u64" where
  "rq_balance = (\<lambda>(q, cleared). rq_accepted q - (rq_frames q + cleared))"

lemma skip_steps_counters:
  "rq_arrivals (skip_steps n q) = rq_arrivals q" "rq_accepted (skip_steps n q) = rq_accepted q"
  "rq_frames (skip_steps n q) = rq_frames q"
proof -
  have "rq_arrivals (skip_one q) = rq_arrivals q \<and> rq_accepted (skip_one q) = rq_accepted q \<and>
      rq_frames (skip_one q) = rq_frames q" for q
    by (simp add: skip_one_def rq_arrivals_def rq_frames_def Let_def)
  then show "rq_arrivals (skip_steps n q) = rq_arrivals q" "rq_accepted (skip_steps n q) = rq_accepted q"
    "rq_frames (skip_steps n q) = rq_frames q"
    by (induction n arbitrary: q) simp_all
qed

lemma drop_counters:
  "rq_arrivals (snd (foldl (drop_slot now) dq is)) = rq_arrivals (snd dq)"
  "rq_accepted (snd (foldl (drop_slot now) dq is)) = rq_accepted (snd dq)"
  "rq_frames (snd (foldl (drop_slot now) dq is)) = rq_frames (snd dq)"
proof -
  have "rq_arrivals (snd (drop_slot now dq i)) = rq_arrivals (snd dq) \<and>
      rq_accepted (snd (drop_slot now dq i)) = rq_accepted (snd dq) \<and>
      rq_frames (snd (drop_slot now dq i)) = rq_frames (snd dq)" for dq i
    by (simp add: drop_slot_def rq_arrivals_def rq_frames_def Let_def split: prod.splits)
  then show "rq_arrivals (snd (foldl (drop_slot now) dq is)) = rq_arrivals (snd dq)"
    "rq_accepted (snd (foldl (drop_slot now) dq is)) = rq_accepted (snd dq)"
    "rq_frames (snd (foldl (drop_slot now) dq is)) = rq_frames (snd dq)"
    by (induction "is" arbitrary: dq) simp_all
qed

lemma rq_insert_counters:
  "rq_arrivals (snd (rq_insert q info payload now)) = rq_arrivals q + 1"
  "rq_accepted (snd (rq_insert q info payload now)) - rq_frames (snd (rq_insert q info payload now))
     = rq_accepted q - rq_frames q"
  by (simp_all add: rq_insert_unfold rq_anchored_def rq_start_def fill_slot_def rq_arrivals_def
    rq_frames_def Let_def)

lemma rq_advance_counters:
  "rq_arrivals (snd (rq_advance q)) = rq_arrivals q" "rq_accepted (snd (rq_advance q)) = rq_accepted q"
  "rq_frames (snd (rq_advance q)) = rq_frames q"
  by (simp_all add: rq_advance_def rq_step_once_def rq_arrivals_def rq_frames_def Let_def)

lemma rq_skip_to_counters:
  "rq_arrivals (snd (rq_skip_to q s)) = rq_arrivals q" "rq_accepted (snd (rq_skip_to q s)) = rq_accepted q"
  "rq_frames (snd (rq_skip_to q s)) = rq_frames q"
  using skip_steps_counters [of _ q]
  by (simp_all add: rq_skip_to_def rq_arrivals_def rq_frames_def Let_def)

lemma rq_event_arrivals: "rq_arrivals (rq_event_step q e) = rq_arrivals q + arrival_weight e"
  using drop_counters [of _ "(0, q)"]
  by (cases e) (simp_all add: arrival_weight_def rq_insert_counters rq_advance_counters
    rq_skip_to_counters rq_drop_expired_def,
    simp_all add: rq_arrivals_def rq_start_def rq_resync_def)

lemma rq_ledger_balance: "rq_balance (rq_ledger_step (q, c) e) = rq_balance (q, c)"
  using drop_counters [of _ "(0, q)"] rq_insert_counters(2) [of q]
  by (cases e) (simp_all add: rq_balance_def rq_ledger_step_def rq_advance_counters
    rq_skip_to_counters rq_drop_expired_def diff_diff_eq [symmetric],
    simp_all add: rq_frames_def rq_start_def rq_resync_def)

interpretation rqa: accounting_machine rq_event_step rq_inv rq_arrivals arrival_weight
  by unfold_locales (simp_all add: rq_event_inv rq_event_arrivals)

interpretation rql: accounting_machine rq_ledger_step "\<lambda>p. rq_inv (fst p)" rq_balance "\<lambda>_. 0"
  by unfold_locales
    (auto simp: rq_ledger_balance rq_event_inv simp del: rq_event_step.simps,
     auto simp: rq_ledger_step_def rq_event_inv simp del: rq_event_step.simps)

section \<open>Interface: a store of frames behind a cursor\<close>

text \<open>
  What a consumer of the queue relies on: a frame that can be looked up was offered under that
  key, and it stays until an event that does not keep it or a cursor that no longer reaches it.
\<close>

locale frame_store = invariant_machine step inv
  for step :: "'s \<Rightarrow> 'e \<Rightarrow> 's" and inv :: "'s \<Rightarrow> bool" +
  fixes look :: "'s \<Rightarrow> 'k \<Rightarrow> 'f option"
    and reach :: "'s \<Rightarrow> 'k \<Rightarrow> bool"
    and offers :: "'e \<Rightarrow> 'k \<Rightarrow> 'f \<Rightarrow> bool"
    and keeps :: "'e \<Rightarrow> 'f \<Rightarrow> bool"
  assumes look_origin: "inv s \<Longrightarrow> look (step s e) k = Some f \<Longrightarrow> look s k = Some f \<or> offers e k f"
    and look_kept: "inv s \<Longrightarrow> look s k = Some f \<Longrightarrow> keeps e f \<Longrightarrow> reach (step s e) k \<Longrightarrow>
      look (step s e) k = Some f"
begin

lemma run_origin:
  "inv s \<Longrightarrow> look (foldl step s es) k = Some f \<Longrightarrow> look s k = Some f \<or> (\<exists>e \<in> set es. offers e k f)"
proof (induction es arbitrary: s)
  case (Cons e es)
  from Cons.IH [OF step_inv [OF Cons.prems(1), of e]] Cons.prems look_origin [of s e k f]
  show ?case by auto
qed simp

lemma run_kept:
  "inv s \<Longrightarrow> look s k = Some f \<Longrightarrow> \<forall>e \<in> set es. keeps e f \<Longrightarrow>
   \<forall>n \<le> length es. reach (foldl step s (take n es)) k \<Longrightarrow> look (foldl step s es) k = Some f"
proof (induction es arbitrary: s)
  case (Cons e es)
  have "reach (step s e) k" using Cons.prems(4) by (auto dest: spec [of _ 1])
  then have "look (step s e) k = Some f" using Cons.prems look_kept [of s k f e] by simp
  moreover have "\<forall>n \<le> length es. reach (foldl step (step s e) (take n es)) k"
  proof (intro allI impI)
    fix n assume "n \<le> length es"
    then show "reach (foldl step (step s e) (take n es)) k"
      using Cons.prems(4) by (auto dest: spec [of _ "Suc n"])
  qed
  ultimately show ?case using Cons.IH [of "step s e"] Cons.prems step_inv [of s e] by simp
qed simp

end

definition rq_reach :: "reorder_queue \<Rightarrow> u32 \<Rightarrow> bool" where
  "rq_reach q s \<longleftrightarrow> rq_in_window (rq_cursor q) s"

definition rq_offers :: "rq_event \<Rightarrow> u32 \<Rightarrow> frame \<Rightarrow> bool" where
  "rq_offers e s f = (case e of
     EvInsert info payload now \<Rightarrow> f = (info, payload) \<and> s = info_seq info \<and>
       now \<le> fi_deadline_us info \<and> length payload \<le> 512
   | _ \<Rightarrow> False)"

definition rq_keeps :: "rq_event \<Rightarrow> frame \<Rightarrow> bool" where
  "rq_keeps e f = (case e of
     EvDrop now \<Rightarrow> now \<le> fi_deadline_us (fst f) | EvResync _ \<Rightarrow> False | _ \<Rightarrow> True)"

lemma rq_verdict_accepted:
  "rq_verdict q info payload now = InsAccepted \<Longrightarrow>
   now \<le> fi_deadline_us info \<and> length payload \<le> 512 \<and> rq_peek q (info_seq info) = None"
  by (cases "rq_peek q (info_seq info)") (simp_all add: rq_verdict_def Let_def linorder_not_less split: if_splits)

lemma rq_look_origin:
  assumes "rq_inv q" "rq_peek (rq_event_step q e) s = Some f"
  shows "rq_peek q s = Some f \<or> rq_offers e s f"
proof (cases e)
  case (EvInsert info payload now)
  then show ?thesis using assms rq_verdict_accepted [of q info payload now]
    by (auto simp: rq_insert_peek rq_offers_def split: if_splits)
qed (use assms in \<open>auto simp: rq_start_effect rq_advance_effect rq_skip_to_effect
  rq_drop_expired_effect rq_resync_effect split: if_splits\<close>)

lemma rq_look_kept:
  assumes "rq_inv q" "rq_peek q s = Some f" "rq_keeps e f" "rq_reach (rq_event_step q e) s"
  shows "rq_peek (rq_event_step q e) s = Some f"
proof (cases e)
  case (EvInsert info payload now)
  then show ?thesis using assms rq_verdict_accepted [of q info payload now]
    by (auto simp: rq_insert_peek)
next
  case EvAdvance
  have "rq_started q" using assms(2) by (auto simp: rq_peek_def split: if_splits)
  moreover have "s \<noteq> rq_cursor q" if "rq_in_window (rq_cursor q + 1) s"
    using that distance_from_add [of "rq_cursor q" "rq_cursor q" 1] by (auto simp: rq_in_window_def)
  ultimately show ?thesis using EvAdvance assms by (simp add: rq_advance_effect rq_reach_def)
next
  case (EvSkip t)
  then show ?thesis using assms by (auto simp: rq_skip_to_effect(1,2,3) rq_reach_def split: if_splits)
qed (use assms in \<open>auto simp: rq_start_effect rq_drop_expired_effect rq_resync_effect rq_keeps_def
  expired_at_def\<close>)

interpretation rqs: frame_store rq_event_step rq_inv rq_peek rq_reach rq_offers rq_keeps
  by unfold_locales (blast intro: rq_event_inv dest: rq_look_origin rq_look_kept)+

lemma rq_inv_run: "rq_inv (rq_run rq_init es)"
  unfolding rq_run_def by (rule rqa.run_inv) simp

section \<open>A run with an expired frame\<close>

definition depth_info :: "u32 \<Rightarrow> micros \<Rightarrow> frame_info" where
  "depth_info s d = \<lparr>fi_header = empty_header\<lparr>mh_sequence := s\<rparr>, fi_arrival_us = 0, fi_deadline_us = d\<rparr>"

definition depth_run :: "rq_event list" where
  "depth_run = [EvInsert (depth_info 0 100) [1] 0, EvInsert (depth_info 10 50) [2] 0, EvDrop 60]"

lemma depth_run_result:
  "rq_depth (rq_run rq_init depth_run) = 11"
  "rq_peek (rq_run rq_init depth_run) s = (if s = 0 then Some (depth_info 0 100, [1]) else None)"
proof -
  define q where "q = rq_run rq_init (take 2 depth_run)"
  have inv: "rq_inv q" by (simp add: q_def rq_inv_run)
  have run: "rq_run rq_init depth_run = snd (rq_drop_expired q 60)"
    by (simp add: q_def rq_run_def depth_run_def)
  have d: "distance 0 10 = 10" by (simp add: distance_def)
  have q: "rq_cursor q = 0 \<and> rq_highest q = 10"
    by (simp add: q_def depth_run_def rq_run_def rq_insert_def depth_info_def rq_init_def rq_consts
      rq_start_def Let_def rq_index_def empty_slot_def d precedes_def)
  have peek: "rq_peek q = [0 \<mapsto> (depth_info 0 100, [1]), 10 \<mapsto> (depth_info 10 50, [2])]"
  proof -
    define q1 where "q1 = snd (rq_insert rq_init (depth_info 0 100) [1] 0)"
    have q1: "rq_cursor q1 = 0" "rq_started q1" "rq_inv q1"
      by (simp_all add: q1_def rq_insert_inv)
         (simp_all add: rq_insert_unfold rq_anchored_def rq_start_def rq_consts Let_def fill_slot_def
           depth_info_def rq_init_def)
    have none: "rq_peek rq_init = (\<lambda>_. None)" by (simp add: rq_peek_def rq_init_def fun_eq_iff)
    have "rq_verdict rq_init (depth_info 0 100) [1] 0 = InsAccepted"
      by (simp add: rq_verdict_def none rq_anchored_def rq_start_def depth_info_def Let_def)
         (simp add: rq_init_def)
    then have p1: "rq_peek q1 = [0 \<mapsto> (depth_info 0 100, [1])]"
      by (simp add: q1_def rq_insert_peek none) (simp add: depth_info_def)
    have "rq_verdict q1 (depth_info 10 50) [2] 0 = InsAccepted"
      by (simp add: rq_verdict_def rq_anchored_def q1 p1 d depth_info_def Let_def)
    then show ?thesis
      by (simp add: q_def depth_run_def rq_run_def rq_insert_peek q1(3) p1 flip: q1_def)
         (simp add: depth_info_def)
  qed
  have live: "rq_peek (snd (rq_drop_expired q 60)) s = (if s = 0 then Some (depth_info 0 100, [1]) else None)" for s
    by (simp add: rq_drop_expired_effect(5) [OF inv] peek expired_at_def depth_info_def)
  have "rq_held (snd (rq_drop_expired q 60)) \<noteq> 0"
    using live [of 0] rq_drop_expired_effect(1) [OF inv, of 60]
    by (auto simp: rq_held_0_iff rq_peek_eq)
  then show "rq_depth (rq_run rq_init depth_run) = 11"
    using q by (simp add: run rq_depth_def rq_drop_expired_effect(2,4) [OF inv] d)
  show "rq_peek (rq_run rq_init depth_run) s = (if s = 0 then Some (depth_info 0 100, [1]) else None)"
    by (simp add: run live)
qed

section \<open>Properties\<close>

text \<open>
  C3. The slot array is a map: after any run, \<open>insert\<close> returns the verdict computed from the
  cursor, the deadline and the map, changes the map at the frame's own sequence number exactly
  when it accepts, and never overwrites a held frame.
\<close>

theorem rq_insert_refines_map:
  fixes es info payload now
  defines "q \<equiv> rq_run rq_init es"
  shows "fst (rq_insert q info payload now) = rq_verdict q info payload now \<and>
    rq_peek (snd (rq_insert q info payload now)) =
      (if rq_verdict q info payload now = InsAccepted
       then (rq_peek q)(info_seq info \<mapsto> (info, payload)) else rq_peek q)"
proof -
  have "rq_inv q" unfolding q_def rq_run_def by (rule rqa.run_inv) simp
  then show ?thesis by (simp add: rq_insert_verdict rq_insert_peek)
qed


text \<open>
  C10. What the decoder is handed is what the network delivered: a frame visible after any run was
  inserted during the run under that sequence number, in time, with exactly these bytes.
\<close>

theorem rq_frames_authentic:
  assumes "rq_peek (rq_run rq_init es) s = Some (info, payload)"
  shows "\<exists>now. EvInsert info payload now \<in> set es \<and> info_seq info = s \<and>
    now \<le> fi_deadline_us info \<and> length payload \<le> 512"
proof -
  have "rq_peek rq_init s = None" by (simp add: rq_peek_def rq_init_def)
  with rqs.run_origin [OF rq_inv_init, of es s "(info, payload)"] assms
  obtain e where e: "e \<in> set es" "rq_offers e s (info, payload)" by (auto simp: rq_run_def)
  show ?thesis
  proof (cases e)
    case (EvInsert i p now)
    then show ?thesis using e by (auto simp: rq_offers_def)
  qed (use e in \<open>simp_all add: rq_offers_def\<close>)
qed

theorem rq_frames_authentic_witness:
  "\<exists>now. EvInsert (depth_info 0 100) [1] now \<in> set depth_run \<and> info_seq (depth_info 0 100) = 0 \<and>
    now \<le> fi_deadline_us (depth_info 0 100) \<and> length [1 :: u8] \<le> 512"
  by (rule rq_frames_authentic) (simp add: depth_run_result)


text \<open>
  Conservation: over any run the arrivals are counted once each, and every accepted frame is
  still held, or was delivered, expired, discarded by a skip, or cleared by a resync.
\<close>

theorem rq_accounts_balance:
  fixes es
  defines "p \<equiv> foldl rq_ledger_step (rq_init, 0) es"
  shows "fst p = rq_run rq_init es \<and>
    rq_arrivals (fst p) = sum_list (map arrival_weight es) \<and>
    rq_accepted (fst p) = rq_held (fst p) + rq_delivered (fst p) + rq_expired (fst p) +
      rq_discarded (fst p) + snd p"
proof -
  have "fst (foldl rq_ledger_step p es) = rq_run (fst p) es" for p
    by (induction es arbitrary: p) (simp_all add: rq_run_def rq_ledger_step_def split: prod.splits)
  then have f: "fst p = rq_run rq_init es" by (simp add: p_def)
  have "rq_balance p = 0"
    using rql.run_total [of "(rq_init, 0)" es]
    by (simp add: p_def sum_list_triv) (simp add: rq_balance_def rq_frames_def rq_init_def)
  then have "rq_accepted (fst p) = rq_frames (fst p) + snd p"
    by (simp add: rq_balance_def split: prod.splits)
  moreover have "rq_arrivals (fst p) = sum_list (map arrival_weight es)"
    using rqa.run_total [OF rq_inv_init, of es]
    by (simp add: f rq_run_def) (simp add: rq_arrivals_def rq_init_def)
  ultimately show ?thesis using f by (simp add: rq_frames_def)
qed

lemma distance_nat: "distance c s = int k \<Longrightarrow> s = c + of_nat k"
  using of_int_distance [of c s] by (simp add: algebra_simps)

text \<open>
  \<open>depth()\<close> is a bound of the buffered span: it never exceeds the 64 slots, it is at least the
  number of held frames, and every held frame lies within \<open>depth\<close> positions of the cursor.
\<close>

theorem rq_depth_bounds:
  fixes es s
  defines "q \<equiv> rq_run rq_init es"
  shows "unat (rq_depth q) \<le> 64 \<and> unat (rq_held q) \<le> unat (rq_depth q) \<and>
    (rq_peek q s \<noteq> None \<longrightarrow> 0 \<le> distance (rq_cursor q) s \<and> distance (rq_cursor q) s < uint (rq_depth q))"
proof (cases "rq_occ q = {}")
  case True
  have inv: "rq_inv q" by (simp add: q_def rq_inv_run)
  show ?thesis using True rq_held_0_iff [OF inv] by (simp add: rq_depth_def rq_peek_eq [OF inv])
next
  case False
  have inv: "rq_inv q" by (simp add: q_def rq_inv_run)
  let ?c = "rq_cursor q" and ?d = "distance (rq_cursor q) (rq_highest q)"
  obtain j where j: "j \<in> rq_occ q" using False by blast
  have w: "0 \<le> ?d" "?d < 64" using rq_invD(4) [OF inv j] by (simp_all add: rq_in_window_def)
  have dep: "rq_depth q = of_int (?d + 1)" using False rq_held_0_iff [OF inv] by (simp add: rq_depth_def)
  have ud: "uint (rq_depth q) = ?d + 1"
    unfolding dep using w by (intro trans [OF uint_word_of_int]) simp
  have pos: "rq_peek q s \<noteq> None \<Longrightarrow> 0 \<le> distance ?c s \<and> distance ?c s \<le> ?d" for s
    using rq_peek_eq [OF inv, of s] rq_slot_seq [OF inv, of s] rq_invD(5) [OF inv, of "rq_index s"]
    by (auto simp: rq_in_window_def rq_occ_def split: if_splits)
  have "rq_occ q \<subseteq> (\<lambda>k. rq_index (?c + of_nat k)) ` {..nat ?d}"
  proof
    fix i assume i: "i \<in> rq_occ q"
    let ?k = "nat (distance ?c (slot_seq q i))"
    have "slot_seq q i = ?c + of_nat ?k" "?k \<le> nat ?d"
      using rq_invD [OF inv i] by (auto simp: rq_in_window_def intro: distance_word nat_mono)
    then show "i \<in> (\<lambda>k. rq_index (?c + of_nat k)) ` {..nat ?d}"
      using rq_invD(2) [OF inv i] by (metis atMost_iff image_eqI)
  qed
  then have "card (rq_occ q) \<le> Suc (nat ?d)"
    using surj_card_le [of "{..nat ?d}"] by fastforce
  then have "unat (rq_held q) \<le> Suc (nat ?d)" using inv by (simp add: rq_inv_def)
  moreover have "unat (rq_depth q) = Suc (nat ?d)" using ud w by (simp add: unat_eq_nat_uint Suc_nat_eq_nat_zadd1 add.commute)
  ultimately show ?thesis using pos [of s] w by (auto simp: ud)
qed

theorem rq_depth_bounds_witness:
  "0 \<le> distance (rq_cursor (rq_run rq_init depth_run)) 0 \<and>
   distance (rq_cursor (rq_run rq_init depth_run)) 0 < 11"
  using rq_depth_bounds [of depth_run 0] by (simp add: depth_run_result)


text \<open>
  \<open>depth()\<close> is not the distance to the furthest held frame once \<open>drop_expired\<close> has removed that
  frame: here only sequence 0 is held, one frame of timeline, and the reported depth is 11.
\<close>

theorem rq_depth_overstates:
  "rq_depth (rq_run rq_init depth_run) = 11 \<and>
   (\<forall>s. rq_peek (rq_run rq_init depth_run) s \<noteq> None \<longleftrightarrow> s = 0)"
  by (simp add: depth_run_result)

end
