(* ===== verification/Jitter_Buffer.thy ===== *)
theory Jitter_Buffer
  imports Reorder_Queue Opus_Codec
begin

text \<open>
  Playout policy (core/include/radio/jitter_buffer.hpp, core/src/audio/jitter_buffer.cpp): the
  affine map from sender timestamps to local deadlines, stream takeover and re-anchoring in
  \<open>push\<close>, and the choice between decoding, recovery, concealment, silence and catch-up in
  \<open>pull\<close>. It drives the reorder queue and the decoder of the other theories. The theory proves
  that every tick yields exactly one accounted frame, that the buffer of the audio device is
  never overrun, that no frame is played before its deadline outside a catch-up, and what the
  catch-up does instead.
\<close>

section \<open>State\<close>

definition kMaxCatchupJump :: u64 where "kMaxCatchupJump = push_bit 20 1"

record jb_config =
  jc_decoder :: decoder_config
  jc_target_delay_us :: micros
  jc_fec :: bool
  jc_max_conceal_run :: u32
  jc_max_catchup_frames :: u32
  jc_stream_idle_us :: micros

definition default_jb_config :: jb_config where
  "default_jb_config = \<lparr>jc_decoder = default_decoder_config, jc_target_delay_us = 60000,
     jc_fec = True, jc_max_conceal_run = 5, jc_max_catchup_frames = 5, jc_stream_idle_us = 200000\<rparr>"

datatype jb_push_result =
    PushAccepted | PushDuplicate | PushLate | PushTooOld | PushResynced | PushForeign
  | PushOversized | PushClosed

datatype jb_source = SrcPacket | SrcForwardCorrection | SrcConcealment | SrcSilence

fun jb_push_to_string :: "jb_push_result \<Rightarrow> string" where
  "jb_push_to_string PushAccepted = ''accepted''"
| "jb_push_to_string PushDuplicate = ''duplicate''"
| "jb_push_to_string PushLate = ''late''"
| "jb_push_to_string PushTooOld = ''too_old''"
| "jb_push_to_string PushResynced = ''resynced''"
| "jb_push_to_string PushForeign = ''foreign''"
| "jb_push_to_string PushOversized = ''oversized''"
| "jb_push_to_string PushClosed = ''closed''"

fun jb_source_to_string :: "jb_source \<Rightarrow> string" where
  "jb_source_to_string SrcPacket = ''packet''"
| "jb_source_to_string SrcForwardCorrection = ''fec''"
| "jb_source_to_string SrcConcealment = ''concealment''"
| "jb_source_to_string SrcSilence = ''silence''"

record pulled =
  pu_source :: jb_source
  pu_sequence :: u32
  pu_timestamp :: u32
  pu_samples :: u64
  pu_error :: int

record 'd jitter_buffer =
  jb_config :: jb_config
  jb_queue :: reorder_queue
  jb_decoder :: "'d decoder"
  jb_frame_samples :: u32
  jb_frame_pcm :: u64
  jb_frame_ts :: u32
  jb_frame_us :: micros
  jb_anchored :: bool
  jb_has_stream :: bool
  jb_stream_id :: u32
  jb_last_arrival_us :: micros
  jb_anchor_ts :: u32
  jb_anchor_local_us :: micros
  jb_playout_ts :: u32
  jb_conceal_run :: u32
  jb_has_end :: bool
  jb_end_sequence :: u32
  jb_from_packet :: u64
  jb_fec_recovered :: u64
  jb_concealed :: u64
  jb_silence :: u64
  jb_muted :: u64
  jb_catchups :: u64
  jb_catchup_frames :: u64
  jb_anchors :: u64
  jb_foreign :: u64
  jb_decode_errors :: u64

definition jb_init :: "'d jitter_buffer" where
  "jb_init = \<lparr>jb_config = default_jb_config, jb_queue = rq_init, jb_decoder = decoder_init,
     jb_frame_samples = kFrameSamples, jb_frame_pcm = ucast kFrameSamples, jb_frame_ts = kFrameSamples,
     jb_frame_us = 20000, jb_anchored = False, jb_has_stream = False, jb_stream_id = 0,
     jb_last_arrival_us = 0, jb_anchor_ts = 0, jb_anchor_local_us = 0, jb_playout_ts = 0,
     jb_conceal_run = 0, jb_has_end = False, jb_end_sequence = 0, jb_from_packet = 0,
     jb_fec_recovered = 0, jb_concealed = 0, jb_silence = 0, jb_muted = 0, jb_catchups = 0,
     jb_catchup_frames = 0, jb_anchors = 0, jb_foreign = 0, jb_decode_errors = 0\<rparr>"

section \<open>Opening and closing\<close>

definition jb_close :: "'d jitter_buffer \<Rightarrow> 'd jitter_buffer" where
  "jb_close b = jb_init\<lparr>jb_decoder := decoder_close (jb_decoder b), jb_queue := rq_reset (jb_queue b)\<rparr>"

definition jb_open :: "('e, 'd) opus \<Rightarrow> 'd jitter_buffer \<Rightarrow> jb_config \<Rightarrow> bool \<times> 'd jitter_buffer" where
  "jb_open lib b0 config =
     (let b = jb_close b0; (opened, dec) = decoder_open lib (jb_decoder b) (jc_decoder config);
          b = b\<lparr>jb_decoder := dec\<rparr> in
      if \<not> opened then (False, b)
      else
        let fs = dc_frame_samples (jc_decoder config);
            us = ucast fs * 1000000 div ucast (dc_sample_rate_hz (jc_decoder config));
            ts = ucast (us_to_samples us);
            b = b\<lparr>jb_config := config, jb_frame_samples := fs,
                  jb_frame_pcm := ucast fs * of_int (dc_channels (jc_decoder config)),
                  jb_frame_us := us, jb_frame_ts := ts\<rparr> in
        if us = 0 \<or> ts = 0 then (False, b\<lparr>jb_decoder := decoder_close (jb_decoder b)\<rparr>)
        else (True, b))"

definition jb_reset_decoder :: "('e, 'd) opus \<Rightarrow> 'd jitter_buffer \<Rightarrow> 'd jitter_buffer" where
  "jb_reset_decoder lib b = b\<lparr>jb_decoder := snd (decoder_reset_state lib (jb_decoder b))\<rparr>"

definition jb_reset_stream :: "('e, 'd) opus \<Rightarrow> 'd jitter_buffer \<Rightarrow> 'd jitter_buffer" where
  "jb_reset_stream lib b =
     jb_reset_decoder lib (b\<lparr>jb_queue := rq_reset (jb_queue b), jb_anchored := False,
       jb_has_stream := False, jb_conceal_run := 0, jb_has_end := False\<rparr>)"

section \<open>The timeline\<close>

definition jb_deadline_of :: "'d jitter_buffer \<Rightarrow> u32 \<Rightarrow> micros" where
  "jb_deadline_of b timestamp =
     (let delta = distance (jb_anchor_ts b) timestamp in
      if delta \<ge> 0 then jb_anchor_local_us b + samples_to_us (of_int delta)
      else
        let back_us = samples_to_us (of_int (- delta)) in
        if back_us > jb_anchor_local_us b then 0 else jb_anchor_local_us b - back_us)"

definition jb_next_deadline_us :: "'d jitter_buffer \<Rightarrow> micros" where
  "jb_next_deadline_us b = (if jb_anchored b then jb_deadline_of b (jb_playout_ts b) else 0)"

definition jb_anchor :: "'d jitter_buffer \<Rightarrow> u32 \<Rightarrow> micros \<Rightarrow> 'd jitter_buffer" where
  "jb_anchor b timestamp arrival_us =
     b\<lparr>jb_anchor_ts := timestamp,
       jb_anchor_local_us := arrival_us + jc_target_delay_us (jb_config b),
       jb_anchored := True, jb_anchors := jb_anchors b + 1\<rparr>"

section \<open>Push\<close>

text \<open>Stream selection: \<open>None\<close> means the datagram is foreign.\<close>

definition jb_select_stream ::
  "('e, 'd) opus \<Rightarrow> 'd jitter_buffer \<Rightarrow> media_header \<Rightarrow> micros \<Rightarrow> 'd jitter_buffer option" where
  "jb_select_stream lib b h arrival_us =
     (if \<not> jb_has_stream b then
        Some (b\<lparr>jb_has_stream := True, jb_stream_id := mh_stream_id h\<rparr>)
      else if mh_stream_id h \<noteq> jb_stream_id b then
        let announced = talkspurt_start h;
            idle = (arrival_us > jb_last_arrival_us b \<and>
                    arrival_us - jb_last_arrival_us b \<ge> jc_stream_idle_us (jb_config b)) in
        if \<not> announced \<and> \<not> idle then None
        else Some ((jb_reset_stream lib b)\<lparr>jb_has_stream := True, jb_stream_id := mh_stream_id h\<rparr>)
      else Some b)"

text \<open>Restarting the timeline on a frame: the branch of a late talkspurt start.\<close>

definition jb_restart :: "('e, 'd) opus \<Rightarrow> 'd jitter_buffer \<Rightarrow> media_header \<Rightarrow> micros \<Rightarrow> 'd jitter_buffer" where
  "jb_restart lib b h arrival_us =
     jb_reset_decoder lib
       ((jb_anchor (b\<lparr>jb_queue := rq_resync (jb_queue b) (mh_sequence h)\<rparr>) (mh_timestamp h) arrival_us)
          \<lparr>jb_playout_ts := mh_timestamp h, jb_conceal_run := 0\<rparr>)"

definition jb_place :: "('e, 'd) opus \<Rightarrow> 'd jitter_buffer \<Rightarrow> media_header \<Rightarrow> micros \<Rightarrow> 'd jitter_buffer" where
  "jb_place lib b h arrival_us =
     (if \<not> jb_anchored b then
        let b = jb_anchor b (mh_timestamp h) arrival_us in
        b\<lparr>jb_queue := rq_start (jb_queue b) (mh_sequence h), jb_playout_ts := mh_timestamp h\<rparr>
      else if talkspurt_start h then
        let b = b\<lparr>jb_has_end := False\<rparr> in
        if precedes_or_equal (rq_cursor (jb_queue b)) (mh_sequence h)
        then jb_anchor b (mh_timestamp h) arrival_us
        else jb_restart lib b h arrival_us
      else b)"

definition jb_note_end :: "'d jitter_buffer \<Rightarrow> media_header \<Rightarrow> 'd jitter_buffer" where
  "jb_note_end b h =
     (if talkspurt_end h \<and> (\<not> jb_has_end b \<or> precedes (jb_end_sequence b) (mh_sequence h))
      then b\<lparr>jb_has_end := True, jb_end_sequence := mh_sequence h\<rparr> else b)"

definition jb_info :: "'d jitter_buffer \<Rightarrow> media_header \<Rightarrow> micros \<Rightarrow> frame_info" where
  "jb_info b h arrival_us =
     \<lparr>fi_header = h, fi_arrival_us = arrival_us, fi_deadline_us = jb_deadline_of b (mh_timestamp h)\<rparr>"

definition jb_insert ::
  "'d jitter_buffer \<Rightarrow> media_header \<Rightarrow> bytes \<Rightarrow> micros \<Rightarrow> rq_insert_result \<times> 'd jitter_buffer" where
  "jb_insert b h payload arrival_us =
     (let (result, q) = rq_insert (jb_queue b) (jb_info b h arrival_us) payload arrival_us in
      (result, b\<lparr>jb_queue := q\<rparr>))"

definition jb_push :: "('e, 'd) opus \<Rightarrow> 'd jitter_buffer \<Rightarrow> media_packet \<Rightarrow> micros \<Rightarrow> jb_push_result \<times> 'd jitter_buffer"
  where
  "jb_push lib b packet arrival_us =
     (if \<not> decoder_is_open (jb_decoder b) then (PushClosed, b)
      else
        let h = mp_header packet in
        case jb_select_stream lib b h arrival_us of
          None \<Rightarrow> (PushForeign, b\<lparr>jb_foreign := jb_foreign b + 1\<rparr>)
        | Some b \<Rightarrow>
            let b = b\<lparr>jb_last_arrival_us := arrival_us\<rparr>;
                b = jb_place lib b h arrival_us;
                b = jb_note_end b h;
                (result, b) = jb_insert b h (mp_payload packet) arrival_us in
            case result of
              InsTooFarAhead \<Rightarrow>
                let b = (jb_restart lib b h arrival_us)\<lparr>jb_has_end := False\<rparr>;
                    (result, b) = jb_insert b h (mp_payload packet) arrival_us in
                (if result = InsAccepted then PushResynced else PushOversized, b)
            | InsAccepted \<Rightarrow> (PushAccepted, b)
            | InsDuplicate \<Rightarrow> (PushDuplicate, b)
            | InsLate \<Rightarrow> (PushLate, b)
            | InsTooOld \<Rightarrow> (PushTooOld, b)
            | InsOversized \<Rightarrow> (PushOversized, b))"

section \<open>Pull\<close>

definition write_silence :: "'d jitter_buffer \<Rightarrow> pcm \<Rightarrow> pcm" where
  "write_silence b x = replicate (unat (jb_frame_pcm b)) 0 @ drop (unat (jb_frame_pcm b)) x"

definition peek_and_align :: "'d jitter_buffer \<Rightarrow> frame option \<times> 'd jitter_buffer" where
  "peek_and_align b =
     (case rq_peek_next (jb_queue b) of
        None \<Rightarrow> (None, b)
      | Some (info, payload) \<Rightarrow>
          (Some (info, payload),
           if precedes (jb_playout_ts b) (mh_timestamp (fi_header info))
           then b\<lparr>jb_playout_ts := mh_timestamp (fi_header info)\<rparr> else b))"

text \<open>The common tail: one step of the cursor and one frame of timeline.\<close>

definition jb_step :: "'d jitter_buffer \<Rightarrow> 'd jitter_buffer" where
  "jb_step b = b\<lparr>jb_queue := snd (rq_advance (jb_queue b)), jb_playout_ts := jb_playout_ts b + jb_frame_ts b\<rparr>"

definition jb_catch_up :: "('e, 'd) opus \<Rightarrow> 'd jitter_buffer \<Rightarrow> u64 \<Rightarrow> 'd jitter_buffer" where
  "jb_catch_up lib b behind =
     (let jump = min behind kMaxCatchupJump in
      jb_reset_decoder lib
        (b\<lparr>jb_queue := snd (rq_skip_to (jb_queue b) (rq_cursor (jb_queue b) + ucast jump)),
           jb_playout_ts := jb_playout_ts b + ucast jump * jb_frame_ts b,
           jb_catchups := jb_catchups b + 1, jb_catchup_frames := jb_catchup_frames b + jump,
           jb_conceal_run := 0\<rparr>))"

definition jb_play ::
  "('e, 'd) opus \<Rightarrow> 'd jitter_buffer \<Rightarrow> frame \<Rightarrow> pcm \<Rightarrow> pulled \<Rightarrow> pulled \<times> pcm \<times> 'd jitter_buffer" where
  "jb_play lib b f x out =
     (let (info, payload) = f;
          (r, x', dec) = decoder_decode lib (jb_decoder b) payload x;
          b = b\<lparr>jb_decoder := dec\<rparr>;
          out = out\<lparr>pu_sequence := mh_sequence (fi_header info),
                    pu_timestamp := mh_timestamp (fi_header info), pu_error := dr_error r\<rparr> in
      if decode_result_ok r then
        (out\<lparr>pu_source := SrcPacket, pu_samples := dr_samples r\<rparr>, x',
         jb_step (b\<lparr>jb_from_packet := jb_from_packet b + 1, jb_conceal_run := 0\<rparr>))
      else
        (out, write_silence b x',
         jb_step (b\<lparr>jb_decode_errors := jb_decode_errors b + 1, jb_silence := jb_silence b + 1\<rparr>)))"

text \<open>FEC recovery from the packet after the cursor; the flag says whether the hole is filled.\<close>

definition jb_try_fec ::
  "('e, 'd) opus \<Rightarrow> 'd jitter_buffer \<Rightarrow> pcm \<Rightarrow> pulled \<Rightarrow> bool \<times> pulled \<times> pcm \<times> 'd jitter_buffer" where
  "jb_try_fec lib b x out =
     (case rq_peek (jb_queue b) (rq_cursor (jb_queue b) + 1) of
        None \<Rightarrow> (False, out, x, b)
      | Some (info, payload) \<Rightarrow>
          if \<not> packet_has_redundancy lib payload then (False, out, x, b)
          else
            let (r, x', dec) = decoder_recover_previous lib (jb_decoder b) payload x;
                b = b\<lparr>jb_decoder := dec\<rparr> in
            if decode_result_ok r then
              (True, out\<lparr>pu_source := SrcForwardCorrection, pu_samples := dr_samples r\<rparr>, x',
               b\<lparr>jb_fec_recovered := jb_fec_recovered b + 1, jb_conceal_run := 0\<rparr>)
            else (False, out, x', b))"

definition jb_conceal_or_mute ::
  "('e, 'd) opus \<Rightarrow> 'd jitter_buffer \<Rightarrow> pcm \<Rightarrow> pulled \<Rightarrow> pulled \<times> pcm \<times> 'd jitter_buffer" where
  "jb_conceal_or_mute lib b x out =
     (if jb_conceal_run b \<ge> jc_max_conceal_run (jb_config b) then
        let b = (if jb_conceal_run b = jc_max_conceal_run (jb_config b)
                 then jb_reset_decoder lib (b\<lparr>jb_muted := jb_muted b + 1\<rparr>) else b) in
        (out\<lparr>pu_source := SrcSilence\<rparr>, write_silence b x,
         b\<lparr>jb_silence := jb_silence b + 1, jb_conceal_run := jb_conceal_run b + 1\<rparr>)
      else
        let (r, x', dec) = decoder_conceal lib (jb_decoder b) x;
            b = b\<lparr>jb_decoder := dec, jb_conceal_run := jb_conceal_run b + 1\<rparr> in
        if decode_result_ok r then
          (out\<lparr>pu_source := SrcConcealment, pu_samples := dr_samples r\<rparr>, x',
           b\<lparr>jb_concealed := jb_concealed b + 1\<rparr>)
        else
          (out\<lparr>pu_error := dr_error r\<rparr>, write_silence b x',
           b\<lparr>jb_decode_errors := jb_decode_errors b + 1, jb_silence := jb_silence b + 1\<rparr>))"

definition jb_fill_hole ::
  "('e, 'd) opus \<Rightarrow> 'd jitter_buffer \<Rightarrow> pcm \<Rightarrow> pulled \<Rightarrow> pulled \<times> pcm \<times> 'd jitter_buffer" where
  "jb_fill_hole lib b x out =
     (if jb_has_end b \<and> \<not> precedes_or_equal (rq_cursor (jb_queue b)) (jb_end_sequence b) then
        (out\<lparr>pu_source := SrcSilence\<rparr>, write_silence b x, jb_step (b\<lparr>jb_silence := jb_silence b + 1\<rparr>))
      else
        let (filled, out, x, b) =
              (if jc_fec (jb_config b) then jb_try_fec lib b x out else (False, out, x, b));
            (out, x, b) = (if \<not> filled then jb_conceal_or_mute lib b x out else (out, x, b)) in
        (out, x, jb_step b))"

definition jb_pull ::
  "('e, 'd) opus \<Rightarrow> 'd jitter_buffer \<Rightarrow> pcm \<Rightarrow> micros \<Rightarrow> pulled \<times> pcm \<times> 'd jitter_buffer" where
  "jb_pull lib b x now =
     (let out = \<lparr>pu_source = SrcSilence, pu_sequence = rq_cursor (jb_queue b),
                 pu_timestamp = jb_playout_ts b, pu_samples = 0, pu_error = 0\<rparr> in
      if length x < unat (jb_frame_pcm b) \<or> \<not> decoder_is_open (jb_decoder b) then
        (out\<lparr>pu_error := -2\<rparr>, x, b)
      else
        let out = out\<lparr>pu_samples := jb_frame_pcm b\<rparr> in
        if \<not> jb_anchored b then (out, write_silence b x, b\<lparr>jb_silence := jb_silence b + 1\<rparr>)
        else
          let (have, b) = peek_and_align b;
              out = out\<lparr>pu_timestamp := jb_playout_ts b\<rparr>;
              due = jb_deadline_of b (jb_playout_ts b) in
          if now < due then (out, write_silence b x, b\<lparr>jb_silence := jb_silence b + 1\<rparr>)
          else
            let behind = (now - due) div jb_frame_us b;
                (have, b, out) =
                  (if behind > ucast (jc_max_catchup_frames (jb_config b)) then
                     let b = jb_catch_up lib b behind;
                         out = out\<lparr>pu_sequence := rq_cursor (jb_queue b)\<rparr>;
                         (have, b) = peek_and_align b in
                     (have, b, out\<lparr>pu_timestamp := jb_playout_ts b\<rparr>)
                   else (have, b, out)) in
            case have of
              Some f \<Rightarrow> jb_play lib b f x out
            | None \<Rightarrow> jb_fill_hole lib b x out)"

section \<open>Invariant\<close>

text \<open>\<open>jb_geometry\<close> is what a call to \<open>push\<close> or \<open>pull\<close> never changes.\<close>

definition jb_geometry :: "'d jitter_buffer \<Rightarrow> jb_config \<times> u64 \<times> u32 \<times> micros \<times> decoder_config \<times> bool" where
  "jb_geometry b = (jb_config b, jb_frame_pcm b, jb_frame_ts b, jb_frame_us b,
     dec_config (jb_decoder b), decoder_is_open (jb_decoder b))"

definition geometry_ok :: "jb_config \<times> u64 \<times> u32 \<times> micros \<times> decoder_config \<times> bool \<Rightarrow> bool" where
  "geometry_ok = (\<lambda>(config, pcm, ts, us, dc, opened).
     opened \<longrightarrow> pcm = dec_needed dc \<and> us \<noteq> 0 \<and> ts \<noteq> 0 \<and> dc = jc_decoder config)"

definition jb_inv :: "('e, 'd) opus \<Rightarrow> 'd jitter_buffer \<Rightarrow> bool" where
  "jb_inv lib b \<longleftrightarrow> rq_inv (jb_queue b) \<and> dec_inv lib (jb_decoder b) \<and> geometry_ok (jb_geometry b)"

lemma jb_invI [intro]:
  "rq_inv (jb_queue b) \<Longrightarrow> dec_inv lib (jb_decoder b) \<Longrightarrow> geometry_ok (jb_geometry b) \<Longrightarrow> jb_inv lib b"
  by (simp add: jb_inv_def)

lemma jb_invD:
  assumes "jb_inv lib b"
  shows "rq_inv (jb_queue b)" "dec_inv lib (jb_decoder b)" "geometry_ok (jb_geometry b)"
  using assms by (simp_all add: jb_inv_def)

lemma jb_inv_same:
  "jb_inv lib b \<Longrightarrow> rq_inv (jb_queue b') \<Longrightarrow> dec_inv lib (jb_decoder b') \<Longrightarrow>
   jb_geometry b' = jb_geometry b \<Longrightarrow> jb_inv lib b'"
  by (simp add: jb_inv_def)

lemma jb_geometry_decoder:
  "dec_config d = dec_config (jb_decoder b) \<Longrightarrow> decoder_is_open d = decoder_is_open (jb_decoder b) \<Longrightarrow>
   jb_geometry (b\<lparr>jb_decoder := d\<rparr>) = jb_geometry b"
  by (simp add: jb_geometry_def)

lemma jb_geometry_frame [simp, frame_simps]:
  "jb_geometry (b\<lparr>jb_queue := q\<rparr>) = jb_geometry b" "jb_geometry (b\<lparr>jb_anchored := x1\<rparr>) = jb_geometry b"
  "jb_geometry (b\<lparr>jb_has_stream := x1\<rparr>) = jb_geometry b" "jb_geometry (b\<lparr>jb_stream_id := x2\<rparr>) = jb_geometry b"
  "jb_geometry (b\<lparr>jb_last_arrival_us := x3\<rparr>) = jb_geometry b" "jb_geometry (b\<lparr>jb_anchor_ts := x2\<rparr>) = jb_geometry b"
  "jb_geometry (b\<lparr>jb_anchor_local_us := x3\<rparr>) = jb_geometry b" "jb_geometry (b\<lparr>jb_playout_ts := x2\<rparr>) = jb_geometry b"
  "jb_geometry (b\<lparr>jb_conceal_run := x2\<rparr>) = jb_geometry b" "jb_geometry (b\<lparr>jb_has_end := x1\<rparr>) = jb_geometry b"
  "jb_geometry (b\<lparr>jb_end_sequence := x2\<rparr>) = jb_geometry b" "jb_geometry (b\<lparr>jb_from_packet := x3\<rparr>) = jb_geometry b"
  "jb_geometry (b\<lparr>jb_fec_recovered := x3\<rparr>) = jb_geometry b" "jb_geometry (b\<lparr>jb_concealed := x3\<rparr>) = jb_geometry b"
  "jb_geometry (b\<lparr>jb_silence := x3\<rparr>) = jb_geometry b" "jb_geometry (b\<lparr>jb_muted := x3\<rparr>) = jb_geometry b"
  "jb_geometry (b\<lparr>jb_catchups := x3\<rparr>) = jb_geometry b" "jb_geometry (b\<lparr>jb_catchup_frames := x3\<rparr>) = jb_geometry b"
  "jb_geometry (b\<lparr>jb_anchors := x3\<rparr>) = jb_geometry b" "jb_geometry (b\<lparr>jb_foreign := x3\<rparr>) = jb_geometry b"
  "jb_geometry (b\<lparr>jb_decode_errors := x3\<rparr>) = jb_geometry b"
  by (simp_all add: jb_geometry_def)

lemma jb_inv_frame [simp, frame_simps]:
  "jb_inv lib (b\<lparr>jb_anchored := x1\<rparr>) \<longleftrightarrow> jb_inv lib b" "jb_inv lib (b\<lparr>jb_has_stream := x1\<rparr>) \<longleftrightarrow> jb_inv lib b"
  "jb_inv lib (b\<lparr>jb_stream_id := x2\<rparr>) \<longleftrightarrow> jb_inv lib b" "jb_inv lib (b\<lparr>jb_last_arrival_us := x3\<rparr>) \<longleftrightarrow> jb_inv lib b"
  "jb_inv lib (b\<lparr>jb_anchor_ts := x2\<rparr>) \<longleftrightarrow> jb_inv lib b" "jb_inv lib (b\<lparr>jb_anchor_local_us := x3\<rparr>) \<longleftrightarrow> jb_inv lib b"
  "jb_inv lib (b\<lparr>jb_playout_ts := x2\<rparr>) \<longleftrightarrow> jb_inv lib b" "jb_inv lib (b\<lparr>jb_conceal_run := x2\<rparr>) \<longleftrightarrow> jb_inv lib b"
  "jb_inv lib (b\<lparr>jb_has_end := x1\<rparr>) \<longleftrightarrow> jb_inv lib b" "jb_inv lib (b\<lparr>jb_end_sequence := x2\<rparr>) \<longleftrightarrow> jb_inv lib b"
  "jb_inv lib (b\<lparr>jb_from_packet := x3\<rparr>) \<longleftrightarrow> jb_inv lib b" "jb_inv lib (b\<lparr>jb_fec_recovered := x3\<rparr>) \<longleftrightarrow> jb_inv lib b"
  "jb_inv lib (b\<lparr>jb_concealed := x3\<rparr>) \<longleftrightarrow> jb_inv lib b" "jb_inv lib (b\<lparr>jb_silence := x3\<rparr>) \<longleftrightarrow> jb_inv lib b"
  "jb_inv lib (b\<lparr>jb_muted := x3\<rparr>) \<longleftrightarrow> jb_inv lib b" "jb_inv lib (b\<lparr>jb_catchups := x3\<rparr>) \<longleftrightarrow> jb_inv lib b"
  "jb_inv lib (b\<lparr>jb_catchup_frames := x3\<rparr>) \<longleftrightarrow> jb_inv lib b" "jb_inv lib (b\<lparr>jb_anchors := x3\<rparr>) \<longleftrightarrow> jb_inv lib b"
  "jb_inv lib (b\<lparr>jb_foreign := x3\<rparr>) \<longleftrightarrow> jb_inv lib b" "jb_inv lib (b\<lparr>jb_decode_errors := x3\<rparr>) \<longleftrightarrow> jb_inv lib b"
  by (simp_all add: jb_inv_def)

lemma jb_inv_init: "jb_inv lib jb_init"
  by (auto simp: jb_init_def jb_geometry_def geometry_ok_def decoder_is_open_def decoder_init_def
      dec_inv_def)

lemma jb_inv_close: "jb_inv lib b \<Longrightarrow> jb_inv lib (jb_close b)"
proof -
  assume "jb_inv lib b"
  then have "rq_inv (rq_reset (jb_queue b))" by (intro rq_reset_effect(1) jb_invD(1))
  then show ?thesis unfolding jb_close_def
    by (intro jb_invI) (simp_all add: jb_geometry_def geometry_ok_def)
qed

lemma jb_inv_open:
  assumes lib: "opus_contract lib" and inv: "jb_inv lib b"
  shows "jb_inv lib (snd (jb_open lib b c))"
proof -
  obtain ok d where o: "decoder_open lib (jb_decoder (jb_close b)) (jc_decoder c) = (ok, d)" by fastforce
  from decoder_open_effect [OF lib, of "jb_decoder (jb_close b)" "jc_decoder c"] o
  have d: "dec_inv lib d" "ok \<longleftrightarrow> decoder_is_open d" "ok \<Longrightarrow> dec_config d = jc_decoder c" by auto
  note cl = jb_invD [OF jb_inv_close [OF inv]]
  show ?thesis
    using o d cl by (auto simp: jb_open_def Let_def jb_geometry_def geometry_ok_def dec_needed_def)
qed

lemma jb_reset_decoder_effect:
  assumes "opus_contract lib" "jb_inv lib b"
  shows "jb_inv lib (jb_reset_decoder lib b)" "jb_geometry (jb_reset_decoder lib b) = jb_geometry b"
proof -
  note r = decoder_reset_effect [OF assms(1) jb_invD(2) [OF assms(2)]]
  show g: "jb_geometry (jb_reset_decoder lib b) = jb_geometry b"
    unfolding jb_reset_decoder_def by (rule jb_geometry_decoder) (simp_all add: r)
  show "jb_inv lib (jb_reset_decoder lib b)"
    using r jb_invD [OF assms(2)] g by (intro jb_inv_same [OF assms(2)]) (simp_all add: jb_reset_decoder_def)
qed

lemma jb_reset_decoder_sel [simp]:
  "jb_queue (jb_reset_decoder lib b) = jb_queue b" "jb_playout_ts (jb_reset_decoder lib b) = jb_playout_ts b"
  "jb_anchor_ts (jb_reset_decoder lib b) = jb_anchor_ts b"
  "jb_anchor_local_us (jb_reset_decoder lib b) = jb_anchor_local_us b"
  "jb_anchored (jb_reset_decoder lib b) = jb_anchored b" "jb_config (jb_reset_decoder lib b) = jb_config b"
  "jb_frame_pcm (jb_reset_decoder lib b) = jb_frame_pcm b"
  "jb_from_packet (jb_reset_decoder lib b) = jb_from_packet b"
  "jb_fec_recovered (jb_reset_decoder lib b) = jb_fec_recovered b"
  "jb_concealed (jb_reset_decoder lib b) = jb_concealed b"
  "jb_silence (jb_reset_decoder lib b) = jb_silence b"
  "jb_has_end (jb_reset_decoder lib b) = jb_has_end b"
  "jb_conceal_run (jb_reset_decoder lib b) = jb_conceal_run b"
  by (simp_all add: jb_reset_decoder_def)

section \<open>Pull: one accounted frame per tick\<close>

type_synonym jb_tallies = "u64 \<times> u64 \<times> u64 \<times> u64"

definition jb_counts :: "'d jitter_buffer \<Rightarrow> jb_tallies" where
  "jb_counts b = (jb_from_packet b, jb_fec_recovered b, jb_concealed b, jb_silence b)"

fun bump :: "jb_source \<Rightarrow> jb_tallies \<Rightarrow> jb_tallies" where
  "bump SrcPacket (p, f, c, z) = (p + 1, f, c, z)"
| "bump SrcForwardCorrection (p, f, c, z) = (p, f + 1, c, z)"
| "bump SrcConcealment (p, f, c, z) = (p, f, c + 1, z)"
| "bump SrcSilence (p, f, c, z) = (p, f, c, z + 1)"

text \<open>The contract of one tick on a buffer of at least one frame.\<close>

definition tick_ok ::
  "('e, 'd) opus \<Rightarrow> 'd jitter_buffer \<Rightarrow> pcm \<Rightarrow> pulled \<times> pcm \<times> 'd jitter_buffer \<Rightarrow> bool" where
  "tick_ok lib b x = (\<lambda>(out, x', b').
     jb_inv lib b' \<and> jb_geometry b' = jb_geometry b \<and>
     jb_counts b' = bump (pu_source out) (jb_counts b) \<and>
     length x' = length x \<and> drop (unat (jb_frame_pcm b)) x' = drop (unat (jb_frame_pcm b)) x \<and>
     unat (pu_samples out) \<le> unat (jb_frame_pcm b))"

lemma write_silence_effect:
  "unat (jb_frame_pcm b) \<le> length x \<Longrightarrow> length (write_silence b x) = length x"
  "drop (unat (jb_frame_pcm b)) (write_silence b x) = drop (unat (jb_frame_pcm b)) x"
  "take (unat (jb_frame_pcm b)) (write_silence b x) = replicate (unat (jb_frame_pcm b)) 0"
  by (simp_all add: write_silence_def)

lemma jb_step_effect:
  assumes "jb_inv lib b"
  shows "jb_inv lib (jb_step b)" "jb_geometry (jb_step b) = jb_geometry b" "jb_counts (jb_step b) = jb_counts b"
  using jb_invD [OF assms] rq_advance_effect(1)
  by (auto simp: jb_step_def jb_counts_def intro: jb_inv_same [OF assms])

lemma tick_ok_step: "tick_ok lib b x (out, x', b') \<Longrightarrow> tick_ok lib b x (out, x', jb_step b')"
  using jb_step_effect [of lib b'] by (auto simp: tick_ok_def)

lemma drop_le: "drop m xs = drop m ys \<Longrightarrow> m \<le> n \<Longrightarrow> drop n xs = drop n ys"
  by (metis add.commute drop_drop le_add_diff_inverse)

text \<open>A decoder call inside a tick.\<close>

lemma decode_in_tick:
  assumes lib: "opus_contract lib" and inv: "jb_inv lib b" and opn: "decoder_is_open (jb_decoder b)"
    and r: "run_decode lib (jb_decoder b) data len x fec src = (r, x', d)"
  shows "jb_inv lib (b\<lparr>jb_decoder := d\<rparr>)" "jb_geometry (b\<lparr>jb_decoder := d\<rparr>) = jb_geometry b"
    "length x' = length x" "drop (unat (jb_frame_pcm b)) x' = drop (unat (jb_frame_pcm b)) x"
    "unat (dr_samples r) \<le> unat (jb_frame_pcm b)"
proof -
  note e = run_decode_effect [OF lib jb_invD(2) [OF inv] r]
  have pcm: "jb_frame_pcm b = dec_needed (dec_config (jb_decoder b))"
    using jb_invD(3) [OF inv] opn by (simp add: geometry_ok_def jb_geometry_def)
  show "unat (dr_samples r) \<le> unat (jb_frame_pcm b)" using e(8) by (simp add: pcm)
  then show "drop (unat (jb_frame_pcm b)) x' = drop (unat (jb_frame_pcm b)) x" using e(6) drop_le by blast
  show "length x' = length x" by (rule e(5))
  show g: "jb_geometry (b\<lparr>jb_decoder := d\<rparr>) = jb_geometry b" using e by (intro jb_geometry_decoder)
  show "jb_inv lib (b\<lparr>jb_decoder := d\<rparr>)" using e jb_invD [OF inv] g by (intro jb_inv_same [OF inv]) simp_all
qed

lemma jb_inv_geometry: "jb_geometry b' = jb_geometry b \<Longrightarrow> jb_frame_pcm b' = jb_frame_pcm b \<and>
   jb_config b' = jb_config b \<and> decoder_is_open (jb_decoder b') = decoder_is_open (jb_decoder b)"
  by (simp add: jb_geometry_def)

lemma jb_play_tick:
  assumes lib: "opus_contract lib" and inv: "jb_inv lib b" and opn: "decoder_is_open (jb_decoder b)"
    and len: "unat (jb_frame_pcm b) \<le> length x"
    and out: "pu_source out = SrcSilence" "unat (pu_samples out) \<le> unat (jb_frame_pcm b)"
  shows "tick_ok lib b x (jb_play lib b f x out)"
proof -
  obtain info payload where f: "f = (info, payload)" by fastforce
  obtain r x' d where dec: "decoder_decode lib (jb_decoder b) payload x = (r, x', d)" by (metis prod_cases3)
  have e: "jb_inv lib (b\<lparr>jb_decoder := d\<rparr>) \<and> jb_geometry (b\<lparr>jb_decoder := d\<rparr>) = jb_geometry b \<and>
    length x' = length x \<and> drop (unat (jb_frame_pcm b)) x' = drop (unat (jb_frame_pcm b)) x \<and>
    unat (dr_samples r) \<le> unat (jb_frame_pcm b)"
  proof (cases "payload = []")
    case True
    then show ?thesis using dec inv by (auto simp: decoder_decode_def)
  next
    case False
    then have "run_decode lib (jb_decoder b) (Some payload) (int32_size payload) x 0 DecPacket = (r, x', d)"
      using dec by (simp add: decoder_decode_def)
    from decode_in_tick [OF lib inv opn this] show ?thesis by simp
  qed
  show ?thesis
  proof (cases "decode_result_ok r")
    case True
    have "tick_ok lib b x (out\<lparr>pu_sequence := mh_sequence (fi_header info), pu_timestamp := mh_timestamp (fi_header info),
        pu_error := dr_error r, pu_source := SrcPacket, pu_samples := dr_samples r\<rparr>, x',
        b\<lparr>jb_decoder := d, jb_from_packet := jb_from_packet b + 1, jb_conceal_run := 0\<rparr>)"
      using e by (auto simp: tick_ok_def jb_counts_def)
    then show ?thesis using True by (simp add: jb_play_def f dec tick_ok_step Let_def)
  next
    case False
    have "tick_ok lib b x (out\<lparr>pu_sequence := mh_sequence (fi_header info), pu_timestamp := mh_timestamp (fi_header info),
        pu_error := dr_error r\<rparr>, write_silence (b\<lparr>jb_decoder := d\<rparr>) x',
        b\<lparr>jb_decoder := d, jb_decode_errors := jb_decode_errors b + 1, jb_silence := jb_silence b + 1\<rparr>)"
      using e len out write_silence_effect [of "b\<lparr>jb_decoder := d\<rparr>" x']
      by (auto simp: tick_ok_def jb_counts_def)
    then show ?thesis using False by (simp add: jb_play_def f dec tick_ok_step Let_def)
  qed
qed

lemma jb_conceal_or_mute_tick:
  assumes lib: "opus_contract lib" and inv: "jb_inv lib b" and opn: "decoder_is_open (jb_decoder b)"
    and len: "unat (jb_frame_pcm b) \<le> length x"
    and out: "pu_source out = SrcSilence" "unat (pu_samples out) \<le> unat (jb_frame_pcm b)"
  shows "tick_ok lib b x (jb_conceal_or_mute lib b x out)"
proof (cases "jc_max_conceal_run (jb_config b) \<le> jb_conceal_run b")
  case True
  define c where "c = (if jb_conceal_run b = jc_max_conceal_run (jb_config b)
                 then jb_reset_decoder lib (b\<lparr>jb_muted := jb_muted b + 1\<rparr>) else b)"
  have m: "jb_inv lib (b\<lparr>jb_muted := jb_muted b + 1\<rparr>)" using inv by (auto)
  have "jb_inv lib c \<and> jb_geometry c = jb_geometry b \<and> jb_counts c = jb_counts b \<and> jb_frame_pcm c = jb_frame_pcm b"
    using inv jb_reset_decoder_effect [OF lib m] by (auto simp: c_def jb_counts_def)
  then have c: "jb_inv lib c" "jb_geometry c = jb_geometry b" "jb_counts c = jb_counts b" "jb_frame_pcm c = jb_frame_pcm b"
    by simp_all
  have "tick_ok lib b x (out\<lparr>pu_source := SrcSilence\<rparr>, write_silence c x,
      c\<lparr>jb_silence := jb_silence c + 1, jb_conceal_run := jb_conceal_run c + 1\<rparr>)"
    using c len out write_silence_effect [of c x]
    by (auto simp: tick_ok_def jb_counts_def)
  then show ?thesis using True by (simp add: jb_conceal_or_mute_def Let_def c_def)
next
  case False
  obtain r x' d where dec: "decoder_conceal lib (jb_decoder b) x = (r, x', d)" by (metis prod_cases3)
  note e = decode_in_tick [OF lib inv opn dec [unfolded decoder_conceal_def]]
  show ?thesis
    using False e len out write_silence_effect [of "b\<lparr>jb_decoder := d, jb_conceal_run := jb_conceal_run b + 1\<rparr>" x']
    by (auto simp: jb_conceal_or_mute_def dec tick_ok_def jb_counts_def Let_def)
qed

lemma jb_try_fec_tick:
  assumes lib: "opus_contract lib" and inv: "jb_inv lib b" and opn: "decoder_is_open (jb_decoder b)"
    and res: "jb_try_fec lib b x out = (filled, out', x', b')"
  shows "filled \<Longrightarrow> unat (jb_frame_pcm b) \<le> length x \<Longrightarrow> tick_ok lib b x (out', x', b')"
    "\<not> filled \<Longrightarrow> out' = out \<and> jb_inv lib b' \<and> jb_geometry b' = jb_geometry b \<and>
       jb_counts b' = jb_counts b \<and> length x' = length x \<and>
       drop (unat (jb_frame_pcm b)) x' = drop (unat (jb_frame_pcm b)) x \<and> jb_queue b' = jb_queue b"
proof -
  have "(filled \<longrightarrow> tick_ok lib b x (out', x', b')) \<and>
    (\<not> filled \<longrightarrow> out' = out \<and> jb_inv lib b' \<and> jb_geometry b' = jb_geometry b \<and>
       jb_counts b' = jb_counts b \<and> length x' = length x \<and>
       drop (unat (jb_frame_pcm b)) x' = drop (unat (jb_frame_pcm b)) x \<and> jb_queue b' = jb_queue b)"
  proof (cases "\<exists>info payload. rq_peek (jb_queue b) (rq_cursor (jb_queue b) + 1) = Some (info, payload) \<and>
      packet_has_redundancy lib payload")
    case False
    then show ?thesis using res inv by (auto simp: jb_try_fec_def split: option.splits if_splits)
  next
    case True
    then obtain info payload where pk: "rq_peek (jb_queue b) (rq_cursor (jb_queue b) + 1) = Some (info, payload)"
      "packet_has_redundancy lib payload" by blast
    then have ne: "payload \<noteq> []" by (auto simp: packet_has_redundancy_def)
    obtain r y d where dec: "decoder_recover_previous lib (jb_decoder b) payload x = (r, y, d)" by (metis prod_cases3)
    then have "run_decode lib (jb_decoder b) (Some payload) (int32_size payload) x 1 DecForwardCorrection = (r, y, d)"
      using ne by (simp add: decoder_recover_previous_def)
    note e = decode_in_tick [OF lib inv opn this]
    show ?thesis using res pk dec e
      by (auto simp: jb_try_fec_def tick_ok_def jb_counts_def Let_def split: if_splits)
  qed
  then show "filled \<Longrightarrow> unat (jb_frame_pcm b) \<le> length x \<Longrightarrow> tick_ok lib b x (out', x', b')"
    "\<not> filled \<Longrightarrow> out' = out \<and> jb_inv lib b' \<and> jb_geometry b' = jb_geometry b \<and>
       jb_counts b' = jb_counts b \<and> length x' = length x \<and>
       drop (unat (jb_frame_pcm b)) x' = drop (unat (jb_frame_pcm b)) x \<and> jb_queue b' = jb_queue b"
    by auto
qed

lemma tick_ok_trans:
  assumes "jb_geometry c = jb_geometry b" "jb_counts c = jb_counts b" "length y = length x"
    "drop (unat (jb_frame_pcm b)) y = drop (unat (jb_frame_pcm b)) x" "tick_ok lib c y r"
  shows "tick_ok lib b x r"
  using assms jb_inv_geometry [OF assms(1)] by (auto simp: tick_ok_def)

lemma jb_fill_hole_tick:
  assumes lib: "opus_contract lib" and inv: "jb_inv lib b" and opn: "decoder_is_open (jb_decoder b)"
    and len: "unat (jb_frame_pcm b) \<le> length x"
    and out: "pu_source out = SrcSilence" "unat (pu_samples out) \<le> unat (jb_frame_pcm b)"
  shows "tick_ok lib b x (jb_fill_hole lib b x out)"
proof (cases "jb_has_end b \<and> \<not> precedes_or_equal (rq_cursor (jb_queue b)) (jb_end_sequence b)")
  case True
  have "tick_ok lib b x (out\<lparr>pu_source := SrcSilence\<rparr>, write_silence b x, b\<lparr>jb_silence := jb_silence b + 1\<rparr>)"
    using inv len out write_silence_effect [of b x]
    by (auto simp: tick_ok_def jb_counts_def)
  then show ?thesis using True by (simp add: jb_fill_hole_def tick_ok_step)
next
  case False
  obtain filled o' y c where fec: "(if jc_fec (jb_config b) then jb_try_fec lib b x out else (False, out, x, b)) =
      (filled, o', y, c)" by (metis prod_cases4)
  have "tick_ok lib b x (o', y, c)" if filled
    using that fec jb_try_fec_tick(1) [OF lib inv opn _ _ len] by (auto split: if_splits)
  moreover have "tick_ok lib b x (jb_conceal_or_mute lib c y o')" if "\<not> filled"
  proof -
    have c: "o' = out" "jb_inv lib c" "jb_geometry c = jb_geometry b" "jb_counts c = jb_counts b"
      "length y = length x" "drop (unat (jb_frame_pcm b)) y = drop (unat (jb_frame_pcm b)) x"
      using that fec inv jb_try_fec_tick(2) [OF lib inv opn, of x out] by (auto split: if_splits)
    note g = jb_inv_geometry [OF c(3)]
    have "tick_ok lib c y (jb_conceal_or_mute lib c y o')"
      using c g opn len out by (intro jb_conceal_or_mute_tick [OF lib c(2)]) simp_all
    then show ?thesis using tick_ok_trans c by blast
  qed
  ultimately have "tick_ok lib b x (if filled then (o', y, c) else jb_conceal_or_mute lib c y o')" by simp
  then show ?thesis using False fec
    by (cases "jb_conceal_or_mute lib c y o'") (auto simp: jb_fill_hole_def tick_ok_step split: if_splits)
qed

lemma peek_and_align_effect:
  assumes "peek_and_align b = (have, b')"
  shows "jb_inv lib b' \<longleftrightarrow> jb_inv lib b" "jb_geometry b' = jb_geometry b" "jb_counts b' = jb_counts b"
    "jb_queue b' = jb_queue b" "jb_decoder b' = jb_decoder b" "have = rq_peek_next (jb_queue b)"
    "jb_anchor_ts b' = jb_anchor_ts b" "jb_anchor_local_us b' = jb_anchor_local_us b"
    "jb_anchored b' = jb_anchored b"
  using assms by (auto simp: peek_and_align_def jb_counts_def split: option.splits if_splits)

lemma jb_catch_up_effect:
  assumes "opus_contract lib" "jb_inv lib b"
  shows "jb_inv lib (jb_catch_up lib b n)" "jb_geometry (jb_catch_up lib b n) = jb_geometry b"
    "jb_counts (jb_catch_up lib b n) = jb_counts b"
proof -
  define c where "c = b\<lparr>jb_queue := snd (rq_skip_to (jb_queue b) (rq_cursor (jb_queue b) + ucast (min n kMaxCatchupJump))),
           jb_playout_ts := jb_playout_ts b + ucast (min n kMaxCatchupJump) * jb_frame_ts b,
           jb_catchups := jb_catchups b + 1, jb_catchup_frames := jb_catchup_frames b + min n kMaxCatchupJump,
           jb_conceal_run := 0\<rparr>"
  have q: "rq_inv (snd (rq_skip_to (jb_queue b) t))" for t
    using rq_skip_to_effect(1) jb_invD(1) [OF assms(2)] by blast
  have c: "jb_inv lib c" "jb_geometry c = jb_geometry b"
    using jb_invD [OF assms(2)] q by (simp_all add: c_def jb_inv_def)
  have eq: "jb_catch_up lib b n = jb_reset_decoder lib c" by (simp add: jb_catch_up_def c_def Let_def)
  show "jb_inv lib (jb_catch_up lib b n)" "jb_geometry (jb_catch_up lib b n) = jb_geometry b"
    using jb_reset_decoder_effect [OF assms(1) c(1)] c(2) by (simp_all add: eq)
  show "jb_counts (jb_catch_up lib b n) = jb_counts b" by (simp add: eq c_def jb_counts_def)
qed

lemma jb_pull_tick:
  assumes lib: "opus_contract lib" and inv: "jb_inv lib b" and opn: "decoder_is_open (jb_decoder b)"
    and len: "unat (jb_frame_pcm b) \<le> length x"
  shows "tick_ok lib b x (jb_pull lib b x now)"
proof -
  define out where "out = \<lparr>pu_source = SrcSilence, pu_sequence = rq_cursor (jb_queue b),
     pu_timestamp = jb_playout_ts b, pu_samples = jb_frame_pcm b, pu_error = 0\<rparr>"
  have idle: "tick_ok lib c x (o', write_silence c x, c\<lparr>jb_silence := jb_silence c + 1\<rparr>)"
    if "jb_inv lib c" "jb_frame_pcm c = jb_frame_pcm b" "pu_source o' = SrcSilence"
      "pu_samples o' = jb_frame_pcm b" for c o'
    using that len write_silence_effect [of c x] by (simp add: tick_ok_def jb_counts_def)
  show ?thesis
  proof (cases "jb_anchored b")
    case False
    then show ?thesis using idle [OF inv, of out] opn len
      by (simp add: jb_pull_def out_def Let_def)
  next
    case anch: True
    obtain have1 b1 where pa: "peek_and_align b = (have1, b1)" by fastforce
    note p = peek_and_align_effect [OF pa]
    have b1: "jb_inv lib b1" "jb_geometry b1 = jb_geometry b" by (simp_all add: p inv)
    note g1 = jb_inv_geometry [OF b1(2)]
    define due where "due = jb_deadline_of b1 (jb_playout_ts b1)"
    show ?thesis
    proof (cases "now < due")
      case True
      have "tick_ok lib b1 x (out\<lparr>pu_timestamp := jb_playout_ts b1\<rparr>, write_silence b1 x,
          b1\<lparr>jb_silence := jb_silence b1 + 1\<rparr>)"
        using g1 by (intro idle [OF b1(1)]) (simp_all add: out_def)
      then have "tick_ok lib b x (out\<lparr>pu_timestamp := jb_playout_ts b1\<rparr>, write_silence b1 x,
          b1\<lparr>jb_silence := jb_silence b1 + 1\<rparr>)"
        using tick_ok_trans [OF p(2) p(3)] by blast
      then show ?thesis using True anch opn len
        by (simp add: jb_pull_def pa out_def Let_def due_def)
    next
      case late: False
      define behind where "behind = (now - due) div jb_frame_us b1"
      define jumps where "jumps \<longleftrightarrow> behind > ucast (jc_max_catchup_frames (jb_config b1))"
      obtain have2 b2 where pa2: "peek_and_align (jb_catch_up lib b1 behind) = (have2, b2)" by fastforce
      note p2 = peek_and_align_effect [OF pa2]
      note cu = jb_catch_up_effect [OF lib b1(1), of behind]
      define c where "c = (if jumps then b2 else b1)"
      define hv where "hv = (if jumps then have2 else have1)"
      define o2 where "o2 = (if jumps then out\<lparr>pu_sequence := rq_cursor (jb_queue (jb_catch_up lib b1 behind)),
         pu_timestamp := jb_playout_ts b2\<rparr>
         else out\<lparr>pu_timestamp := jb_playout_ts b1\<rparr>)"
      have c: "jb_inv lib c" "jb_geometry c = jb_geometry b" "jb_counts c = jb_counts b"
        by (simp_all add: c_def b1 p p2 cu inv)
      have o2: "pu_source o2 = SrcSilence" "pu_samples o2 = jb_frame_pcm b" by (simp_all add: o2_def out_def)
      have res: "jb_pull lib b x now =
          (case hv of Some f \<Rightarrow> jb_play lib c f x o2 | None \<Rightarrow> jb_fill_hole lib c x o2)"
        using late anch opn len
        by (simp add: jb_pull_def pa pa2 Let_def out_def [symmetric] due_def [symmetric] behind_def [symmetric]
            jumps_def [symmetric]) (cases jumps; simp add: hv_def c_def o2_def split: option.split)
      note g = jb_inv_geometry [OF c(2)]
      have "tick_ok lib c x (case hv of Some f \<Rightarrow> jb_play lib c f x o2 | None \<Rightarrow> jb_fill_hole lib c x o2)"
        using g o2 opn len by (auto split: option.split intro!: jb_play_tick [OF lib c(1)] jb_fill_hole_tick [OF lib c(1)])
      then show ?thesis unfolding res using tick_ok_trans [OF c(2,3)] by blast
    qed
  qed
qed

section \<open>Push keeps the invariant\<close>

lemma jb_anchor_effect [simp]:
  "jb_inv lib (jb_anchor b ts t) \<longleftrightarrow> jb_inv lib b" "jb_geometry (jb_anchor b ts t) = jb_geometry b"
  "jb_queue (jb_anchor b ts t) = jb_queue b"
  by (simp_all add: jb_anchor_def)

lemma jb_inv_queue: "jb_inv lib b \<Longrightarrow> rq_inv q \<Longrightarrow> jb_inv lib (b\<lparr>jb_queue := q\<rparr>)"
  by (simp add: jb_inv_def)

lemma jb_reset_stream_inv:
  assumes "opus_contract lib" "jb_inv lib b"
  shows "jb_inv lib (jb_reset_stream lib b)" "jb_geometry (jb_reset_stream lib b) = jb_geometry b"
proof -
  have "jb_inv lib (b\<lparr>jb_queue := rq_reset (jb_queue b)\<rparr>)"
    using assms(2) by (intro jb_inv_queue rq_reset_effect(1) jb_invD(1))
  then show "jb_inv lib (jb_reset_stream lib b)" "jb_geometry (jb_reset_stream lib b) = jb_geometry b"
    unfolding jb_reset_stream_def by (simp_all add: jb_reset_decoder_effect [OF assms(1)])
qed

lemma jb_restart_inv:
  assumes "opus_contract lib" "jb_inv lib b"
  shows "jb_inv lib (jb_restart lib b h t)" "jb_geometry (jb_restart lib b h t) = jb_geometry b"
proof -
  have "jb_inv lib (b\<lparr>jb_queue := rq_resync (jb_queue b) (mh_sequence h)\<rparr>)"
    using assms(2) by (intro jb_inv_queue rq_resync_effect(1) jb_invD(1))
  then show "jb_inv lib (jb_restart lib b h t)" "jb_geometry (jb_restart lib b h t) = jb_geometry b"
    unfolding jb_restart_def by (simp_all add: jb_reset_decoder_effect [OF assms(1)])
qed

lemma jb_select_stream_inv:
  assumes "opus_contract lib" "jb_inv lib b" "jb_select_stream lib b h t = Some b'"
  shows "jb_inv lib b'" "jb_geometry b' = jb_geometry b"
  using assms(2,3) jb_reset_stream_inv [OF assms(1,2)]
  by (auto simp: jb_select_stream_def Let_def split: if_splits)

lemma jb_place_inv:
  assumes "opus_contract lib" "jb_inv lib b"
  shows "jb_inv lib (jb_place lib b h t)" "jb_geometry (jb_place lib b h t) = jb_geometry b"
proof -
  have "jb_inv lib (b\<lparr>jb_has_end := False\<rparr>)" using assms(2) by simp
  note r = jb_restart_inv [OF assms(1) this]
  have "jb_inv lib ((jb_anchor b (mh_timestamp h) t)\<lparr>jb_queue := rq_start (jb_queue b) (mh_sequence h)\<rparr>)"
    using assms(2) rq_start_effect(1) [OF jb_invD(1) [OF assms(2)]] by (intro jb_inv_queue) simp_all
  then show "jb_inv lib (jb_place lib b h t)" "jb_geometry (jb_place lib b h t) = jb_geometry b"
    using assms(2) r by (simp_all add: jb_place_def Let_def)
qed

lemma jb_note_end_inv [simp]:
  "jb_inv lib (jb_note_end b h) \<longleftrightarrow> jb_inv lib b" "jb_geometry (jb_note_end b h) = jb_geometry b"
  by (simp_all add: jb_note_end_def)

lemma jb_insert_inv:
  assumes "jb_inv lib b" "jb_insert b h payload t = (r, b')"
  shows "jb_inv lib b'" "jb_geometry b' = jb_geometry b"
proof -
  have b': "b' = b\<lparr>jb_queue := snd (rq_insert (jb_queue b) (jb_info b h t) payload t)\<rparr>"
    using assms(2) by (auto simp: jb_insert_def split: prod.splits)
  show "jb_inv lib b'" unfolding b' using assms(1) by (intro jb_inv_queue rq_insert_inv jb_invD(1))
  show "jb_geometry b' = jb_geometry b" by (simp add: b')
qed

lemma jb_push_inv:
  assumes lib: "opus_contract lib" and inv: "jb_inv lib b"
  shows "jb_inv lib (snd (jb_push lib b packet t))" "jb_geometry (snd (jb_push lib b packet t)) = jb_geometry b"
proof -
  let ?h = "mp_header packet"
  have "jb_inv lib (snd (jb_push lib b packet t)) \<and> jb_geometry (snd (jb_push lib b packet t)) = jb_geometry b"
  proof (cases "\<not> decoder_is_open (jb_decoder b) \<or> jb_select_stream lib b ?h t = None")
    case True
    then show ?thesis using inv by (auto simp: jb_push_def Let_def)
  next
    case False
    then obtain b1 where sel: "jb_select_stream lib b ?h t = Some b1" by blast
    note s = jb_select_stream_inv [OF lib inv sel]
    define b2 where "b2 = jb_note_end (jb_place lib (b1\<lparr>jb_last_arrival_us := t\<rparr>) ?h t) ?h"
    have "jb_inv lib (b1\<lparr>jb_last_arrival_us := t\<rparr>)" using s by simp
    note pl = jb_place_inv [OF lib this]
    have b2: "jb_inv lib b2" "jb_geometry b2 = jb_geometry b" using pl s by (simp_all add: b2_def)
    obtain r b3 where ins: "jb_insert b2 ?h (mp_payload packet) t = (r, b3)" by fastforce
    note i = jb_insert_inv [OF b2(1) ins]
    note rs = jb_restart_inv [OF lib i(1), of ?h t]
    have "jb_inv lib ((jb_restart lib b3 ?h t)\<lparr>jb_has_end := False\<rparr>)" using rs by simp
    then have far: "jb_inv lib b4 \<and> jb_geometry b4 = jb_geometry b"
      if "jb_insert ((jb_restart lib b3 ?h t)\<lparr>jb_has_end := False\<rparr>) ?h (mp_payload packet) t = (r4, b4)" for r4 b4
      using jb_insert_inv [OF \<open>jb_inv lib ((jb_restart lib b3 ?h t)\<lparr>jb_has_end := False\<rparr>)\<close> that] rs i b2
      by simp
    show ?thesis
    proof (cases "r = InsTooFarAhead")
      case True
      obtain r4 b4 where "jb_insert ((jb_restart lib b3 ?h t)\<lparr>jb_has_end := False\<rparr>) ?h (mp_payload packet) t = (r4, b4)"
        by fastforce
      then show ?thesis using False sel ins True far
        by (simp add: jb_push_def Let_def b2_def)
    next
      case other: False
      then have "snd (jb_push lib b packet t) = b3"
        using False sel ins by (cases r) (simp_all add: jb_push_def Let_def b2_def)
      then show ?thesis using i b2 by simp
    qed
  qed
  then show "jb_inv lib (snd (jb_push lib b packet t))" "jb_geometry (snd (jb_push lib b packet t)) = jb_geometry b"
    by simp_all
qed

section \<open>Sessions\<close>

datatype jb_event = JbOpen jb_config | JbClose | JbReset | JbPush media_packet micros | JbPull pcm micros

fun jb_event_step :: "('e, 'd) opus \<Rightarrow> 'd jitter_buffer \<Rightarrow> jb_event \<Rightarrow> 'd jitter_buffer" where
  "jb_event_step lib b (JbOpen c) = snd (jb_open lib b c)"
| "jb_event_step lib b JbClose = jb_close b"
| "jb_event_step lib b JbReset = jb_reset_stream lib b"
| "jb_event_step lib b (JbPush p t) = snd (jb_push lib b p t)"
| "jb_event_step lib b (JbPull x now) = snd (snd (jb_pull lib b x now))"

definition jb_run :: "('e, 'd) opus \<Rightarrow> jb_event list \<Rightarrow> 'd jitter_buffer" where
  "jb_run lib = foldl (jb_event_step lib) jb_init"

lemma jb_pull_refused:
  "length x < unat (jb_frame_pcm b) \<or> \<not> decoder_is_open (jb_decoder b) \<Longrightarrow>
   jb_pull lib b x now = (\<lparr>pu_source = SrcSilence, pu_sequence = rq_cursor (jb_queue b),
     pu_timestamp = jb_playout_ts b, pu_samples = 0, pu_error = -2\<rparr>, x, b)"
  by (auto simp: jb_pull_def Let_def)

lemma jb_event_inv: "opus_contract lib \<Longrightarrow> jb_inv lib b \<Longrightarrow> jb_inv lib (jb_event_step lib b e)"
proof (cases e)
  case (JbPull x now)
  assume a: "opus_contract lib" "jb_inv lib b"
  show ?thesis
  proof (cases "length x < unat (jb_frame_pcm b) \<or> \<not> decoder_is_open (jb_decoder b)")
    case True
    then show ?thesis using a JbPull jb_pull_refused [OF True, of lib now] by simp
  next
    case False
    then have "tick_ok lib b x (jb_pull lib b x now)" using a by (intro jb_pull_tick) simp_all
    then show ?thesis using JbPull by (auto simp: tick_ok_def split: prod.splits)
  qed
qed (simp_all add: jb_inv_open jb_inv_close jb_reset_stream_inv jb_push_inv)

text \<open>The machine of a library that keeps its contract, and the invariant of its sessions.\<close>

interpretation jbm: invariant_machine "jb_event_step lib" "\<lambda>b. opus_contract lib \<and> jb_inv lib b" for lib
  by unfold_locales (simp add: jb_event_inv)

lemma jb_run_inv: "opus_contract lib \<Longrightarrow> jb_inv lib (jb_run lib es)"
  using jbm.run_inv [of lib jb_init es] by (simp add: jb_run_def jb_inv_init)

section \<open>Deadlines\<close>

lemma jb_deadline_forward:
  assumes "0 \<le> distance (jb_anchor_ts b) ts"
  shows "jb_deadline_of b ts = jb_anchor_local_us b + samples_to_us (of_int (distance (jb_anchor_ts b) ts))"
  using assms by (simp add: jb_deadline_of_def Let_def)

lemma jb_deadline_backward: "distance (jb_anchor_ts b) ts < 0 \<Longrightarrow> jb_deadline_of b ts \<le> jb_anchor_local_us b"
proof -
  assume "distance (jb_anchor_ts b) ts < 0"
  then show ?thesis
    by (simp add: jb_deadline_of_def Let_def linorder_not_less word_sub_le)
qed

lemma jb_step_sel [simp]:
  "jb_catchups (jb_step b) = jb_catchups b" "jb_conceal_run (jb_step b) = jb_conceal_run b"
  by (simp_all add: jb_step_def)

lemma jb_catchups_frame [simp]:
  "jb_catchups (snd (snd (jb_play lib b f x out))) = jb_catchups b"
  "jb_catchups (snd (snd (jb_fill_hole lib b x out))) = jb_catchups b"
proof -
  show "jb_catchups (snd (snd (jb_play lib b f x out))) = jb_catchups b"
    by (simp add: jb_play_def Let_def split: prod.splits)
  have m: "jb_catchups (snd (snd (jb_conceal_or_mute lib c y o'))) = jb_catchups c" for c y o'
    by (simp add: jb_conceal_or_mute_def jb_reset_decoder_def Let_def split: prod.splits)
  have f: "jb_catchups (snd (snd (snd (jb_try_fec lib b x out)))) = jb_catchups b"
    by (simp add: jb_try_fec_def Let_def split: prod.splits option.splits)
  show "jb_catchups (snd (snd (jb_fill_hole lib b x out))) = jb_catchups b"
    using m f by (auto simp: jb_fill_hole_def split: prod.splits) (metis snd_conv)+
qed

lemma jb_play_timestamp:
  "pu_timestamp (fst (jb_play lib b (info, payload) x out)) = mh_timestamp (fi_header info)"
  by (simp add: jb_play_def Let_def split: prod.splits)

lemma jb_fill_hole_timestamp: "pu_timestamp (fst (jb_fill_hole lib b x out)) = pu_timestamp out"
proof -
  have m: "pu_timestamp (fst (jb_conceal_or_mute lib c y o')) = pu_timestamp o'" for c y o'
    by (simp add: jb_conceal_or_mute_def Let_def split: prod.splits)
  have f: "pu_timestamp (fst (snd (jb_try_fec lib b x out))) = pu_timestamp out"
    by (simp add: jb_try_fec_def Let_def split: prod.splits option.splits)
  show ?thesis using m f by (auto simp: jb_fill_hole_def split: prod.splits) (metis fst_conv snd_conv)+
qed

text \<open>The three shapes of a tick on an anchored, open buffer.\<close>

lemma jb_pull_cases:
  assumes opn: "decoder_is_open (jb_decoder b)" and len: "unat (jb_frame_pcm b) \<le> length x"
    and anch: "jb_anchored b" and pa: "peek_and_align b = (hv, b1)"
  obtains (early) "now < jb_deadline_of b1 (jb_playout_ts b1)"
      "jb_pull lib b x now = (\<lparr>pu_source = SrcSilence, pu_sequence = rq_cursor (jb_queue b),
         pu_timestamp = jb_playout_ts b1, pu_samples = jb_frame_pcm b, pu_error = 0\<rparr>,
         write_silence b1 x, b1\<lparr>jb_silence := jb_silence b1 + 1\<rparr>)"
    | (walk) out where "jb_deadline_of b1 (jb_playout_ts b1) \<le> now" "pu_timestamp out = jb_playout_ts b1"
      "jb_pull lib b x now = (case hv of Some f \<Rightarrow> jb_play lib b1 f x out | None \<Rightarrow> jb_fill_hole lib b1 x out)"
    | (jump) out hv2 b2 where "jb_deadline_of b1 (jb_playout_ts b1) \<le> now"
      "(now - jb_deadline_of b1 (jb_playout_ts b1)) div jb_frame_us b1 > ucast (jc_max_catchup_frames (jb_config b1))"
      "peek_and_align (jb_catch_up lib b1 ((now - jb_deadline_of b1 (jb_playout_ts b1)) div jb_frame_us b1)) = (hv2, b2)"
      "jb_pull lib b x now = (case hv2 of Some f \<Rightarrow> jb_play lib b2 f x out | None \<Rightarrow> jb_fill_hole lib b2 x out)"
proof (cases "now < jb_deadline_of b1 (jb_playout_ts b1)")
  case True
  show ?thesis using True assms by (intro early) (simp_all add: jb_pull_def Let_def)
next
  case late: False
  define o1 where "o1 = \<lparr>pu_source = SrcSilence, pu_sequence = rq_cursor (jb_queue b),
         pu_timestamp = jb_playout_ts b1, pu_samples = jb_frame_pcm b, pu_error = 0\<rparr>"
  define n where "n = (now - jb_deadline_of b1 (jb_playout_ts b1)) div jb_frame_us b1"
  show ?thesis
  proof (cases "n > ucast (jc_max_catchup_frames (jb_config b1))")
    case True
    obtain hv2 b2 where pa2: "peek_and_align (jb_catch_up lib b1 n) = (hv2, b2)" by fastforce
    show ?thesis
    proof (rule jump [of hv2 b2 "o1\<lparr>pu_sequence := rq_cursor (jb_queue (jb_catch_up lib b1 n)), pu_timestamp := jb_playout_ts b2\<rparr>"])
    qed (use late True pa2 assms in \<open>simp_all add: jb_pull_def Let_def n_def o1_def split: option.split\<close>)
  next
    case False
    show ?thesis
    proof (rule walk [of o1])
    qed (use late False assms in \<open>simp_all add: jb_pull_def Let_def n_def o1_def split: option.split\<close>)
  qed
qed

section \<open>Concealment runs\<close>

lemma jb_fill_hole_conceals:
  assumes "pu_source (fst (jb_fill_hole lib b x out)) = SrcConcealment" "pu_source out = SrcSilence"
  shows "jb_conceal_run b < jc_max_conceal_run (jb_config b)"
    "jb_conceal_run (snd (snd (jb_fill_hole lib b x out))) = jb_conceal_run b + 1"
    "jb_config (snd (snd (jb_fill_hole lib b x out))) = jb_config b"
proof -
  obtain filled o' y c where fec: "(if jc_fec (jb_config b) then jb_try_fec lib b x out else (False, out, x, b)) =
      (filled, o', y, c)" by (metis prod_cases4)
  have f: "filled \<Longrightarrow> pu_source o' = SrcForwardCorrection" "\<not> filled \<Longrightarrow> o' = out"
    "\<not> filled \<Longrightarrow> jb_conceal_run c = jb_conceal_run b \<and> jb_config c = jb_config b"
    using fec by (auto simp: jb_try_fec_def Let_def split: if_splits option.splits prod.splits)
  have live: "\<not> (jb_has_end b \<and> \<not> precedes_or_equal (rq_cursor (jb_queue b)) (jb_end_sequence b))"
  proof
    assume "jb_has_end b \<and> \<not> precedes_or_equal (rq_cursor (jb_queue b)) (jb_end_sequence b)"
    then have "pu_source (fst (jb_fill_hole lib b x out)) = SrcSilence" by (simp add: jb_fill_hole_def)
    with assms(1) show False by simp
  qed
  have res: "jb_fill_hole lib b x out =
      (case if filled then (o', y, c) else jb_conceal_or_mute lib c y o' of (o2, x2, b2) \<Rightarrow> (o2, x2, jb_step b2))"
    using live fec by (auto simp: jb_fill_hole_def split: prod.splits)
  have nf: "\<not> filled" using assms f(1) res by auto
  obtain o2 x2 b2 where cm: "jb_conceal_or_mute lib c y out = (o2, x2, b2)" by (metis prod_cases3)
  have "pu_source o2 = SrcConcealment" using assms nf f(2) res cm by simp
  then have "jb_conceal_run c < jc_max_conceal_run (jb_config c) \<and> jb_conceal_run b2 = jb_conceal_run c + 1 \<and>
      jb_config b2 = jb_config c"
    using cm assms(2) by (auto simp: jb_conceal_or_mute_def Let_def split: if_splits prod.splits)
  then show "jb_conceal_run b < jc_max_conceal_run (jb_config b)"
    "jb_conceal_run (snd (snd (jb_fill_hole lib b x out))) = jb_conceal_run b + 1"
    "jb_config (snd (snd (jb_fill_hole lib b x out))) = jb_config b"
    using nf f(2,3) res cm by (simp_all add: jb_step_def)
qed

lemma jb_play_source:
  "pu_source out = SrcSilence \<Longrightarrow> pu_source (fst (jb_play lib b f x out)) \<in> {SrcPacket, SrcSilence}"
  by (auto simp: jb_play_def Let_def split: prod.splits)

lemma jb_catch_up_catchups [simp]: "jb_catchups (jb_catch_up lib b n) = jb_catchups b + 1"
  by (simp add: jb_catch_up_def jb_reset_decoder_def Let_def)

lemma peek_and_align_catchups: "peek_and_align b = (hv, b1) \<Longrightarrow> jb_catchups b1 = jb_catchups b \<and>
   jb_conceal_run b1 = jb_conceal_run b \<and> jb_config b1 = jb_config b"
  by (auto simp: peek_and_align_def split: option.splits if_splits)

lemma jb_pull_silent:
  "pu_source (fst (jb_pull lib b x now)) \<noteq> SrcSilence \<Longrightarrow>
   decoder_is_open (jb_decoder b) \<and> unat (jb_frame_pcm b) \<le> length x \<and> jb_anchored b"
  by (auto simp: jb_pull_def Let_def split: if_splits)

text \<open>A tick that produced audio without a catch-up is a walk.\<close>

lemma jb_pull_audio:
  assumes "pu_source (fst (jb_pull lib b x now)) \<noteq> SrcSilence"
    and "jb_catchups (snd (snd (jb_pull lib b x now))) = jb_catchups b" and pa: "peek_and_align b = (hv, b1)"
  obtains out where "jb_deadline_of b1 (jb_playout_ts b1) \<le> now" "pu_timestamp out = jb_playout_ts b1"
      "pu_source out = SrcSilence"
      "jb_pull lib b x now = (case hv of Some f \<Rightarrow> jb_play lib b1 f x out | None \<Rightarrow> jb_fill_hole lib b1 x out)"
proof -
  note a = jb_pull_silent [OF assms(1)]
  define o1 where "o1 = \<lparr>pu_source = SrcSilence, pu_sequence = rq_cursor (jb_queue b),
         pu_timestamp = jb_playout_ts b1, pu_samples = jb_frame_pcm b, pu_error = 0\<rparr>"
  define n where "n = (now - jb_deadline_of b1 (jb_playout_ts b1)) div jb_frame_us b1"
  have late: "\<not> now < jb_deadline_of b1 (jb_playout_ts b1)"
    using a assms(1) pa by (auto simp: jb_pull_def Let_def)
  have "\<not> n > ucast (jc_max_catchup_frames (jb_config b1))"
  proof
    assume jump: "n > ucast (jc_max_catchup_frames (jb_config b1))"
    obtain hv2 b2 where pa2: "peek_and_align (jb_catch_up lib b1 n) = (hv2, b2)" by fastforce
    have "jb_catchups b2 = jb_catchups b + 1"
      using peek_and_align_catchups [OF pa] peek_and_align_catchups [OF pa2] by simp
    moreover have "jb_catchups (snd (snd (jb_pull lib b x now))) = jb_catchups b2"
      using jump late a pa pa2 by (simp add: jb_pull_def Let_def n_def split: option.split)
    ultimately show False using assms(2) by simp
  qed
  then show ?thesis using late a pa
    by (intro that [of o1]) (simp_all add: jb_pull_def Let_def n_def o1_def split: option.split)
qed

fun concealed_ticks :: "('e, 'd) opus \<Rightarrow> 'd jitter_buffer \<Rightarrow> (pcm \<times> micros) list \<Rightarrow> bool" where
  "concealed_ticks lib b [] = True"
| "concealed_ticks lib b ((x, now) # ticks) =
     (let (out, x', b') = jb_pull lib b x now in
      pu_source out = SrcConcealment \<and> jb_catchups b' = jb_catchups b \<and> concealed_ticks lib b' ticks)"

lemma jb_conceal_tick:
  assumes "jb_pull lib b x now = (out, x', b')" "pu_source out = SrcConcealment" "jb_catchups b' = jb_catchups b"
  shows "jb_conceal_run b < jc_max_conceal_run (jb_config b)" "jb_conceal_run b' = jb_conceal_run b + 1"
    "jb_config b' = jb_config b"
proof -
  obtain hv b1 where pa: "peek_and_align b = (hv, b1)" by fastforce
  obtain o1 where w: "pu_source o1 = SrcSilence"
    "jb_pull lib b x now = (case hv of Some f \<Rightarrow> jb_play lib b1 f x o1 | None \<Rightarrow> jb_fill_hole lib b1 x o1)"
    using jb_pull_audio [OF _ _ pa, of lib x now] assms by (metis fst_conv jb_source.distinct(11) snd_conv)
  have "hv = None"
  proof (cases hv)
    case (Some f)
    from w(2) have "(out, x', b') = jb_play lib b1 f x o1" by (simp add: Some assms(1))
    then have "fst (jb_play lib b1 f x o1) = out" by (metis fst_conv)
    then show ?thesis using jb_play_source [OF w(1), of lib b1 f x] assms(2) by simp
  qed
  then have "jb_fill_hole lib b1 x o1 = (out, x', b')" using w assms by simp
  with jb_fill_hole_conceals [of lib b1 x o1] w(1) assms(2) peek_and_align_catchups [OF pa]
  show "jb_conceal_run b < jc_max_conceal_run (jb_config b)" "jb_conceal_run b' = jb_conceal_run b + 1"
    "jb_config b' = jb_config b"
    by simp_all
qed

lemma concealed_ticks_bound:
  "concealed_ticks lib b ticks \<Longrightarrow>
   ticks = [] \<or> unat (jb_conceal_run b) + length ticks \<le> unat (jc_max_conceal_run (jb_config b))"
proof (induction lib b ticks rule: concealed_ticks.induct)
  case (2 lib b x now ticks)
  obtain out x' b' where p: "jb_pull lib b x now = (out, x', b')" by (metis prod_cases3)
  with "2.prems" have c: "pu_source out = SrcConcealment" "jb_catchups b' = jb_catchups b" "concealed_ticks lib b' ticks"
    by simp_all
  note t = jb_conceal_tick [OF p c(1,2)]
  have lt: "unat (jb_conceal_run b) < unat (jc_max_conceal_run (jb_config b))"
    using t(1) by (simp add: word_less_nat_alt)
  have "jb_conceal_run b \<noteq> -1" using t(1) by (metis word_order.extremum_strict)
  then have "unat (jb_conceal_run b') = Suc (unat (jb_conceal_run b))" by (simp add: t(2) unat_plus_one)
  moreover have "ticks = [] \<or> unat (jb_conceal_run b') + length ticks \<le> unat (jc_max_conceal_run (jb_config b'))"
    using "2.IH" [OF p [symmetric] refl refl c(3)] p by simp
  ultimately show ?case using lt t(3) by auto
qed simp

section \<open>A stalled consumer\<close>

text \<open>
  Two datagrams of one stream: sequence 0, and sequence 7 that follows a DTX gap (its timestamp is
  9600 samples, 200 ms, where seven frames would be 6720). Six frames in between were lost.
\<close>

definition stall_packet :: "u32 \<Rightarrow> u32 \<Rightarrow> media_packet" where
  "stall_packet s ts = \<lparr>mp_header = \<lparr>mh_flags = 0, mh_stream_id = 7, mh_sequence = s, mh_timestamp = ts\<rparr>,
     mp_payload = [1]\<rparr>"

definition stall_events :: "jb_event list" where
  "stall_events = [JbOpen default_jb_config, JbPush (stall_packet 0 0) 0, JbPush (stall_packet 7 9600) 200000]"

definition stall_info :: "u32 \<Rightarrow> u32 \<Rightarrow> micros \<Rightarrow> micros \<Rightarrow> frame_info" where
  "stall_info s ts t d = \<lparr>fi_header = mp_header (stall_packet s ts), fi_arrival_us = t, fi_deadline_us = d\<rparr>"

text \<open>A library whose packets hold half a frame: 480 samples instead of 960.\<close>

definition half_opus :: "(unit, int) opus" where
  "half_opus = silent_opus\<lparr>op_decode := (\<lambda>d data len fs fec.
     if fs < 480 then (-2, [], d) else (480, replicate (nat (480 * d)) 0, d))\<rparr>"

lemma half_opus_contract: "opus_contract half_opus"
  by (auto simp: opus_contract_def decode_contract_def half_opus_def silent_opus_def)

lemma rq_reset_init: "rq_reset rq_init = rq_init"
proof -
  have "vacate empty_slot = empty_slot" by (simp add: vacate_def empty_slot_def)
  then show ?thesis by (simp add: rq_reset_def rq_init_def)
qed

definition stall_open :: "int jitter_buffer" where
  "stall_open = jb_init\<lparr>jb_decoder := \<lparr>dec_state = Some 1, dec_config = default_decoder_config, dec_last_error = 0\<rparr>\<rparr>"

lemma stall_open_eq:
  assumes "\<And>rate ch. op_dec_create lib rate ch = (Some ch, 0)"
  shows "jb_open lib jb_init default_jb_config = (True, stall_open)"
proof -
  have us: "us_to_samples 20000 = 960" by (simp add: us_to_samples_def)
  show ?thesis
    by (simp add: jb_open_def jb_close_def jb_init_def rq_reset_init decoder_open_def decoder_close_def
      decoder_init_def default_jb_config_def default_decoder_config_def assms valid_960 kFrameSamples_960
      kSampleRateHz_def opus_ok_code_def Let_def stall_open_def us)
qed

definition stall_q1 :: reorder_queue where
  "stall_q1 = snd (rq_insert (rq_start rq_init 0) (stall_info 0 0 0 60000) [1] 0)"

definition stall_q2 :: reorder_queue where
  "stall_q2 = snd (rq_insert stall_q1 (stall_info 7 9600 200000 260000) [1] 200000)"

lemma stall_q1_facts:
  "rq_insert (rq_start rq_init 0) (stall_info 0 0 0 60000) [1] 0 = (InsAccepted, stall_q1)"
  "rq_inv stall_q1" "rq_started stall_q1" "rq_cursor stall_q1 = 0"
  "rq_peek stall_q1 = [0 \<mapsto> (stall_info 0 0 0 60000, [1])]"
proof -
  have none: "rq_peek rq_init = (\<lambda>_. None)" by (simp add: rq_peek_def rq_init_def fun_eq_iff)
  note st = rq_start_effect [OF rq_inv_init, of 0]
  have c: "rq_cursor (rq_start rq_init 0) = 0" by (simp add: rq_start_def rq_init_def)
  have v: "rq_verdict (rq_start rq_init 0) (stall_info 0 0 0 60000) [1] 0 = InsAccepted"
    by (simp add: rq_verdict_def rq_anchored_def st c none stall_info_def stall_packet_def Let_def)
  show "rq_insert (rq_start rq_init 0) (stall_info 0 0 0 60000) [1] 0 = (InsAccepted, stall_q1)"
    using rq_insert_verdict [OF st(1)] v by (metis prod.collapse stall_q1_def)
  show "rq_inv stall_q1" by (simp add: stall_q1_def rq_insert_inv st)
  show "rq_cursor stall_q1 = 0" by (simp add: stall_q1_def rq_insert_cursor st c)
  show p: "rq_peek stall_q1 = [0 \<mapsto> (stall_info 0 0 0 60000, [1])]"
    by (simp add: stall_q1_def rq_insert_peek st v none) (simp add: stall_info_def stall_packet_def)
  show "rq_started stall_q1"
  proof (rule ccontr)
    assume "\<not> rq_started stall_q1"
    then have "rq_peek stall_q1 0 = None" by (simp add: rq_peek_def)
    then show False by (simp add: p)
  qed
qed

lemma stall_q2_facts:
  "rq_insert stall_q1 (stall_info 7 9600 200000 260000) [1] 200000 = (InsAccepted, stall_q2)"
  "rq_inv stall_q2" "rq_started stall_q2" "rq_cursor stall_q2 = 0"
  "rq_peek stall_q2 = [0 \<mapsto> (stall_info 0 0 0 60000, [1]), 7 \<mapsto> (stall_info 7 9600 200000 260000, [1])]"
proof -
  note q = stall_q1_facts
  have d: "distance 0 7 = 7" by (simp add: distance_def)
  have v: "rq_verdict stall_q1 (stall_info 7 9600 200000 260000) [1] 200000 = InsAccepted"
    by (simp add: rq_verdict_def rq_anchored_def q d stall_info_def stall_packet_def Let_def)
  show "rq_insert stall_q1 (stall_info 7 9600 200000 260000) [1] 200000 = (InsAccepted, stall_q2)"
    using rq_insert_verdict [OF q(2)] v by (metis prod.collapse stall_q2_def)
  show "rq_inv stall_q2" by (simp add: stall_q2_def rq_insert_inv q)
  show "rq_cursor stall_q2 = 0" by (simp add: stall_q2_def rq_insert_cursor q)
  show p: "rq_peek stall_q2 = [0 \<mapsto> (stall_info 0 0 0 60000, [1]), 7 \<mapsto> (stall_info 7 9600 200000 260000, [1])]"
    by (simp add: stall_q2_def rq_insert_peek q v) (simp add: stall_info_def stall_packet_def)
  show "rq_started stall_q2"
  proof (rule ccontr)
    assume "\<not> rq_started stall_q2"
    then have "rq_peek stall_q2 0 = None" by (simp add: rq_peek_def)
    then show False by (simp add: p)
  qed
qed

definition stall_b1 :: "int jitter_buffer" where
  "stall_b1 = stall_open\<lparr>jb_has_stream := True, jb_stream_id := 7, jb_anchor_local_us := 60000,
     jb_anchored := True, jb_anchors := 1, jb_queue := stall_q1\<rparr>"

definition stall_b2 :: "int jitter_buffer" where
  "stall_b2 = stall_b1\<lparr>jb_last_arrival_us := 200000, jb_queue := stall_q2\<rparr>"

lemma stall_deadline:
  "jb_anchor_ts b = 0 \<Longrightarrow> jb_anchor_local_us b = 60000 \<Longrightarrow> jb_deadline_of b 0 = 60000"
  "jb_anchor_ts b = 0 \<Longrightarrow> jb_anchor_local_us b = 60000 \<Longrightarrow> jb_deadline_of b 9600 = 260000"
proof -
  have "distance 0 9600 = 9600" by (simp add: distance_def)
  then show "jb_anchor_ts b = 0 \<Longrightarrow> jb_anchor_local_us b = 60000 \<Longrightarrow> jb_deadline_of b 0 = 60000"
    "jb_anchor_ts b = 0 \<Longrightarrow> jb_anchor_local_us b = 60000 \<Longrightarrow> jb_deadline_of b 9600 = 260000"
    by (simp_all add: jb_deadline_of_def samples_to_us_def)
qed

lemma stall_push1: "jb_push lib stall_open (stall_packet 0 0) 0 = (PushAccepted, stall_b1)"
proof -
  have ins: "rq_insert (rq_start rq_init 0) \<lparr>fi_header = \<lparr>mh_flags = 0, mh_stream_id = 7, mh_sequence = 0, mh_timestamp = 0\<rparr>,
     fi_arrival_us = 0, fi_deadline_us = 60000\<rparr> [1] 0 = (InsAccepted, stall_q1)"
    using stall_q1_facts(1) by (simp add: stall_info_def stall_packet_def)
  show ?thesis
    by (simp add: jb_push_def stall_open_def jb_init_def decoder_is_open_def jb_select_stream_def
      jb_place_def jb_anchor_def jb_note_end_def jb_insert_def jb_info_def stall_packet_def talkspurt_end_def
      default_jb_config_def Let_def stall_b1_def kTalkspurtEnd_def jb_deadline_of_def samples_to_us_def ins)
qed

lemma stall_push2: "jb_push lib stall_b1 (stall_packet 7 9600) 200000 = (PushAccepted, stall_b2)"
proof -
  have ins: "rq_insert stall_q1 \<lparr>fi_header = \<lparr>mh_flags = 0, mh_stream_id = 7, mh_sequence = 7, mh_timestamp = 9600\<rparr>,
     fi_arrival_us = 200000, fi_deadline_us = 260000\<rparr> [1] 200000 = (InsAccepted, stall_q2)"
    using stall_q2_facts(1) by (simp add: stall_info_def stall_packet_def)
  have d: "distance 0 9600 = 9600" by (simp add: distance_def)
  show ?thesis
    by (simp add: jb_push_def stall_b1_def stall_open_def jb_init_def decoder_is_open_def jb_select_stream_def
      jb_place_def jb_note_end_def jb_insert_def jb_info_def stall_packet_def talkspurt_end_def talkspurt_start_def
      Let_def stall_b2_def kTalkspurtEnd_def kTalkspurtStart_def jb_deadline_of_def samples_to_us_def d ins)
qed

lemma stall_run:
  assumes "\<And>rate ch. op_dec_create lib rate ch = (Some ch, 0)"
  shows "jb_run lib stall_events = stall_b2"
  by (simp add: jb_run_def stall_events_def stall_open_eq [OF assms] stall_push1 stall_push2)

lemma stall_b2_facts:
  "jb_queue stall_b2 = stall_q2" "jb_anchored stall_b2" "decoder_is_open (jb_decoder stall_b2)"
  "jb_frame_pcm stall_b2 = 960" "jb_frame_us stall_b2 = 20000" "jb_frame_ts stall_b2 = 960"
  "jb_playout_ts stall_b2 = 0" "jb_anchor_ts stall_b2 = 0" "jb_anchor_local_us stall_b2 = 60000"
  "jb_config stall_b2 = default_jb_config" "jb_catchups stall_b2 = 0"
  "dec_state (jb_decoder stall_b2) = Some 1" "dec_config (jb_decoder stall_b2) = default_decoder_config"
  by (simp_all add: stall_b2_def stall_b1_def stall_open_def jb_init_def decoder_is_open_def kFrameSamples_960)

lemma stall_decode:
  assumes "960 \<le> length x"
  shows "\<exists>d. decoder_decode silent_opus (jb_decoder stall_b2) [1] x =
      (\<lparr>dr_samples = 960, dr_source = DecPacket, dr_error = 0\<rparr>, replicate 960 0 @ drop 960 x, d)"
    "\<exists>d. decoder_decode half_opus (jb_decoder stall_b2) [1] x =
      (\<lparr>dr_samples = 480, dr_source = DecPacket, dr_error = 0\<rparr>, replicate 480 0 @ drop 480 x, d)"
  using assms
  by (simp_all add: decoder_decode_def run_decode_def stall_b2_facts silent_opus_def half_opus_def Let_def
      default_decoder_config_def dec_needed_def kFrameSamples_960)

lemma stall_align: "peek_and_align stall_b2 = (Some (stall_info 0 0 0 60000, [1]), stall_b2)"
  by (simp add: peek_and_align_def rq_peek_next_def stall_b2_facts stall_q2_facts stall_info_def
      stall_packet_def)

text \<open>A pull at the deadline plays sequence 0.\<close>

lemma stall_pull_on_time:
  assumes "960 \<le> length x"
  shows "pu_source (fst (jb_pull silent_opus stall_b2 x 60000)) = SrcPacket"
    "pu_timestamp (fst (jb_pull silent_opus stall_b2 x 60000)) = 0"
    "jb_catchups (snd (snd (jb_pull silent_opus stall_b2 x 60000))) = 0"
    "fst (jb_pull half_opus stall_b2 x 60000) =
       \<lparr>pu_source = SrcPacket, pu_sequence = 0, pu_timestamp = 0, pu_samples = 480, pu_error = 0\<rparr>"
    "fst (snd (jb_pull half_opus stall_b2 x 60000)) = replicate 480 0 @ drop 480 x"
proof -
  obtain d where d: "decoder_decode silent_opus (jb_decoder stall_b2) [1] x =
      (\<lparr>dr_samples = 960, dr_source = DecPacket, dr_error = 0\<rparr>, replicate 960 0 @ drop 960 x, d)"
    using stall_decode(1) [OF assms] by blast
  obtain h where h: "decoder_decode half_opus (jb_decoder stall_b2) [1] x =
      (\<lparr>dr_samples = 480, dr_source = DecPacket, dr_error = 0\<rparr>, replicate 480 0 @ drop 480 x, h)"
    using stall_decode(2) [OF assms] by blast
  have pull: "jb_pull lib stall_b2 x 60000 = jb_play lib stall_b2 (stall_info 0 0 0 60000, [1]) x
      \<lparr>pu_source = SrcSilence, pu_sequence = 0, pu_timestamp = 0, pu_samples = 960, pu_error = 0\<rparr>"
    for lib :: "(unit, int) opus"
    using assms by (simp add: jb_pull_def stall_align stall_b2_facts stall_q2_facts stall_deadline Let_def
      default_jb_config_def)
  show "pu_source (fst (jb_pull silent_opus stall_b2 x 60000)) = SrcPacket"
    "pu_timestamp (fst (jb_pull silent_opus stall_b2 x 60000)) = 0"
    "jb_catchups (snd (snd (jb_pull silent_opus stall_b2 x 60000))) = 0"
    by (simp_all add: pull jb_play_def d decode_result_ok_def stall_b2_facts stall_info_def stall_packet_def)
  show "fst (jb_pull half_opus stall_b2 x 60000) =
       \<lparr>pu_source = SrcPacket, pu_sequence = 0, pu_timestamp = 0, pu_samples = 480, pu_error = 0\<rparr>"
    "fst (snd (jb_pull half_opus stall_b2 x 60000)) = replicate 480 0 @ drop 480 x"
    by (simp_all add: pull jb_play_def h decode_result_ok_def stall_info_def stall_packet_def)
qed

text \<open>A pull 145 ms late jumps seven positions and lands on sequence 7.\<close>

lemma stall_pull_late:
  assumes "960 \<le> length x"
  shows "pu_source (fst (jb_pull silent_opus stall_b2 x 205000)) = SrcPacket"
    "pu_sequence (fst (jb_pull silent_opus stall_b2 x 205000)) = 7"
    "pu_timestamp (fst (jb_pull silent_opus stall_b2 x 205000)) = 9600"
proof -
  have n: "(205000 - 60000) div 20000 = (7 :: u64)" by simp
  have mx: "min 7 kMaxCatchupJump = 7" by (simp add: kMaxCatchupJump_def min_def)
  have d7: "distance 0 7 = 7" "precedes 6720 9600" by (simp_all add: distance_def precedes_def)
  have w: "rq_in_window 7 7" by simp
  define q where "q = snd (rq_skip_to stall_q2 7)"
  note sk = rq_skip_to_effect [OF stall_q2_facts(2), of 7]
  have q: "rq_cursor q = 7" "rq_peek q 7 = Some (stall_info 7 9600 200000 260000, [1])"
    by (simp_all add: q_def sk stall_q2_facts d7)
  define c where "c = jb_catch_up silent_opus stall_b2 7"
  have c: "jb_queue c = q" "jb_playout_ts c = 6720" "jb_decoder c = jb_decoder stall_b2"
    "jb_frame_pcm c = 960"
    by (simp_all add: c_def jb_catch_up_def mx stall_b2_facts stall_q2_facts q_def Let_def
        jb_reset_decoder_def decoder_reset_state_def silent_opus_def opus_ok_code_def)
  define c2 where "c2 = c\<lparr>jb_playout_ts := 9600\<rparr>"
  have al: "peek_and_align c = (Some (stall_info 7 9600 200000 260000, [1]), c2)"
    by (simp add: peek_and_align_def rq_peek_next_def c q stall_info_def stall_packet_def d7 c2_def)
  obtain d where d: "decoder_decode silent_opus (jb_decoder stall_b2) [1] x =
      (\<lparr>dr_samples = 960, dr_source = DecPacket, dr_error = 0\<rparr>, replicate 960 0 @ drop 960 x, d)"
    using stall_decode(1) [OF assms] by blast
  have "jb_pull silent_opus stall_b2 x 205000 = jb_play silent_opus c2 (stall_info 7 9600 200000 260000, [1]) x
      \<lparr>pu_source = SrcSilence, pu_sequence = 7, pu_timestamp = 9600, pu_samples = 960, pu_error = 0\<rparr>"
    using assms by (simp add: jb_pull_def stall_align stall_b2_facts stall_q2_facts stall_deadline n Let_def
      default_jb_config_def flip: c_def) (simp add: al c q c2_def)
  then show "pu_source (fst (jb_pull silent_opus stall_b2 x 205000)) = SrcPacket"
    "pu_sequence (fst (jb_pull silent_opus stall_b2 x 205000)) = 7"
    "pu_timestamp (fst (jb_pull silent_opus stall_b2 x 205000)) = 9600"
    by (simp_all add: jb_play_def c2_def c d decode_result_ok_def stall_info_def stall_packet_def)
qed

lemma silent_create: "op_dec_create silent_opus rate ch = (Some ch, 0)"
  by (simp add: silent_opus_def)

lemma half_create: "op_dec_create half_opus rate ch = (Some ch, 0)"
  by (simp add: half_opus_def silent_opus_def)

section \<open>Properties\<close>

text \<open>
  C4. One frame per tick: in any session with a library that keeps its contract, a pull on an open
  buffer with room for a frame moves exactly the counter its \<open>source\<close> names, by one, reports at
  most one frame of samples, keeps the length of the PCM span and writes nothing beyond one frame.
\<close>

theorem jb_pull_one_frame:
  assumes "opus_contract lib" "b = jb_run lib es"
    and "decoder_is_open (jb_decoder b)" "unat (jb_frame_pcm b) \<le> length x"
    and "jb_pull lib b x now = (out, x', b')"
  shows "jb_counts b' = bump (pu_source out) (jb_counts b) \<and>
    unat (pu_samples out) \<le> unat (jb_frame_pcm b) \<and> length x' = length x \<and>
    drop (unat (jb_frame_pcm b)) x' = drop (unat (jb_frame_pcm b)) x"
  using jb_pull_tick [OF assms(1) _ assms(3,4), of now] jb_run_inv [OF assms(1), of es] assms(2,5)
  by (simp add: tick_ok_def)

theorem jb_pull_one_frame_witness:
  "jb_counts (snd (snd (jb_pull silent_opus (jb_run silent_opus stall_events) (replicate 960 7) 60000)))
     = bump SrcPacket (jb_counts stall_b2)"
proof -
  have len: "unat (jb_frame_pcm stall_b2) \<le> length (replicate 960 (7 :: 16 word))"
    by (simp add: stall_b2_facts)
  obtain out x' b' where p: "jb_pull silent_opus stall_b2 (replicate 960 7) 60000 = (out, x', b')"
    by (metis prod_cases3)
  have "pu_source out = SrcPacket" using stall_pull_on_time(1) [of "replicate 960 7"] p by simp
  then show ?thesis
    using jb_pull_one_frame [OF silent_opus_contract refl, of stall_events "replicate 960 7" 60000 out x' b'] p len
    by (simp add: stall_run silent_create stall_b2_facts)
qed

text \<open>
  C29. No early playout on the walking path: a tick that emits audio without a catch-up happens at
  or after the deadline of the playout position, and a frame whose timestamp is at or ahead of
  that position is not emitted before its own deadline.
\<close>

theorem jb_walk_respects_deadline:
  assumes "jb_pull lib b x now = (out, x', b')" "pu_source out \<noteq> SrcSilence" "jb_catchups b' = jb_catchups b"
    and "precedes_or_equal (jb_playout_ts b) (pu_timestamp out)"
  shows "jb_deadline_of b (pu_timestamp out) \<le> now"
proof -
  obtain hv b1 where pa: "peek_and_align b = (hv, b1)" by fastforce
  note al = peek_and_align_effect [OF pa]
  obtain o1 where w: "jb_deadline_of b1 (jb_playout_ts b1) \<le> now" "pu_timestamp o1 = jb_playout_ts b1"
    "jb_pull lib b x now = (case hv of Some f \<Rightarrow> jb_play lib b1 f x o1 | None \<Rightarrow> jb_fill_hole lib b1 x o1)"
    using jb_pull_audio [OF _ _ pa, of lib x now] assms(1-3) by (metis fst_conv snd_conv)
  have dl: "jb_deadline_of b1 ts = jb_deadline_of b ts" for ts
    by (simp add: jb_deadline_of_def al(7,8) Let_def)
  have "jb_playout_ts b1 = pu_timestamp out"
  proof (cases hv)
    case None
    with w(3) have "(out, x', b') = jb_fill_hole lib b1 x o1" by (simp add: assms(1))
    then show ?thesis using w(2) jb_fill_hole_timestamp [of lib b1 x o1] by (metis fst_conv)
  next
    case (Some f)
    obtain info payload where f: "f = (info, payload)" by fastforce
    have ts: "pu_timestamp out = mh_timestamp (fi_header info)"
      using w(3) assms(1) jb_play_timestamp [of lib b1 info payload x o1] Some f by (metis fst_conv option.simps(5))
    have "rq_peek_next (jb_queue b) = Some (info, payload)" using al(6) Some f by simp
    then have "jb_playout_ts b1 = (if precedes (jb_playout_ts b) (mh_timestamp (fi_header info))
        then mh_timestamp (fi_header info) else jb_playout_ts b)"
      using pa by (auto simp: peek_and_align_def)
    then show ?thesis using assms(4) ts by (auto simp: precedes_or_equal_iff)
  qed
  then show ?thesis using w(1) dl by simp
qed

theorem jb_walk_respects_deadline_witness: "jb_deadline_of stall_b2 0 \<le> 60000"
proof -
  obtain out x' b' where p: "jb_pull silent_opus stall_b2 (replicate 960 7) 60000 = (out, x', b')"
    by (metis prod_cases3)
  have o: "pu_source out = SrcPacket" "pu_timestamp out = 0" "jb_catchups b' = 0"
    using stall_pull_on_time(1-3) [of "replicate 960 7"] p by simp_all
  show ?thesis
    using jb_walk_respects_deadline [OF p] o by (simp add: stall_b2_facts precedes_or_equal_def)
qed

text \<open>
  A catch-up does play early: 145 ms behind, the buffer jumps onto sequence 7, whose timestamp
  lies beyond a DTX gap, aligns the playout position on it, and emits it at 205 ms although its
  deadline is at 260 ms. The deadline is not checked again after the jump.
\<close>

theorem jb_catchup_plays_early:
  "let b = jb_run silent_opus stall_events; out = fst (jb_pull silent_opus b (replicate 960 0) 205000) in
     pu_source out = SrcPacket \<and> pu_sequence out = 7 \<and> jb_deadline_of b (pu_timestamp out) = 260000"
  by (simp add: stall_run silent_create stall_pull_late stall_deadline stall_b2_facts)

text \<open>
  A packet that holds less than a frame leaves the tail of the device buffer as it was found:
  with a 480-sample packet, the last 480 samples of the previous tick go to the speaker again,
  although \<open>pull\<close> is documented to always write a full frame.
\<close>

theorem jb_short_packet_keeps_stale_tail:
  "opus_contract half_opus \<and>
   (let b = jb_run half_opus stall_events; (out, x', b') = jb_pull half_opus b (replicate 960 7) 60000 in
      jb_frame_pcm b = 960 \<and> pu_source out = SrcPacket \<and> pu_samples out = 480 \<and>
      drop 480 x' = replicate 480 7)"
proof -
  obtain out x' b' where p: "jb_pull half_opus stall_b2 (replicate 960 7) 60000 = (out, x', b')"
    by (metis prod_cases3)
  then have "pu_source out = SrcPacket" "pu_samples out = 480" "x' = replicate 480 0 @ drop 480 (replicate 960 7)"
    using stall_pull_on_time(4,5) [of "replicate 960 7"] by simp_all
  then show ?thesis
    by (simp add: half_opus_contract stall_run half_create p stall_b2_facts)
qed



lemma jb_insert_verdict:
  "rq_inv (jb_queue b) \<Longrightarrow> fst (jb_insert b h payload t) = rq_verdict (jb_queue b) (jb_info b h t) payload t"
  by (simp add: jb_insert_def case_prod_unfold rq_insert_verdict)

text \<open>An accepted insertion through the buffer.\<close>

lemma jb_insert_accepted:
  assumes "jb_inv lib b" "jb_insert b h payload t = (InsAccepted, b')"
  shows "rq_peek (jb_queue b') (mh_sequence h) = Some (jb_info b h t, payload)"
    "t \<le> jb_deadline_of b (mh_timestamp h)" "jb_deadline_of b' = jb_deadline_of b"
proof -
  let ?i = "jb_info b h t"
  have q: "rq_inv (jb_queue b)" using assms(1) by (rule jb_invD)
  have "fst (rq_insert (jb_queue b) ?i payload t) = InsAccepted"
    and b': "b' = b\<lparr>jb_queue := snd (rq_insert (jb_queue b) ?i payload t)\<rparr>"
    using assms(2) by (auto simp: jb_insert_def split: prod.splits)
  then have v: "rq_verdict (jb_queue b) ?i payload t = InsAccepted" by (simp add: rq_insert_verdict [OF q])
  then show "rq_peek (jb_queue b') (mh_sequence h) = Some (jb_info b h t, payload)"
    by (simp add: b' rq_insert_peek [OF q]) (simp add: jb_info_def)
  show "t \<le> jb_deadline_of b (mh_timestamp h)"
    using rq_verdict_accepted [OF v] by (simp add: jb_info_def)
  show "jb_deadline_of b' = jb_deadline_of b" by (simp add: b' jb_deadline_of_def fun_eq_iff Let_def)
qed

text \<open>After a restart on a frame, that frame fits unless it is too large or the clock overflows.\<close>

lemma jb_restart_fits:
  assumes lib: "opus_contract lib" and inv: "jb_inv lib b" and len: "length payload \<le> 512"
    and clk: "t \<le> t + jc_target_delay_us (jb_config b)"
  shows "fst (jb_insert ((jb_restart lib b h t)\<lparr>jb_has_end := False\<rparr>) h payload t) = InsAccepted"
proof -
  let ?r = "(jb_restart lib b h t)\<lparr>jb_has_end := False\<rparr>" and ?q = "rq_resync (jb_queue b) (mh_sequence h)"
  note rs = rq_resync_effect [OF jb_invD(1) [OF inv]]
  have q: "jb_queue ?r = ?q" "jb_deadline_of ?r (mh_timestamp h) = t + jc_target_delay_us (jb_config b)"
    by (simp_all add: jb_restart_def jb_anchor_def jb_deadline_of_def samples_to_us_def)
  have "rq_started ?q" "rq_cursor ?q = mh_sequence h" by (simp_all add: rq_resync_def)
  then have "rq_verdict ?q (jb_info ?r h t) payload t = InsAccepted"
    using len clk q(2) rs(2) by (simp add: rq_verdict_def rq_anchored_def jb_info_def Let_def linorder_not_less)
  then show ?thesis
    using jb_insert_verdict [of ?r h payload t] rs(1) by (simp add: q(1))
qed

text \<open>
  What \<open>push\<close> reports is what the queue holds: after \<open>Accepted\<close> or \<open>Resynced\<close> the frame can be
  looked up under its sequence number with its own bytes and a deadline not before its arrival,
  and \<open>Oversized\<close> is reported only for a payload larger than a slot or a clock about to overflow.
\<close>

theorem jb_push_verdicts:
  assumes lib: "opus_contract lib" and p: "jb_push lib (jb_run lib es) packet t = (v, b')"
  shows "(v \<in> {PushAccepted, PushResynced} \<longrightarrow>
      (\<exists>info. rq_peek (jb_queue b') (mh_sequence (mp_header packet)) = Some (info, mp_payload packet) \<and>
         fi_header info = mp_header packet \<and> t \<le> fi_deadline_us info)) \<and>
    (v = PushOversized \<longrightarrow> 512 < length (mp_payload packet) \<or> t + jc_target_delay_us (jb_config b') < t)"
proof -
  let ?h = "mp_header packet" and ?b = "jb_run lib es"
  have inv: "jb_inv lib ?b" using lib by (rule jb_run_inv)
  show ?thesis
  proof (cases "\<not> decoder_is_open (jb_decoder ?b) \<or> jb_select_stream lib ?b ?h t = None")
    case True
    then have "v \<in> {PushClosed, PushForeign}" using p by (auto simp: jb_push_def Let_def split: if_splits option.splits)
    then show ?thesis by auto
  next
    case False
    then obtain b1 where sel: "jb_select_stream lib ?b ?h t = Some b1" by blast
    define b2 where "b2 = jb_note_end (jb_place lib (b1\<lparr>jb_last_arrival_us := t\<rparr>) ?h t) ?h"
    have "jb_inv lib (b1\<lparr>jb_last_arrival_us := t\<rparr>)" using jb_select_stream_inv(1) [OF lib inv sel] by simp
    then have b2: "jb_inv lib b2" by (simp add: b2_def jb_place_inv [OF lib])
    obtain r b3 where ins: "jb_insert b2 ?h (mp_payload packet) t = (r, b3)" by fastforce
    have b3: "jb_inv lib b3" by (rule jb_insert_inv [OF b2 ins])
    define b4 where "b4 = (jb_restart lib b3 ?h t)\<lparr>jb_has_end := False\<rparr>"
    have b4: "jb_inv lib b4" by (simp add: b4_def jb_restart_inv [OF lib b3])
    obtain r5 b5 where ins5: "jb_insert b4 ?h (mp_payload packet) t = (r5, b5)" by fastforce
    have res: "(v, b') = (case r of
        InsTooFarAhead \<Rightarrow> (if r5 = InsAccepted then PushResynced else PushOversized, b5)
      | InsAccepted \<Rightarrow> (PushAccepted, b3) | InsDuplicate \<Rightarrow> (PushDuplicate, b3) | InsLate \<Rightarrow> (PushLate, b3)
      | InsTooOld \<Rightarrow> (PushTooOld, b3) | InsOversized \<Rightarrow> (PushOversized, b3))"
      using p False sel ins ins5 by (auto simp: jb_push_def Let_def b2_def b4_def split: rq_insert_result.splits)
    show ?thesis
    proof (cases r)
      case InsAccepted
      then show ?thesis using res jb_insert_accepted [OF b2] ins by (auto simp: jb_info_def)
    next
      case InsOversized
      have "rq_verdict (jb_queue b2) (jb_info b2 ?h t) (mp_payload packet) t = InsOversized"
        using ins InsOversized jb_insert_verdict [OF jb_invD(1) [OF b2], of ?h "mp_payload packet" t] by simp
      then show ?thesis using res InsOversized by (auto simp: rq_verdict_def Let_def split: if_splits)
    next
      case InsTooFarAhead
      have cfg: "jb_config b5 = jb_config b3"
        using jb_insert_inv(2) [OF b4 ins5] jb_restart_inv(2) [OF lib b3, of ?h t]
        by (simp add: b4_def jb_inv_geometry [of b5 b3])
      show ?thesis
      proof (cases "r5 = InsAccepted")
        case True
        then show ?thesis using res InsTooFarAhead jb_insert_accepted [OF b4] ins5 by (auto simp: jb_info_def)
      next
        case False
        then have "512 < length (mp_payload packet) \<or> t + jc_target_delay_us (jb_config b3) < t"
          using jb_restart_fits [OF lib b3, of "mp_payload packet" t ?h] ins5
          by (fastforce simp: b4_def)
        then show ?thesis using res InsTooFarAhead False cfg by simp
      qed
    qed (use res in auto)
  qed
qed

theorem jb_push_verdicts_witness:
  "\<exists>info. rq_peek (jb_queue stall_b2) 7 = Some (info, [1]) \<and> 200000 \<le> fi_deadline_us info"
proof -
  define e1 where "e1 = [JbOpen default_jb_config, JbPush (stall_packet 0 0) 0]"
  have "jb_run silent_opus e1 = stall_b1"
    by (simp add: e1_def jb_run_def stall_open_eq [OF silent_create] stall_push1)
  then have "jb_push silent_opus (jb_run silent_opus e1) (stall_packet 7 9600) 200000 = (PushAccepted, stall_b2)"
    by (simp add: stall_push2)
  from jb_push_verdicts [OF silent_opus_contract this] show ?thesis
    by (auto simp: stall_packet_def)
qed

text \<open>
  A stream takeover loses the arrival history: \<open>reset_stream\<close> is documented to keep the counters
  because they describe the session, but it resets the queue, whose arrival counters (the ones the
  buffer refers its users to) all return to zero.
\<close>

theorem jb_reset_stream_clears_arrivals:
  "rq_arrivals (jb_queue (jb_reset_stream lib b)) = 0"
  by (simp add: jb_reset_stream_def rq_reset_def rq_init_def rq_arrivals_def)

end
