(* ===== verification/Histogram.thy ===== *)
theory Histogram
  imports Double64 "HOL-Library.Multiset"
begin

text \<open>
  The log-linear histogram (core/include/radio/histogram.hpp, core/src/metrics/histogram.cpp). The
  theory proves the precision claim of the header for all \<open>2^64\<close> values (a value lies in its
  bucket, and the bucket's upper bound exceeds it by at most one part in 32), and that a percentile
  is the bucketed order statistic of the samples recorded: never below it, and never more than
  1/32 above it.
\<close>

section \<open>Buckets\<close>

definition kPrecisionBits :: nat where "kPrecisionBits = 5"
definition kSubBuckets :: nat where "kSubBuckets = 2 ^ kPrecisionBits"
definition kBucketCount :: nat where "kBucketCount = (64 - kPrecisionBits + 1) * kSubBuckets"

text \<open>\<open>std::countl_zero\<close> on 64 bits.\<close>

definition countl_zero :: "u64 \<Rightarrow> nat" where
  "countl_zero v = 64 - floorlog 2 (unat v)"

definition bucket_index :: "u64 \<Rightarrow> nat" where
  "bucket_index value =
     (if value < of_nat kSubBuckets then unat value
      else
        let exponent = 63 - countl_zero value;
            octave = exponent - kPrecisionBits;
            pos = drop_bit octave value - of_nat kSubBuckets;
            index = (octave + 1) * kSubBuckets + unat pos in
        if index < kBucketCount then index else kBucketCount - 1)"

definition bucket_upper_bound :: "nat \<Rightarrow> u64" where
  "bucket_upper_bound index =
     (if index < kSubBuckets then of_nat index
      else
        let octave = index div kSubBuckets - 1;
            pos = index mod kSubBuckets;
            low = push_bit octave (of_nat (kSubBuckets + pos)) in
        low + push_bit octave 1 - 1)"

section \<open>State and operations\<close>

record histogram =
  hg_buckets :: "u64 list"
  hg_count :: u64
  hg_sum :: u64
  hg_min :: u64
  hg_max :: u64

definition hg_init :: histogram where
  "hg_init = \<lparr>hg_buckets = replicate kBucketCount 0, hg_count = 0, hg_sum = 0, hg_min = -1, hg_max = 0\<rparr>"

definition hg_record :: "histogram \<Rightarrow> u64 \<Rightarrow> histogram" where
  "hg_record h value =
     (let i = bucket_index value in
      h\<lparr>hg_buckets := (hg_buckets h)[i := hg_buckets h ! i + 1],
        hg_count := hg_count h + 1, hg_sum := hg_sum h + value,
        hg_min := (if value < hg_min h then value else hg_min h),
        hg_max := (if value > hg_max h then value else hg_max h)\<rparr>)"

definition hg_reset :: "histogram \<Rightarrow> histogram" where
  "hg_reset h = hg_init"

definition hg_merge :: "histogram \<Rightarrow> histogram \<Rightarrow> histogram" where
  "hg_merge h other =
     (if hg_count other = 0 then h
      else h\<lparr>hg_buckets := map2 (+) (hg_buckets h) (hg_buckets other),
             hg_count := hg_count h + hg_count other, hg_sum := hg_sum h + hg_sum other,
             hg_min := (if hg_min other < hg_min h then hg_min other else hg_min h),
             hg_max := (if hg_max other > hg_max h then hg_max other else hg_max h)\<rparr>)"

definition hg_minimum :: "histogram \<Rightarrow> u64" where
  "hg_minimum h = (if hg_count h = 0 then 0 else hg_min h)"

definition hg_maximum :: "histogram \<Rightarrow> u64" where
  "hg_maximum h = hg_max h"

definition hg_mean :: "histogram \<Rightarrow> double" where
  "hg_mean h = (if hg_count h = 0 then 0 else d_div (d_of_u64 (hg_sum h)) (d_of_u64 (hg_count h)))"

text \<open>The loop over the buckets: the index of the first bucket at which the running sum reaches the rank.\<close>

fun hg_scan :: "u64 list \<Rightarrow> nat \<Rightarrow> u64 \<Rightarrow> u64 \<Rightarrow> nat option" where
  "hg_scan [] i cumulative rank = None"
| "hg_scan (b # bs) i cumulative rank =
     (let cumulative = cumulative + b in
      if cumulative \<ge> rank then Some i else hg_scan bs (i + 1) cumulative rank)"

text \<open>The rank; \<open>None\<close> is the undefined conversion of a double that does not fit 64 bits.\<close>

definition hg_rank :: "double \<Rightarrow> u64 \<Rightarrow> u64 option" where
  "hg_rank p n =
     do {
       rank \<leftarrow> u64_of_d (d_add (d_mul (d_div p 100) (d_of_u64 n)) (1 / 2));
       let rank = (if rank = 0 then 1 else rank);
       Some (if rank > n then n else rank)
     }"

definition hg_percentile :: "histogram \<Rightarrow> double \<Rightarrow> u64 option" where
  "hg_percentile h p =
     (if hg_count h = 0 then Some 0
      else if p \<le> 0 then Some (hg_min h)
      else if p \<ge> 100 then Some (hg_max h)
      else do {
        rank \<leftarrow> hg_rank p (hg_count h);
        Some (case hg_scan (hg_buckets h) 0 0 rank of
                Some i \<Rightarrow> let upper = bucket_upper_bound i in if upper < hg_max h then upper else hg_max h
              | None \<Rightarrow> hg_max h)
      })"

record hg_snapshot =
  hs_count :: u64
  hs_min :: u64
  hs_max :: u64
  hs_mean :: double
  hs_p50 :: u64
  hs_p95 :: u64
  hs_p99 :: u64
  hs_p999 :: u64

definition hg_take_snapshot :: "histogram \<Rightarrow> hg_snapshot option" where
  "hg_take_snapshot h =
     (if hg_count h = 0 then
        Some \<lparr>hs_count = 0, hs_min = 0, hs_max = 0, hs_mean = 0, hs_p50 = 0, hs_p95 = 0, hs_p99 = 0, hs_p999 = 0\<rparr>
      else do {
        p50 \<leftarrow> hg_percentile h 50;
        p95 \<leftarrow> hg_percentile h 95;
        p99 \<leftarrow> hg_percentile h 99;
        p999 \<leftarrow> hg_percentile h (rnd (999 / 10));
        Some \<lparr>hs_count = hg_count h, hs_min = hg_min h, hs_max = hg_max h, hs_mean = hg_mean h,
              hs_p50 = p50, hs_p95 = p95, hs_p99 = p99, hs_p999 = p999\<rparr>
      })"

section \<open>Precision of the buckets\<close>

lemmas hg_consts = kPrecisionBits_def kSubBuckets_def kBucketCount_def

definition octave_of :: "nat \<Rightarrow> nat" where
  "octave_of n = floorlog 2 n - 6"

lemma octave_bounds:
  assumes "32 \<le> n"
  shows "32 * 2 ^ octave_of n \<le> n" "n < 64 * 2 ^ octave_of n"
proof -
  note b = floorlog_bounds [of n 2]
  have pos: "0 < n" using assms by simp
  have "6 \<le> floorlog 2 n"
  proof (rule ccontr)
    assume "\<not> 6 \<le> floorlog 2 n"
    then have "(2::nat) ^ floorlog 2 n \<le> 2 ^ 5" by (intro power_increasing) simp_all
    then show False using b pos assms by simp
  qed
  then obtain o' where o': "floorlog 2 n = o' + 6" by (metis le_add_diff_inverse2)
  then have "octave_of n = o'" by (simp add: octave_of_def)
  then show "32 * 2 ^ octave_of n \<le> n" "n < 64 * 2 ^ octave_of n"
    using b pos o' by (simp_all add: power_add)
qed

lemma octave_u64: "32 \<le> unat v \<Longrightarrow> octave_of (unat v) \<le> 58" for v :: u64
proof (rule ccontr)
  assume "32 \<le> unat v" "\<not> octave_of (unat v) \<le> 58"
  then have "(2::nat) ^ 59 \<le> 2 ^ octave_of (unat v)" by (intro power_increasing) simp_all
  then have "32 * 2 ^ 59 \<le> unat v" using octave_bounds(1) [OF \<open>32 \<le> unat v\<close>] by linarith
  then show False using unat_u64 [of v] by simp
qed

text \<open>The index on natural numbers.\<close>

definition bucket_nat :: "nat \<Rightarrow> nat" where
  "bucket_nat n = (if n < 32 then n else (octave_of n + 1) * 32 + (n div 2 ^ octave_of n - 32))"

definition upper_nat :: "nat \<Rightarrow> nat" where
  "upper_nat i = (if i < 32 then i else (32 + i mod 32) * 2 ^ (i div 32 - 1) + 2 ^ (i div 32 - 1) - 1)"

lemma div_octave:
  assumes "32 \<le> n"
  shows "32 \<le> n div 2 ^ octave_of n" "n div 2 ^ octave_of n < 64"
  using octave_bounds [OF assms] by (simp_all add: less_eq_div_iff_mult_less_eq div_less_iff_less_mult)

lemma mod_32: "32 \<le> x \<Longrightarrow> x < 64 \<Longrightarrow> x mod 32 = x - (32 :: nat)"
  by (simp add: le_mod_geq)

lemma bucket_index_nat: "bucket_index v = bucket_nat (unat v)"
proof (cases "unat v < 32")
  case True
  then show ?thesis by (simp add: bucket_index_def bucket_nat_def hg_consts word_less_nat_alt)
next
  case False
  let ?n = "unat v" and ?o = "octave_of (unat v)"
  have n: "32 \<le> ?n" using False by simp
  have fl: "floorlog 2 ?n \<le> 64"
  proof (rule ccontr)
    assume "\<not> floorlog 2 ?n \<le> 64"
    then have "(2::nat) ^ 64 \<le> 2 ^ (floorlog 2 ?n - 1)" by (intro power_increasing) simp_all
    then show False using floorlog_bounds [of ?n 2] n unat_u64 [of v] by simp
  qed
  then have oct: "63 - countl_zero v - kPrecisionBits = ?o"
    by (simp add: countl_zero_def octave_of_def kPrecisionBits_def)
  have d: "unat (drop_bit ?o v) = ?n div 2 ^ ?o" 
    using unat_lt2p [of v] by (subst unsigned_drop_bit_eq) (simp add: drop_bit_eq_div take_bit_nat_eq_self)
  then have "unat (drop_bit ?o v - 32) = ?n div 2 ^ ?o - 32"
    using div_octave [OF n] by (subst unat_sub) (simp_all add: word_le_nat_alt)
  moreover have "(?o + 1) * 32 + (?n div 2 ^ ?o - 32) < 1920"
    using octave_u64 [OF n] div_octave [OF n] by simp
  ultimately show ?thesis using False oct
    by (simp add: bucket_index_def bucket_nat_def Let_def word_less_nat_alt)
       (simp add: hg_consts)
qed

lemma bucket_nat_less: "n < 2 ^ 64 \<Longrightarrow> bucket_nat n < 1920"
proof -
  assume "n < 2 ^ 64"
  then have "unat (of_nat n :: u64) = n" by (simp add: unat_of_nat_small)
  show ?thesis
  proof (cases "n < 32")
    case False
    then have "octave_of n \<le> 58" using octave_u64 [of "of_nat n"] \<open>unat (of_nat n :: u64) = n\<close> by simp
    then show ?thesis using div_octave [of n] False by (simp add: bucket_nat_def)
  qed (simp add: bucket_nat_def)
qed

lemma upper_arith:
  "a + m = n \<Longrightarrow> m < q \<Longrightarrow> 32 * q \<le> n \<Longrightarrow> n \<le> a + q - 1 \<and> 32 * (a + q - 1 - n) \<le> n" for n :: nat
  by auto

text \<open>A value is in its bucket, and the upper bound is within one part in 32.\<close>

lemma upper_nat_bounds: "n \<le> upper_nat (bucket_nat n)" "32 * (upper_nat (bucket_nat n) - n) \<le> n"
proof -
  have "n \<le> upper_nat (bucket_nat n) \<and> 32 * (upper_nat (bucket_nat n) - n) \<le> n"
  proof (cases "n < 32")
    case True
    then show ?thesis by (simp add: bucket_nat_def upper_nat_def)
  next
    case False
    let ?o = "octave_of n"
    have n: "32 \<le> n" using False by simp
    note d = div_octave [OF n]
    have i: "bucket_nat n div 32 - 1 = ?o" "bucket_nat n mod 32 = n div 2 ^ ?o - 32" "\<not> bucket_nat n < 32"
      using d n by (simp_all add: bucket_nat_def mod_32)
    have "upper_nat (bucket_nat n) = n div 2 ^ ?o * 2 ^ ?o + 2 ^ ?o - 1"
      unfolding upper_nat_def i(1,2) using i(3) d by simp
    moreover have "n \<le> n div 2 ^ ?o * 2 ^ ?o + 2 ^ ?o - 1 \<and> 32 * (n div 2 ^ ?o * 2 ^ ?o + 2 ^ ?o - 1 - n) \<le> n"
      by (rule upper_arith [OF div_mult_mod_eq _ octave_bounds(1) [OF n]]) simp
    ultimately show ?thesis by simp
  qed
  then show "n \<le> upper_nat (bucket_nat n)" "32 * (upper_nat (bucket_nat n) - n) \<le> n" by simp_all
qed

lemma bucket_upper_bound_nat: "unat (bucket_upper_bound (bucket_index v)) = upper_nat (bucket_index v)"
proof (cases "unat v < 32")
  case True
  then show ?thesis
    by (simp add: bucket_index_nat bucket_nat_def bucket_upper_bound_def upper_nat_def hg_consts unat_of_nat_small)
next
  case False
  let ?n = "unat v" and ?o = "octave_of (unat v)"
  have n: "32 \<le> ?n" using False by simp
  note d = div_octave [OF n]
  have i: "bucket_index v div 32 - 1 = ?o" "bucket_index v mod 32 = ?n div 2 ^ ?o - 32" "\<not> bucket_index v < 32"
    using d n by (simp_all add: bucket_index_nat bucket_nat_def mod_32)
  have top: "(?n div 2 ^ ?o) * 2 ^ ?o + 2 ^ ?o \<le> 2 ^ 64"
  proof -
    have "(?n div 2 ^ ?o + 1) * 2 ^ ?o \<le> 64 * 2 ^ ?o" using d by (intro mult_le_mono1) simp
    also have "\<dots> \<le> 64 * 2 ^ 58" using octave_u64 [OF n] by (intro mult_le_mono2 power_increasing) simp_all
    finally show ?thesis by simp
  qed
  have "bucket_upper_bound (bucket_index v) = of_nat ((?n div 2 ^ ?o) * 2 ^ ?o + 2 ^ ?o - 1)"
  proof -
    have "(of_nat ((?n div 2 ^ ?o) * 2 ^ ?o + 2 ^ ?o - 1) :: u64) = of_nat ((?n div 2 ^ ?o) * 2 ^ ?o + 2 ^ ?o) - 1"
      using of_nat_diff [of 1 "(?n div 2 ^ ?o) * 2 ^ ?o + 2 ^ ?o", where 'a = u64]
      by (simp only: of_nat_1) (simp add: Suc_le_eq)
    then show ?thesis using i d
      by (simp add: bucket_upper_bound_def hg_consts Let_def push_bit_eq_mult)
  qed
  moreover have "(?n div 2 ^ ?o) * 2 ^ ?o + 2 ^ ?o - 1 < 2 ^ 64" using top by simp
  ultimately have "unat (bucket_upper_bound (bucket_index v)) = (?n div 2 ^ ?o) * 2 ^ ?o + 2 ^ ?o - 1"
    by (simp add: unat_of_nat_small)
  then show ?thesis unfolding upper_nat_def i(1,2) using i(3) d by simp
qed

lemma octave_mono: "n \<le> m \<Longrightarrow> octave_of n \<le> octave_of m"
  by (simp add: octave_of_def floorlog_mono diff_le_mono)

lemma bucket_nat_mono:
  assumes "n \<le> m"
  shows "bucket_nat n \<le> bucket_nat m"
proof (cases "n < 32 \<or> m < 32")
  case True
  then show ?thesis using assms by (auto simp: bucket_nat_def)
next
  case False
  then have n: "32 \<le> n" and m: "32 \<le> m" by simp_all
  note d = div_octave [OF n] div_octave [OF m]
  show ?thesis
  proof (cases "octave_of n = octave_of m")
    case True
    then have "n div 2 ^ octave_of n \<le> m div 2 ^ octave_of m" using assms by (simp add: div_le_mono)
    then show ?thesis using False True by (simp add: bucket_nat_def)
  next
    case neq: False
    then have "octave_of n + 1 \<le> octave_of m" using octave_mono [OF assms] by simp
    then show ?thesis using False d by (simp add: bucket_nat_def)
  qed
qed

section \<open>The counters of a run\<close>

definition hg_run :: "u64 list \<Rightarrow> histogram" where
  "hg_run vs = foldl hg_record hg_init vs"

definition below :: "nat \<Rightarrow> u64 list \<Rightarrow> nat" where
  "below i vs = length (filter (\<lambda>v. bucket_index v < i) vs)"

lemma bucket_index_less: "bucket_index v < 1920"
  using unat_lt2p [of v] by (simp add: bucket_index_nat bucket_nat_less)

definition hg_matches :: "histogram \<Rightarrow> u64 list \<Rightarrow> bool" where
  "hg_matches h vs \<longleftrightarrow> length (hg_buckets h) = 1920 \<and>
     (\<forall>i<1920. hg_buckets h ! i = of_nat (length (filter (\<lambda>v. bucket_index v = i) vs))) \<and>
     hg_count h = of_nat (length vs) \<and> hg_sum h = sum_list vs \<and>
     (\<forall>v \<in> set vs. hg_min h \<le> v \<and> v \<le> hg_max h) \<and>
     (if vs = [] then hg_min h = -1 \<and> hg_max h = 0 else hg_min h \<in> set vs \<and> hg_max h \<in> set vs)"

lemma hg_matches_init: "hg_matches hg_init []"
  by (simp add: hg_matches_def hg_init_def hg_consts)

lemma not_less_max_word: "\<not> v < -1 \<longleftrightarrow> v = -1" for v :: u64
  using word_order.not_eq_extremum by blast

lemma hg_matches_record: "hg_matches h vs \<Longrightarrow> hg_matches (hg_record h v) (vs @ [v])"
  using bucket_index_less [of v]
  by (cases "vs = []")
     (auto simp: hg_matches_def hg_record_def Let_def nth_list_update add.commute not_less_max_word
       word_gt_0 split: if_splits)

lemma hg_matches_run: "hg_matches (hg_run vs) vs"
proof (induction vs rule: rev_induct)
  case Nil
  then show ?case by (simp add: hg_run_def hg_matches_init)
next
  case (snoc v vs)
  then show ?case using hg_matches_record by (simp add: hg_run_def)
qed

text \<open>Merging is recording the concatenation.\<close>

lemma hg_matches_merge:
  assumes "hg_matches h vs" "hg_matches g ws" "length ws < 2 ^ 64"
  shows "hg_matches (hg_merge h g) (vs @ ws)"
proof (cases "ws = []")
  case True
  then show ?thesis using assms by (simp add: hg_matches_def hg_merge_def)
next
  case False
  have "hg_count g \<noteq> 0"
  proof
    assume "hg_count g = 0"
    then have "unat (of_nat (length ws) :: u64) = 0" using assms(2) by (simp add: hg_matches_def)
    then show False using False assms(3) by (simp add: unat_of_nat_small)
  qed
  then show ?thesis using assms(1,2) False
    by (cases "vs = []")
       (auto simp: hg_matches_def hg_merge_def not_less_max_word word_gt_0 split: if_splits)
qed

lemma below_Suc: "below (Suc i) vs = below i vs + length (filter (\<lambda>v. bucket_index v = i) vs)"
  by (induction vs) (auto simp: below_def)

lemma below_le: "below i vs \<le> length vs"
  by (simp add: below_def)

lemma below_all: "below 1920 vs = length vs"
  by (simp add: below_def bucket_index_less filter_True)

lemma hg_scan_spec:
  assumes m: "hg_matches h vs" and len: "length vs < 2 ^ 64" and r: "unat rank \<le> length vs"
    and i: "i \<le> 1920" "below i vs < unat rank"
  shows "\<exists>k<1920. hg_scan (drop i (hg_buckets h)) i (of_nat (below i vs)) rank = Some k \<and>
    below k vs < unat rank \<and> unat rank \<le> below (Suc k) vs"
  using i
proof (induction "1920 - i" arbitrary: i)
  case 0
  then have "i = 1920" by simp
  then show ?case using 0 r below_all by simp
next
  case (Suc n)
  then have i: "i < 1920" by simp
  then have dr: "drop i (hg_buckets h) = hg_buckets h ! i # drop (Suc i) (hg_buckets h)"
    using m i by (intro Cons_nth_drop_Suc [symmetric]) (simp add: hg_matches_def)
  have sum: "of_nat (below i vs) + hg_buckets h ! i = (of_nat (below (Suc i) vs) :: u64)"
    using m i by (simp add: hg_matches_def below_Suc)
  have u: "unat (of_nat (below (Suc i) vs) :: u64) = below (Suc i) vs"
    using below_le [of "Suc i" vs] len by (simp add: unat_of_nat_small)
  show ?case
  proof (cases "unat rank \<le> below (Suc i) vs")
    case True
    then show ?thesis using i Suc.prems u by (auto simp: dr sum word_le_nat_alt intro!: exI [of _ i])
  next
    case False
    then have "\<exists>k<1920. hg_scan (drop (Suc i) (hg_buckets h)) (Suc i) (of_nat (below (Suc i) vs)) rank = Some k \<and>
        below k vs < unat rank \<and> unat rank \<le> below (Suc k) vs"
      using Suc by (intro Suc.hyps(1)) simp_all
    then show ?thesis using False u by (simp add: dr sum word_le_nat_alt)
  qed
qed

section \<open>Order statistics\<close>

lemma sorted_filter_nth:
  assumes "sorted s" "\<And>x y. x \<le> y \<Longrightarrow> P y \<Longrightarrow> P x" "i < length s"
  shows "P (s ! i) \<longleftrightarrow> i < length (filter P s)"
  using assms(1,3)
proof (induction s arbitrary: i)
  case (Cons a s)
  show ?case
  proof (cases "P a")
    case True
    then show ?thesis using Cons by (cases i) auto
  next
    case False
    then have none: "\<not> P x" if "x \<in> set (a # s)" for x using that Cons.prems(1) assms(2) by auto
    then have "filter P (a # s) = []" by (auto simp: filter_empty_conv)
    moreover have "\<not> P ((a # s) ! i)" using none Cons.prems(2) nth_mem by blast
    ultimately show ?thesis by simp
  qed
qed simp

lemma below_sort: "length (filter (\<lambda>v. bucket_index v < i) (sort vs)) = below i vs"
proof -
  have "mset (filter (\<lambda>v. bucket_index v < i) (sort vs)) = mset (filter (\<lambda>v. bucket_index v < i) vs)"
    by simp
  then show ?thesis unfolding below_def by (rule mset_eq_length)
qed

lemma rank_bucket:
  assumes "below k vs < r" "r \<le> below (Suc k) vs" "r \<le> length vs"
  shows "bucket_index (sort vs ! (r - 1)) = k"
proof -
  have mono: "x \<le> y \<Longrightarrow> bucket_index y < j \<Longrightarrow> bucket_index x < j" for x y :: u64 and j
    using bucket_nat_mono [of "unat x" "unat y"] by (simp add: bucket_index_nat word_le_nat_alt)
  have P: "bucket_index (sort vs ! (r - 1)) < j \<longleftrightarrow> r - 1 < below j vs" for j
    using sorted_filter_nth [of "sort vs" "\<lambda>v. bucket_index v < j" "r - 1"] mono assms
    by (simp add: below_sort)
  have "bucket_index (sort vs ! (r - 1)) < Suc k" "\<not> bucket_index (sort vs ! (r - 1)) < k"
    using assms unfolding P by simp_all
  then show ?thesis by simp
qed

section \<open>Percentiles\<close>

lemma hg_rank_ok:
  assumes "0 < p" "p < 100" "n \<noteq> 0" "unat n \<le> 2 ^ 63"
  shows "\<exists>rank. hg_rank p n = Some rank \<and> 1 \<le> unat rank \<and> unat rank \<le> unat n"
proof -
  have q: "0 \<le> d_div p 100" "d_div p 100 \<le> 1"
    using assms rnd_le [of "p / 100" 1] by (simp_all add: d_div_def rnd_nonneg)
  have n: "0 \<le> d_of_u64 n" "d_of_u64 n \<le> 2 ^ 63"
  proof -
    have "uint n \<le> 2 ^ 63" using assms(4) by (metis of_nat_le_iff of_nat_numeral of_nat_power uint_nat)
    then have "d_of_u64 n \<le> d_of_int (2 ^ 63)" unfolding d_of_u64_def by (intro d_of_int_mono) simp_all
    also have "\<dots> = 2 ^ 63" using rnd_representable [of 1 63] by (simp add: d_of_int_def)
    finally show "d_of_u64 n \<le> 2 ^ 63" .
  qed simp
  have m: "0 \<le> d_mul (d_div p 100) (d_of_u64 n)" "d_mul (d_div p 100) (d_of_u64 n) \<le> 2 ^ 63"
  proof -
    have "d_div p 100 * d_of_u64 n \<le> 1 * 2 ^ 63" by (intro mult_mono q n) simp
    then have "d_mul (d_div p 100) (d_of_u64 n) \<le> rnd (2 ^ 63)"
      unfolding d_mul_def using q n by (intro rnd_mono_nonneg) simp_all
    also have "\<dots> = 2 ^ 63" using rnd_representable [of 1 63] by simp
    finally show "d_mul (d_div p 100) (d_of_u64 n) \<le> 2 ^ 63" .
    show "0 \<le> d_mul (d_div p 100) (d_of_u64 n)" using q n by (simp add: d_mul_def rnd_nonneg)
  qed
  let ?x = "d_add (d_mul (d_div p 100) (d_of_u64 n)) (1 / 2)"
  have "?x \<le> rnd (3 * 2 ^ 62)" unfolding d_add_def using m by (intro rnd_mono_nonneg) simp_all
  also have "\<dots> = 3 * 2 ^ 62" using rnd_representable [of 3 62] by simp
  finally have "?x \<le> 3 * 2 ^ 62" .
  moreover have x0: "0 \<le> ?x" using m by (simp add: d_add_def rnd_nonneg)
  ultimately have "\<lfloor>?x\<rfloor> < 2 ^ 64" "0 \<le> \<lfloor>?x\<rfloor>" by (simp_all add: floor_less_iff)
  then obtain r where r: "u64_of_d ?x = Some r" using x0 by (simp add: u64_of_d_def d_trunc_def Let_def)
  have pos: "1 \<le> unat n" using assms(3) by (simp add: Suc_le_eq unat_gt_0)
  show ?thesis
    unfolding hg_rank_def r using pos by (auto simp: word_less_nat_alt unat_eq_0 Suc_le_eq unat_gt_0)
qed

text \<open>The percentile of a run is the bucket of the order statistic at the rank, clamped to the maximum.\<close>

lemma hg_percentile_rank:
  assumes m: "hg_matches h vs" and len: "length vs < 2 ^ 64" and p: "0 < p" "p < 100"
    and rank: "hg_rank p (hg_count h) = Some rank" "1 \<le> unat rank" "unat rank \<le> length vs"
  shows "hg_percentile h p =
    Some (min (bucket_upper_bound (bucket_index (sort vs ! (unat rank - 1)))) (hg_max h))"
proof -
  have ne: "hg_count h \<noteq> 0"
  proof
    assume "hg_count h = 0"
    then have "unat (of_nat (length vs) :: u64) = 0" using m by (simp add: hg_matches_def)
    then show False using rank len by (simp add: unat_of_nat_small)
  qed
  obtain k where k: "hg_scan (hg_buckets h) 0 0 rank = Some k"
      "below k vs < unat rank" "unat rank \<le> below (Suc k) vs"
    using hg_scan_spec [OF m len rank(3), of 0] rank(2) by (auto simp: below_def)
  have "bucket_index (sort vs ! (unat rank - 1)) = k" using k rank by (intro rank_bucket) simp_all
  then show ?thesis using ne p rank k by (auto simp: hg_percentile_def Let_def min_def)
qed

text \<open>
  C32. A percentile strictly between 0 and 100 of any non-empty run of samples is the sample of the
  computed rank in sorted order, rounded up by at most one part in 32 and never above a recorded sample.
  In particular the conversion to the rank is defined, the rank is in range and the scan finds it.
\<close>

lemma hg_percentile_order_statistic:
  assumes "vs \<noteq> []" "length vs \<le> 2 ^ 63" "0 < p" "p < 100"
  shows "\<exists>rank r. hg_rank p (of_nat (length vs)) = Some rank \<and> 1 \<le> unat rank \<and> unat rank \<le> length vs \<and>
    hg_percentile (hg_run vs) p = Some r \<and> sort vs ! (unat rank - 1) \<le> r \<and>
    32 * (unat r - unat (sort vs ! (unat rank - 1))) \<le> unat (sort vs ! (unat rank - 1)) \<and>
    (\<exists>v \<in> set vs. r \<le> v)"
proof -
  have m: "hg_matches (hg_run vs) vs" by (rule hg_matches_run)
  have u: "unat (of_nat (length vs) :: u64) = length vs" using assms(2) by (simp add: unat_of_nat_small)
  have ne: "(of_nat (length vs) :: u64) \<noteq> 0"
    using u assms(1) by (metis length_0_conv unat_0)
  obtain rank where rank: "hg_rank p (of_nat (length vs)) = Some rank" "1 \<le> unat rank" "unat rank \<le> length vs"
    using hg_rank_ok [OF assms(3,4) ne] assms(2) u by auto
  let ?v = "sort vs ! (unat rank - 1)"
  have v: "?v \<in> set vs" using rank nth_mem [of "unat rank - 1" "sort vs"] by simp
  have mx: "?v \<le> hg_max (hg_run vs)" "hg_max (hg_run vs) \<in> set vs"
    using m v assms(1) by (simp_all add: hg_matches_def)
  define r where "r = min (bucket_upper_bound (bucket_index ?v)) (hg_max (hg_run vs))"
  have ub: "unat ?v \<le> unat (bucket_upper_bound (bucket_index ?v))"
      "32 * (unat (bucket_upper_bound (bucket_index ?v)) - unat ?v) \<le> unat ?v"
    unfolding bucket_upper_bound_nat unfolding bucket_index_nat by (rule upper_nat_bounds)+
  have "hg_count (hg_run vs) = of_nat (length vs)" using m by (simp add: hg_matches_def)
  then have "hg_percentile (hg_run vs) p = Some r" unfolding r_def
    using m assms(2-4) rank by (intro hg_percentile_rank) simp_all
  moreover have "?v \<le> r" using ub(1) mx(1) by (simp add: r_def word_le_nat_alt)
  moreover have "unat r \<le> unat (bucket_upper_bound (bucket_index ?v))"
    by (simp add: r_def flip: word_le_nat_alt)
  then have "32 * (unat r - unat ?v) \<le> unat ?v" using ub(2) by linarith
  moreover have "r \<le> hg_max (hg_run vs)" by (simp add: r_def)
  ultimately show ?thesis using rank mx(2) by blast
qed


lemma hg_percentile_order_statistic_witness:
  "\<exists>rank r. hg_rank 50 (of_nat (length [7, 3, 500])) = Some rank \<and> 1 \<le> unat rank \<and> unat rank \<le> 3 \<and>
    hg_percentile (hg_run [7, 3, 500]) 50 = Some r \<and> sort [7, 3, 500] ! (unat rank - 1) \<le> r"
  using hg_percentile_order_statistic [of "[7, 3, 500]" 50] by auto

text \<open>
  The precision of the buckets for every 64-bit value: the index is in range, the value is not
  above its bucket's upper bound, the bound exceeds it by at most one part in 32 (the value itself
  below 32), and a larger value never has a smaller index.
\<close>

lemma bucket_precision:
  "bucket_index v < kBucketCount \<and> v \<le> bucket_upper_bound (bucket_index v) \<and>
   32 * (unat (bucket_upper_bound (bucket_index v)) - unat v) \<le> unat v \<and>
   (if w \<le> v then bucket_index w \<le> bucket_index v else bucket_index v \<le> bucket_index w)"
proof -
  have "unat v \<le> unat (bucket_upper_bound (bucket_index v))"
      "32 * (unat (bucket_upper_bound (bucket_index v)) - unat v) \<le> unat v"
    unfolding bucket_upper_bound_nat unfolding bucket_index_nat by (rule upper_nat_bounds)+
  then show ?thesis
    using bucket_index_less [of v] bucket_nat_mono [of "unat w" "unat v"] bucket_nat_mono [of "unat v" "unat w"]
    by (simp add: hg_consts word_le_nat_alt bucket_index_nat)
qed

text \<open>
  Merging two histograms is recording the concatenation of their runs: the same buckets, count,
  sum, minimum and maximum, field by field.
\<close>

lemma hg_merge_is_append:
  assumes "length ws < 2 ^ 64"
  shows "hg_merge (hg_run vs) (hg_run ws) = hg_run (vs @ ws)"
proof -
  have eq: "h = g" if h: "hg_matches h us" and g: "hg_matches g us" for h g us
  proof -
    have "hg_buckets h = hg_buckets g" using h g by (auto simp: hg_matches_def intro: nth_equalityI)
    moreover have "hg_min h = hg_min g" "hg_max h = hg_max g"
      using h g by (auto simp: hg_matches_def intro: order.antisym split: if_splits)
    ultimately show ?thesis using h g by (simp add: hg_matches_def)
  qed
  show ?thesis using hg_matches_merge [OF hg_matches_run hg_matches_run assms] hg_matches_run by (rule eq)
qed

lemma hg_merge_is_append_witness: "hg_merge (hg_run [1, 2]) (hg_run [300]) = hg_run [1, 2, 300]"
  using hg_merge_is_append [of "[300]" "[1, 2]"] by simp

end
