(* ===== verification/Pacer.thy ===== *)
theory Pacer
  imports Clock
begin

text \<open>
  The departure schedule (core/include/radio/pacer.hpp, core/src/net/pacer.cpp). The theory proves
  that an undisturbed stream keeps its schedule exactly whatever the lateness of each call, that the
  schedule is never further behind the clock than the tolerance, and that the pacer bounds every
  burst: a send loop that waits for \<open>due\<close> never sends more packets in an interval of time than its
  length and the tolerance pay for.
\<close>

section \<open>State and operations\<close>

record pacer =
  pc_interval :: micros
  pc_max_catchup :: micros
  pc_next :: micros
  pc_resyncs :: u64
  pc_departures :: u64
  pc_started :: bool

definition pacer_zero :: pacer where
  "pacer_zero = \<lparr>pc_interval = 0, pc_max_catchup = 0, pc_next = 0, pc_resyncs = 0, pc_departures = 0,
     pc_started = False\<rparr>"

definition pacer_make :: "micros \<Rightarrow> micros \<Rightarrow> pacer" where
  "pacer_make interval max_catchup =
     pacer_zero\<lparr>pc_interval := interval,
       pc_max_catchup := (if max_catchup \<noteq> 0 then max_catchup else interval * 2)\<rparr>"

definition pacer_start :: "pacer \<Rightarrow> micros \<Rightarrow> pacer" where
  "pacer_start p now = p\<lparr>pc_next := now, pc_started := True\<rparr>"

definition pacer_reset :: "pacer \<Rightarrow> pacer" where
  "pacer_reset p = pacer_zero\<lparr>pc_interval := pc_interval p, pc_max_catchup := pc_max_catchup p\<rparr>"

definition pacer_delay_until_due :: "pacer \<Rightarrow> micros \<Rightarrow> micros" where
  "pacer_delay_until_due p now = (if \<not> pc_started p \<or> now \<ge> pc_next p then 0 else pc_next p - now)"

definition pacer_due :: "pacer \<Rightarrow> micros \<Rightarrow> bool" where
  "pacer_due p now \<longleftrightarrow> pc_started p \<and> now \<ge> pc_next p"

definition pacer_advance :: "pacer \<Rightarrow> micros \<Rightarrow> pacer" where
  "pacer_advance p0 now =
     (let p = (if \<not> pc_started p0 then pacer_start p0 now else p0);
          p = p\<lparr>pc_departures := pc_departures p + 1, pc_next := pc_next p + pc_interval p\<rparr> in
      if now > pc_next p \<and> now - pc_next p > pc_max_catchup p
      then p\<lparr>pc_next := now, pc_resyncs := pc_resyncs p + 1\<rparr>
      else p)"

section \<open>One departure\<close>

lemma advance_fields [simp]:
  "pc_interval (pacer_advance p now) = pc_interval p"
  "pc_max_catchup (pacer_advance p now) = pc_max_catchup p"
  "pc_departures (pacer_advance p now) = pc_departures p + 1"
  "pc_started (pacer_advance p now)"
  by (simp_all add: pacer_advance_def pacer_start_def Let_def)

lemma advance_keeps_schedule:
  assumes "pc_started p" "now \<le> pc_next p + pc_interval p \<or> now - (pc_next p + pc_interval p) \<le> pc_max_catchup p"
  shows "pc_next (pacer_advance p now) = pc_next p + pc_interval p" "pc_resyncs (pacer_advance p now) = pc_resyncs p"
  using assms by (auto simp: pacer_advance_def Let_def)

lemma advance_tolerance:
  "now \<le> pc_next (pacer_advance p now) \<or> now - pc_next (pacer_advance p now) \<le> pc_max_catchup p"
  by (auto simp: pacer_advance_def pacer_start_def Let_def)

text \<open>A due departure moves the schedule on by at least one interval.\<close>

lemma advance_next_ge:
  assumes "pacer_due p now" "unat now + unat (pc_interval p) < 2 ^ 64"
  shows "unat (pc_next p) + unat (pc_interval p) \<le> unat (pc_next (pacer_advance p now))"
proof -
  have le: "unat (pc_next p) \<le> unat now" using assms by (simp add: pacer_due_def word_le_nat_alt)
  then have "unat (pc_next p + pc_interval p) = unat (pc_next p) + unat (pc_interval p)"
    using assms by (intro unat_add_lem [THEN iffD1]) simp
  then show ?thesis using assms(1)
    by (auto simp: pacer_advance_def pacer_due_def Let_def word_less_nat_alt)
qed

section \<open>Runs\<close>

definition pacer_run :: "pacer \<Rightarrow> micros list \<Rightarrow> pacer" where
  "pacer_run p ts = foldl pacer_advance p ts"

text \<open>The calls of a send loop that waits until the pacer is due, with a clock that does not go back.\<close>

fun pacer_paced :: "pacer \<Rightarrow> micros list \<Rightarrow> bool" where
  "pacer_paced p [] = True"
| "pacer_paced p (t # ts) \<longleftrightarrow> pacer_due p t \<and> pacer_paced (pacer_advance p t) ts"

text \<open>No call is later than the tolerance past the slot after its own.\<close>

fun pacer_punctual :: "pacer \<Rightarrow> micros list \<Rightarrow> bool" where
  "pacer_punctual p [] = True"
| "pacer_punctual p (t # ts) \<longleftrightarrow>
     (t \<le> pc_next p + pc_interval p \<or> t - (pc_next p + pc_interval p) \<le> pc_max_catchup p) \<and>
     pacer_punctual (pacer_advance p t) ts"

lemma pacer_run_fields [simp]:
  "pc_interval (pacer_run p ts) = pc_interval p" "pc_max_catchup (pacer_run p ts) = pc_max_catchup p"
  "pc_departures (pacer_run p ts) = pc_departures p + of_nat (length ts)"
  by (induction ts arbitrary: p) (simp_all add: pacer_run_def)

lemma paced_lower_bound:
  assumes "pacer_paced p ts" "ts \<noteq> []" "\<forall>t \<in> set ts. unat t + unat (pc_interval p) < 2 ^ 64"
  shows "unat (pc_next p) + (length ts - 1) * unat (pc_interval p) \<le> unat (last ts)"
  using assms
proof (induction ts arbitrary: p)
  case (Cons t ts)
  show ?case
  proof (cases "ts = []")
    case True
    then show ?thesis using Cons.prems by (simp add: pacer_due_def word_le_nat_alt)
  next
    case False
    have "unat (pc_next (pacer_advance p t)) + (length ts - 1) * unat (pc_interval p) \<le> unat (last ts)"
      using Cons.IH [of "pacer_advance p t"] Cons.prems False by simp
    moreover have "unat (pc_next p) + unat (pc_interval p) \<le> unat (pc_next (pacer_advance p t))"
      using Cons.prems by (intro advance_next_ge) simp_all
    moreover obtain n where "length ts = Suc n" using False by (cases ts) simp_all
    ultimately show ?thesis using False by simp
  qed
qed simp

section \<open>Properties\<close>

text \<open>
  No drift: as long as no call misses the tolerance, the schedule after any number of departures
  is the start plus that number of intervals, whatever the times of the calls, and nothing is resynchronised.
\<close>

lemma pacer_schedule_exact:
  assumes "pc_started p" "pacer_punctual p ts"
  shows "pc_next (pacer_run p ts) = pc_next p + of_nat (length ts) * pc_interval p \<and>
    pc_resyncs (pacer_run p ts) = pc_resyncs p"
  using assms
proof (induction ts arbitrary: p)
  case (Cons t ts)
  then show ?case using Cons.IH [of "pacer_advance p t"] advance_keeps_schedule [of p t]
    by (simp add: pacer_run_def algebra_simps)
qed (simp add: pacer_run_def)

lemma pacer_schedule_exact_witness:
  "pc_next (pacer_run (pacer_start (pacer_make 20000 0) 1000) [1300, 21900, 41000]) = 61000"
  using pacer_schedule_exact [of "pacer_start (pacer_make 20000 0) 1000" "[1300, 21900, 41000]"]
  by (simp add: pacer_start_def pacer_make_def pacer_zero_def pacer_advance_def Let_def)

text \<open>
  No burst: \<open>n + 1\<close> departures of a loop that waits until the pacer is due, the first at \<open>t\<close>
  and the last at \<open>t'\<close>, satisfy \<open>(n - 1) * interval \<le> t' - t + max_catchup\<close> however long the loop was
  stalled before \<open>t\<close>: the packets a stall made late are never sent back to back.
\<close>

lemma pacer_bounds_bursts:
  assumes "pacer_paced p (t # ts)" "ts \<noteq> []" "\<forall>s \<in> set (t # ts). unat s + unat (pc_interval p) < 2 ^ 64"
  shows "unat t + (length ts - 1) * unat (pc_interval p) \<le> unat (last ts) + unat (pc_max_catchup p)"
proof -
  let ?p = "pacer_advance p t"
  have "unat (pc_next ?p) + (length ts - 1) * unat (pc_interval p) \<le> unat (last ts)"
    using assms paced_lower_bound [of ?p ts] by simp
  moreover have "unat t \<le> unat (pc_next ?p) + unat (pc_max_catchup p)"
    using advance_tolerance [of t p] by (auto simp: word_le_nat_alt unat_sub_if_size split: if_splits)
  ultimately show ?thesis by linarith
qed

lemma pacer_bounds_bursts_witness:
  "unat (500000 :: micros) + (3 - 1) * unat (20000 :: micros) \<le> unat (540000 :: micros) + unat (40000 :: micros)"
  using pacer_bounds_bursts [of "pacer_start (pacer_make 20000 0) 1000" 500000 "[500000, 520000, 540000]"]
  by (simp add: pacer_start_def pacer_make_def pacer_zero_def pacer_advance_def pacer_due_def Let_def)

text \<open>
  The bookkeeping of any run: one departure per call, never more resynchronisations than calls,
  after a call the clock is at most the tolerance past the schedule, and waiting for the reported
  delay makes the pacer due.
\<close>

lemma pacer_accounts:
  "pc_departures (pacer_run (pacer_make i c) ts) = of_nat (length ts) \<and>
   (\<exists>k \<le> length ts. pc_resyncs (pacer_run (pacer_make i c) ts) = of_nat k) \<and>
   (let p = pacer_run (pacer_make i c) (ts @ [now]) in
      (now \<le> pc_next p \<or> now - pc_next p \<le> pc_max_catchup p) \<and>
      pacer_due p (later + pacer_delay_until_due p later))"
proof -
  have "\<exists>k \<le> length ts. pc_resyncs (pacer_run p ts) = pc_resyncs p + of_nat k" for p
  proof (induction ts rule: rev_induct)
    case (snoc t ts)
    then obtain k where k: "k \<le> length ts" "pc_resyncs (pacer_run p ts) = pc_resyncs p + of_nat k" by blast
    show ?case
    proof (cases "pc_resyncs (pacer_run p (ts @ [t])) = pc_resyncs (pacer_run p ts)")
      case True
      then show ?thesis using k by (intro exI [of _ k]) simp
    next
      case False
      then have "pc_resyncs (pacer_run p (ts @ [t])) = pc_resyncs (pacer_run p ts) + 1"
        by (auto simp: pacer_run_def pacer_advance_def pacer_start_def Let_def split: if_splits)
      then show ?thesis using k by (intro exI [of _ "Suc k"]) simp
    qed
  qed (simp add: pacer_run_def)
  from this [of "pacer_make i c"] have "\<exists>k \<le> length ts. pc_resyncs (pacer_run (pacer_make i c) ts) = of_nat k"
    by (simp add: pacer_make_def pacer_zero_def)
  moreover have "pc_departures (pacer_run (pacer_make i c) ts) = of_nat (length ts)"
    by (simp add: pacer_make_def pacer_zero_def)
  moreover have "pacer_run (pacer_make i c) (ts @ [now]) = pacer_advance (pacer_run (pacer_make i c) ts) now"
    by (simp add: pacer_run_def)
  ultimately show ?thesis using advance_tolerance [of now "pacer_run (pacer_make i c) ts"]
    by (auto simp: Let_def pacer_due_def pacer_delay_until_due_def)
qed

end
