(* ===== verification/Checked_Int.thy ===== *)
theory Checked_Int
  imports Prelude
begin

text \<open>
  Signed 64-bit arithmetic as the source uses it: values as \<open>int\<close>, a result out of range is
  undefined behaviour and therefore \<open>None\<close>; the conversions from and to \<open>std::uint64_t\<close> are modular.
\<close>

definition in_i64 :: "int \<Rightarrow> bool" where
  "in_i64 i \<longleftrightarrow> - (2 ^ 63) \<le> i \<and> i < 2 ^ 63"

definition i64_of :: "int \<Rightarrow> int option" where
  "i64_of i = (if in_i64 i then Some i else None)"

definition i64_add :: "int \<Rightarrow> int \<Rightarrow> int option" where "i64_add a b = i64_of (a + b)"
definition i64_sub :: "int \<Rightarrow> int \<Rightarrow> int option" where "i64_sub a b = i64_of (a - b)"
definition i64_mul :: "int \<Rightarrow> int \<Rightarrow> int option" where "i64_mul a b = i64_of (a * b)"

text \<open>\<open>static_cast<std::int64_t>\<close> of an unsigned value.\<close>

definition as_i64 :: "u64 \<Rightarrow> int" where "as_i64 x = sint x"

lemma i64_of_Some [simp]: "in_i64 i \<Longrightarrow> i64_of i = Some i"
  by (simp add: i64_of_def)

lemma i64_of_eq_Some: "i64_of i = Some j \<longleftrightarrow> in_i64 i \<and> j = i"
  by (auto simp: i64_of_def)

lemmas i64_defs = i64_add_def i64_sub_def i64_mul_def

lemma in_i64_as_i64 [simp]: "in_i64 (as_i64 x)"
  using sint_ge [of x] sint_lt [of x] by (simp add: in_i64_def as_i64_def)

lemma as_i64_of_int: "in_i64 i \<Longrightarrow> as_i64 (of_int i) = i"
  using signed_take_bit_int_eq_self [of 63 i] by (simp add: as_i64_def in_i64_def signed_of_int)

lemma of_int_as_i64 [simp]: "of_int (as_i64 x) = x"
  by (simp add: as_i64_def)

lemma as_i64_plus: "in_i64 (as_i64 x + i) \<Longrightarrow> as_i64 (x + of_int i) = as_i64 x + i"
  using as_i64_of_int [of "as_i64 x + i"] by simp

lemma as_i64_inj: "as_i64 x = as_i64 y \<longleftrightarrow> x = y"
  by (metis of_int_as_i64)

text \<open>C++ division by two truncates.\<close>

lemma half_trunc: "x sdiv (2 :: int) = (if 0 \<le> x then x div 2 else - ((- x) div 2))"
  by (cases "x = 0") (simp_all add: signed_divide_int_def sgn_if)

end
