(* ===== verification/Ring.thy ===== *)
theory Ring
  imports Prelude
begin

text \<open>
  Fixed-size arrays written in rotation, the shape of the estimator's window, the trace ring and the
  prober's slots: writing at the next index drops the oldest element and appends the new one.
\<close>

definition ring_view :: "'a list \<Rightarrow> nat \<Rightarrow> 'a list" where
  "ring_view w n = drop n w @ take n w"

lemma ring_view_rotate: "n < length w \<Longrightarrow> ring_view w n = rotate n w"
  by (simp add: ring_view_def rotate_drop_take)

lemma ring_view_length [simp]: "length (ring_view w n) = length w"
  by (simp add: ring_view_def)

lemma ring_view_0 [simp]: "ring_view w 0 = w"
  by (simp add: ring_view_def)

lemma ring_view_set [simp]: "set (ring_view w n) = set w"
  by (metis ring_view_def append_take_drop_id set_append sup_commute)

lemma ring_view_push:
  assumes "n < length w"
  shows "ring_view (w[n := x]) ((n + 1) mod length w) = tl (ring_view w n) @ [x]"
proof -
  have w: "w[n := x] = take n w @ x # drop (Suc n) w" using assms by (rule upd_conv_take_nth_drop)
  have tl: "tl (ring_view w n) = drop (Suc n) w @ take n w"
    using assms by (simp add: ring_view_def drop_Suc drop_tl)
  show ?thesis
  proof (cases "Suc n = length w")
    case True
    then show ?thesis unfolding tl unfolding w by simp
  next
    case False
    then have "Suc n mod length w = Suc n" using assms by simp
    then show ?thesis unfolding tl unfolding w using assms by (simp add: ring_view_def)
  qed
qed

text \<open>The last elements of a log padded in front.\<close>

definition recent :: "nat \<Rightarrow> 'a \<Rightarrow> 'a list \<Rightarrow> 'a list" where
  "recent k pad log = drop (length log) (replicate k pad @ log)"

lemma recent_Nil [simp]: "recent k pad [] = replicate k pad"
  by (simp add: recent_def)

lemma recent_length [simp]: "length (recent k pad log) = k"
  by (simp add: recent_def)

lemma recent_snoc: "0 < k \<Longrightarrow> recent k pad (log @ [x]) = tl (recent k pad log) @ [x]"
proof -
  assume "0 < k"
  then have "drop (Suc (length log)) ((replicate k pad @ log) @ [x]) =
      drop (Suc (length log)) (replicate k pad @ log) @ [x]" by (subst drop_append) simp
  then show ?thesis unfolding recent_def by (simp only: append_assoc length_append_singleton drop_Suc tl_drop)
qed

lemma recent_full: "k \<le> length log \<Longrightarrow> recent k pad log = drop (length log - k) log"
  by (simp add: recent_def)

lemma recent_cases: "recent k pad log = replicate (k - length log) pad @ drop (length log - k) log"
  by (simp add: recent_def)

lemma recent_set: "x \<in> set (recent k pad log) \<Longrightarrow> x = pad \<or> x \<in> set (drop (length log - k) log)"
  by (auto simp: recent_cases)

lemma recent_set_subset: "set (drop (length log - k) log) \<subseteq> set (recent k pad log)"
  by (auto simp: recent_cases)

text \<open>An array in rotation holds the recent elements of its log.\<close>

definition ring_holds :: "'a list \<Rightarrow> nat \<Rightarrow> 'a \<Rightarrow> 'a list \<Rightarrow> bool" where
  "ring_holds w n pad log \<longleftrightarrow> n < length w \<and> ring_view w n = recent (length w) pad log"

lemma ring_holds_init: "0 < k \<Longrightarrow> ring_holds (replicate k pad) 0 pad []"
  by (simp add: ring_holds_def)

lemma ring_holds_push:
  "ring_holds w n pad log \<Longrightarrow> ring_holds (w[n := x]) ((n + 1) mod length w) pad (log @ [x])"
  using ring_view_push [of n w x] recent_snoc [of "length w" pad log x]
  by (cases "w = []") (auto simp: ring_holds_def)

lemma ring_holds_set: "ring_holds w n pad log \<Longrightarrow> set w = set (recent (length w) pad log)"
  by (metis ring_holds_def ring_view_set)

end
