(* ===== verification/Clock_Sync.thy ===== *)
theory Clock_Sync
  imports Checked_Int Ring Histogram
begin

text \<open>
  The clock offset estimator (core/include/radio/clock_sync.hpp, core/src/time/clock_sync.cpp). The
  theory proves that the round trip time is measured exactly, that the offset is off by at most half
  of it (rounded up, where \<open>offset_uncertainty_us\<close> rounds down), that the estimate in use is the
  fastest of the last eight accepted exchanges, that the drift anchor is frozen at the eighth, and
  that a peer's timestamps can overflow the signed arithmetic.
\<close>

section \<open>State and operations\<close>

definition kSyncWindow :: nat where "kSyncWindow = 8"
definition kMaxPlausibleRttUs :: int where "kMaxPlausibleRttUs = 2000000"
definition kMinDriftSpanUs :: int where "kMinDriftSpanUs = 10000000"

record sync_sample =
  ss_rtt :: int
  ss_offset :: int
  ss_local :: micros
  ss_valid :: bool

definition no_sample :: sync_sample where
  "no_sample = \<lparr>ss_rtt = 0, ss_offset = 0, ss_local = 0, ss_valid = False\<rparr>"

record clock_sync =
  cs_window :: "sync_sample list"
  cs_next :: nat
  cs_accepted :: u64
  cs_rejected :: u64
  cs_anchor :: sync_sample
  cs_histogram :: histogram

definition cs_init :: clock_sync where
  "cs_init = \<lparr>cs_window = replicate kSyncWindow no_sample, cs_next = 0, cs_accepted = 0, cs_rejected = 0,
     cs_anchor = no_sample, cs_histogram = hg_init\<rparr>"

definition cs_reset :: "clock_sync \<Rightarrow> clock_sync" where
  "cs_reset cs = cs_init"

definition faster :: "sync_sample \<Rightarrow> sync_sample \<Rightarrow> sync_sample" where
  "faster winner candidate =
     (if \<not> ss_valid candidate then winner
      else if \<not> ss_valid winner \<or> ss_rtt candidate < ss_rtt winner then candidate else winner)"

definition cs_best :: "clock_sync \<Rightarrow> sync_sample" where
  "cs_best cs = foldl faster no_sample (cs_window cs)"

definition cs_observe :: "clock_sync \<Rightarrow> micros \<Rightarrow> micros \<Rightarrow> micros \<Rightarrow> micros \<Rightarrow> (sync_sample \<times> clock_sync) option" where
  "cs_observe cs t1 t2 t3 t4 =
     (let T1 = as_i64 t1; T2 = as_i64 t2; T3 = as_i64 t3; T4 = as_i64 t4 in
      if T4 < T1 \<or> T3 < T2 then Some (no_sample, cs\<lparr>cs_rejected := cs_rejected cs + 1\<rparr>)
      else do {
        whole \<leftarrow> i64_sub T4 T1;
        thinking \<leftarrow> i64_sub T3 T2;
        rtt \<leftarrow> i64_sub whole thinking;
        if rtt < 0 \<or> rtt > kMaxPlausibleRttUs then Some (no_sample, cs\<lparr>cs_rejected := cs_rejected cs + 1\<rparr>)
        else do {
          out \<leftarrow> i64_sub T2 T1;
          back \<leftarrow> i64_sub T3 T4;
          both \<leftarrow> i64_add out back;
          let sample = \<lparr>ss_rtt = rtt, ss_offset = both sdiv 2, ss_local = t4, ss_valid = True\<rparr>;
          let cs1 = cs\<lparr>cs_window := (cs_window cs)[cs_next cs := sample],
                      cs_next := (cs_next cs + 1) mod kSyncWindow,
                      cs_accepted := cs_accepted cs + 1,
                      cs_histogram := hg_record (cs_histogram cs) (of_int rtt)\<rparr>;
          let cs2 = (if \<not> ss_valid (cs_anchor cs1) \<and> cs_accepted cs1 \<ge> of_nat kSyncWindow
                     then cs1\<lparr>cs_anchor := cs_best cs1\<rparr> else cs1);
          Some (sample, cs2)
        }
      })"

definition cs_has_estimate :: "clock_sync \<Rightarrow> bool" where
  "cs_has_estimate cs \<longleftrightarrow> cs_accepted cs > 0"

definition cs_offset_us :: "clock_sync \<Rightarrow> int" where "cs_offset_us cs = ss_offset (cs_best cs)"
definition cs_rtt_us :: "clock_sync \<Rightarrow> int" where "cs_rtt_us cs = ss_rtt (cs_best cs)"

definition cs_uncertainty_us :: "clock_sync \<Rightarrow> int" where
  "cs_uncertainty_us cs = (let sample = cs_best cs in if \<not> ss_valid sample then 0 else ss_rtt sample sdiv 2)"

definition cs_remote_to_local :: "clock_sync \<Rightarrow> micros \<Rightarrow> micros option" where
  "cs_remote_to_local cs remote =
     (let sample = cs_best cs in
      if \<not> ss_valid sample then Some remote else map_option of_int (i64_sub (as_i64 remote) (ss_offset sample)))"

definition cs_local_to_remote :: "clock_sync \<Rightarrow> micros \<Rightarrow> micros option" where
  "cs_local_to_remote cs loc =
     (let sample = cs_best cs in
      if \<not> ss_valid sample then Some loc else map_option of_int (i64_add (as_i64 loc) (ss_offset sample)))"

definition cs_has_drift_estimate :: "clock_sync \<Rightarrow> bool option" where
  "cs_has_drift_estimate cs =
     (if \<not> ss_valid (cs_anchor cs) then Some False
      else let current = cs_best cs in
        if \<not> ss_valid current then Some False
        else do {
          spanned \<leftarrow> i64_sub (as_i64 (ss_local current)) (as_i64 (ss_local (cs_anchor cs)));
          Some (spanned \<ge> kMinDriftSpanUs)
        })"

definition cs_drift_ppm :: "clock_sync \<Rightarrow> double option" where
  "cs_drift_ppm cs =
     do {
       known \<leftarrow> cs_has_drift_estimate cs;
       if \<not> known then Some 0
       else let current = cs_best cs in do {
         spanned \<leftarrow> i64_sub (as_i64 (ss_local current)) (as_i64 (ss_local (cs_anchor cs)));
         change \<leftarrow> i64_sub (ss_offset current) (ss_offset (cs_anchor cs));
         Some (d_div (d_mul (d_of_int change) 1000000) (d_of_int spanned))
       }
     }"

section \<open>What one exchange measures\<close>

text \<open>The sample computed from the four timestamps, separate from its effect on the estimator.\<close>

definition cs_measure :: "micros \<Rightarrow> micros \<Rightarrow> micros \<Rightarrow> micros \<Rightarrow> sync_sample option" where
  "cs_measure t1 t2 t3 t4 = map_option fst (cs_observe cs_init t1 t2 t3 t4)"

definition cs_accept :: "clock_sync \<Rightarrow> sync_sample \<Rightarrow> clock_sync" where
  "cs_accept cs sample =
     (let cs1 = cs\<lparr>cs_window := (cs_window cs)[cs_next cs := sample],
                   cs_next := (cs_next cs + 1) mod kSyncWindow,
                   cs_accepted := cs_accepted cs + 1,
                   cs_histogram := hg_record (cs_histogram cs) (of_int (ss_rtt sample))\<rparr> in
      if \<not> ss_valid (cs_anchor cs1) \<and> cs_accepted cs1 \<ge> of_nat kSyncWindow
      then cs1\<lparr>cs_anchor := cs_best cs1\<rparr> else cs1)"

lemma cs_observe_measure:
  "cs_observe cs t1 t2 t3 t4 =
     map_option (\<lambda>s. (s, if ss_valid s then cs_accept cs s else cs\<lparr>cs_rejected := cs_rejected cs + 1\<rparr>))
       (cs_measure t1 t2 t3 t4)"
  by (auto simp: cs_observe_def cs_measure_def cs_accept_def no_sample_def Let_def split: Option.bind_split)

lemma cs_measure_spec:
  assumes "in_i64 (as_i64 t4 - as_i64 t1)" "in_i64 (as_i64 t3 - as_i64 t2)"
    "in_i64 (as_i64 t2 - as_i64 t1)" "in_i64 (as_i64 t3 - as_i64 t4)"
    "in_i64 ((as_i64 t2 - as_i64 t1) + (as_i64 t3 - as_i64 t4))"
  shows "cs_measure t1 t2 t3 t4 =
    (let rtt = (as_i64 t4 - as_i64 t1) - (as_i64 t3 - as_i64 t2) in
     if as_i64 t4 < as_i64 t1 \<or> as_i64 t3 < as_i64 t2 \<or> rtt < 0 \<or> rtt > 2000000 then Some no_sample
     else Some \<lparr>ss_rtt = rtt, ss_offset = ((as_i64 t2 - as_i64 t1) + (as_i64 t3 - as_i64 t4)) sdiv 2,
                ss_local = t4, ss_valid = True\<rparr>)"
proof (cases "as_i64 t4 < as_i64 t1 \<or> as_i64 t3 < as_i64 t2")
  case True
  then show ?thesis by (auto simp: cs_measure_def cs_observe_def Let_def)
next
  case False
  have "in_i64 ((as_i64 t4 - as_i64 t1) - (as_i64 t3 - as_i64 t2))"
    using assms(1,2) False by (auto simp: in_i64_def)
  then show ?thesis using assms False
    by (auto simp: cs_measure_def cs_observe_def i64_defs kMaxPlausibleRttUs_def Let_def)
qed

lemma half_offset: "\<bar>(2 * theta + d) sdiv 2 - theta\<bar> \<le> (\<bar>d\<bar> + 1) div (2 :: int)"
  by (simp add: half_trunc) (auto simp: abs_if)

section \<open>The window of the last eight\<close>

lemma best_of_list:
  defines "b xs \<equiv> foldl faster no_sample xs"
  shows "(ss_valid (b xs) \<longleftrightarrow> (\<exists>s \<in> set xs. ss_valid s)) \<and>
    (ss_valid (b xs) \<longrightarrow> b xs \<in> set xs \<and> (\<forall>s \<in> set xs. ss_valid s \<longrightarrow> ss_rtt (b xs) \<le> ss_rtt s))"
  unfolding b_def
proof (induction xs rule: rev_induct)
  case (snoc s xs)
  then show ?case by (force simp: faster_def)
qed (simp add: no_sample_def)

definition cs_inv :: "clock_sync \<Rightarrow> sync_sample list \<Rightarrow> bool" where
  "cs_inv cs seen \<longleftrightarrow>
     length (cs_window cs) = 8 \<and> cs_next cs = length seen mod 8 \<and>
     ring_holds (cs_window cs) (cs_next cs) no_sample seen \<and> (\<forall>s \<in> set seen. ss_valid s) \<and>
     cs_accepted cs = of_nat (length seen) \<and>
     (if length seen < 8 then \<not> ss_valid (cs_anchor cs)
      else cs_anchor cs = foldl faster no_sample (take 8 seen)) \<and>
     cs_histogram cs = hg_run (map (of_int \<circ> ss_rtt) seen)"

lemma cs_inv_init: "cs_inv cs_init []"
  by (simp add: cs_inv_def cs_init_def kSyncWindow_def ring_holds_init no_sample_def hg_run_def)

lemma ring_holds_full:
  "ring_holds w n pad seen \<Longrightarrow> n = 0 \<Longrightarrow> length seen = length w \<Longrightarrow> w = seen"
  by (simp add: ring_holds_def recent_full)

lemma best_valid: "\<forall>s \<in> set xs. ss_valid s \<Longrightarrow> xs \<noteq> [] \<Longrightarrow> ss_valid (foldl faster no_sample xs)"
  using best_of_list [of xs] by (cases xs) auto

lemma cs_inv_accept:
  assumes inv: "cs_inv cs seen" and s: "ss_valid s"
  shows "cs_inv (cs_accept cs s) (seen @ [s])"
proof -
  have acc: "cs_accepted cs = of_nat (length seen)"
    and anc: "if length seen < 8 then \<not> ss_valid (cs_anchor cs)
      else cs_anchor cs = foldl faster no_sample (take 8 seen)"
    and all: "\<forall>s \<in> set seen. ss_valid s" and lw: "length (cs_window cs) = 8"
    using inv unfolding cs_inv_def by blast+
  let ?w = "(cs_window cs)[cs_next cs := s]" and ?n = "(cs_next cs + 1) mod 8"
  have ring: "ring_holds ?w ?n no_sample (seen @ [s])"
    using inv ring_holds_push [of "cs_window cs" "cs_next cs" no_sample seen s] unfolding cs_inv_def by metis
  have n: "?n = length (seen @ [s]) mod 8" using inv by (simp add: cs_inv_def mod_Suc_eq)
  have anchor: "if length (seen @ [s]) < 8 then \<not> ss_valid (cs_anchor (cs_accept cs s))
      else cs_anchor (cs_accept cs s) = foldl faster no_sample (take 8 (seen @ [s]))"
  proof (cases "length seen < 7")
    case True
    then have "length seen < 8" "length seen + 1 < 8" by simp_all
    have u: "unat (of_nat (length seen) + 1 :: u64) = Suc (length seen)"
    proof -
      have "of_nat (length seen) + 1 = (of_nat (Suc (length seen)) :: u64)" by (simp add: add.commute)
      moreover have "unat (of_nat (Suc (length seen)) :: u64) = Suc (length seen)"
        by (rule unat_of_nat_small) (use True in simp)
      ultimately show ?thesis by (simp only:)
    qed
    have "\<not> ss_valid (cs_anchor cs)" using True anc by simp
    moreover have "\<not> (8 :: u64) \<le> of_nat (length seen) + 1"
      unfolding word_le_nat_alt u using True by simp
    ultimately show ?thesis using True acc by (simp add: cs_accept_def Let_def kSyncWindow_def)
  next
    case False
    show ?thesis
    proof (cases "length seen = 7")
      case True
      then have "\<not> ss_valid (cs_anchor cs)" "cs_accepted cs = 7" using anc acc by simp_all
      moreover have "?w = seen @ [s]"
      proof (rule ring_holds_full [OF ring])
        show "?n = 0" using n True by simp
        show "length (seen @ [s]) = length ?w" using True lw by simp
      qed
      ultimately show ?thesis using True by (simp add: cs_accept_def Let_def kSyncWindow_def cs_best_def)
    next
      case neq: False
      then have "8 \<le> length seen" using False by simp
      moreover from this have "ss_valid (foldl faster no_sample (take 8 seen))"
        using all by (intro best_valid) (auto dest: in_set_takeD)
      ultimately show ?thesis using anc by (simp add: cs_accept_def Let_def)
    qed
  qed
  have frame: "cs_window (cs_accept cs s) = ?w" "cs_next (cs_accept cs s) = ?n"
    "cs_accepted (cs_accept cs s) = cs_accepted cs + 1"
    "cs_histogram (cs_accept cs s) = hg_record (cs_histogram cs) (of_int (ss_rtt s))"
    by (simp_all add: cs_accept_def Let_def kSyncWindow_def)
  show ?thesis
    using inv ring n anchor s unfolding cs_inv_def frame by (simp add: hg_run_def)
qed


section \<open>Runs\<close>

type_synonym exchange = "micros \<times> micros \<times> micros \<times> micros"

fun cs_run :: "clock_sync \<Rightarrow> exchange list \<Rightarrow> clock_sync option" where
  "cs_run cs [] = Some cs"
| "cs_run cs ((t1, t2, t3, t4) # es) = Option.bind (cs_observe cs t1 t2 t3 t4) (\<lambda>r. cs_run (snd r) es)"

text \<open>The samples of the exchanges that are accepted.\<close>

fun cs_samples :: "exchange list \<Rightarrow> sync_sample list" where
  "cs_samples [] = []"
| "cs_samples ((t1, t2, t3, t4) # es) =
     (case cs_measure t1 t2 t3 t4 of
        None \<Rightarrow> cs_samples es
      | Some s \<Rightarrow> if ss_valid s then s # cs_samples es else cs_samples es)"

lemma cs_inv_reject: "cs_inv cs seen \<Longrightarrow> cs_inv (cs\<lparr>cs_rejected := r\<rparr>) seen"
  by (cases cs) (auto simp: cs_inv_def)

lemma accept_rejected: "cs_rejected (cs_accept cs s) = cs_rejected cs"
  by (simp add: cs_accept_def Let_def)

lemma cs_run_inv:
  assumes "cs_inv cs seen" "cs_run cs es = Some cs'"
  shows "cs_inv cs' (seen @ cs_samples es)"
    "cs_rejected cs' = cs_rejected cs + of_nat (length es - length (cs_samples es)) \<and> length (cs_samples es) \<le> length es"
proof -
  have "cs_inv cs' (seen @ cs_samples es) \<and>
    cs_rejected cs' = cs_rejected cs + of_nat (length es - length (cs_samples es)) \<and> length (cs_samples es) \<le> length es"
    using assms
  proof (induction es arbitrary: cs seen)
    case (Cons e es)
    obtain t1 t2 t3 t4 where e: "e = (t1, t2, t3, t4)" by (cases e)
    obtain s where m: "cs_measure t1 t2 t3 t4 = Some s"
      using Cons.prems(2) by (cases "cs_measure t1 t2 t3 t4") (auto simp: e cs_observe_measure)
    show ?case
    proof (cases "ss_valid s")
      case True
      then have "cs_run (cs_accept cs s) es = Some cs'" using Cons.prems(2) m by (simp add: e cs_observe_measure)
      from Cons.IH [OF cs_inv_accept [OF Cons.prems(1) True] this]
      show ?thesis using True m by (simp add: e accept_rejected)
    next
      case False
      then have "cs_run (cs\<lparr>cs_rejected := cs_rejected cs + 1\<rparr>) es = Some cs'"
        using Cons.prems(2) m by (simp add: e cs_observe_measure)
      from Cons.IH [OF cs_inv_reject [OF Cons.prems(1)] this]
      show ?thesis using False m by (simp add: e Suc_diff_le)
    qed
  qed simp
  then show "cs_inv cs' (seen @ cs_samples es)"
    "cs_rejected cs' = cs_rejected cs + of_nat (length es - length (cs_samples es)) \<and> length (cs_samples es) \<le> length es"
    by simp_all
qed

text \<open>A concrete exchange: a peer one microsecond ahead, and one microsecond on the way back.\<close>

definition one_sided :: sync_sample where
  "one_sided = \<lparr>ss_rtt = 1, ss_offset = 0, ss_local = 11, ss_valid = True\<rparr>"

lemma as_i64_10_11: "as_i64 10 = 10" "as_i64 11 = 11"
  by (simp_all add: as_i64_def)

lemma measure_one_sided: "cs_measure 10 11 11 11 = Some one_sided"
  by (subst cs_measure_spec) (simp_all add: as_i64_10_11 one_sided_def in_i64_def half_trunc)

lemma run_one_sided: "cs_run cs_init [(10, 11, 11, 11)] = Some (cs_accept cs_init one_sided)"
  by (simp add: cs_observe_measure measure_one_sided) (simp add: one_sided_def)

lemma samples_one_sided: "cs_samples [(10, 11, 11, 11)] = [one_sided]"
  by (simp add: measure_one_sided) (simp add: one_sided_def)

lemmas cs_reachable = cs_run_inv [OF cs_inv_init, simplified]

text \<open>
  The estimate in use: after any run of exchanges, \<open>best\<close> is valid exactly when an exchange was
  accepted, and it is one of the last eight accepted samples, with the smallest round trip time among
  them; every exchange was either accepted or counted as rejected.
\<close>

lemma cs_best_recent_minimum:
  assumes "cs_run cs_init es = Some cs"
  shows "(let last8 = drop (length (cs_samples es) - 8) (cs_samples es) in
      (ss_valid (cs_best cs) \<longleftrightarrow> cs_samples es \<noteq> []) \<and>
      (cs_samples es = [] \<or> cs_best cs \<in> set last8 \<and> (\<forall>s \<in> set last8. cs_rtt_us cs \<le> ss_rtt s))) \<and>
    cs_accepted cs + cs_rejected cs = of_nat (length es)"
proof -
  let ?seen = "cs_samples es"
  have inv: "cs_inv cs ?seen" by (rule cs_reachable(1) [OF assms])
  let ?last = "drop (length ?seen - 8) ?seen"
  have w: "set (cs_window cs) = set (recent 8 no_sample ?seen)"
    using inv ring_holds_set unfolding cs_inv_def by metis
  have valid: "\<forall>s \<in> set ?last. ss_valid s" using inv by (auto simp: cs_inv_def dest: in_set_dropD)
  have in_w: "set ?last \<subseteq> set (cs_window cs)" unfolding w by (rule recent_set_subset)
  have of_w: "s \<in> set ?last" if "s \<in> set (cs_window cs)" "ss_valid s" for s
    using that recent_set unfolding w by (fastforce simp: no_sample_def)
  note b = best_of_list [of "cs_window cs", folded cs_best_def]
  have ne: "?last = [] \<longleftrightarrow> ?seen = []" by (cases ?seen) auto
  have "ss_valid (cs_best cs) \<longleftrightarrow> ?seen \<noteq> []"
    unfolding b [THEN conjunct1] ne [symmetric] using valid in_w of_w by (metis empty_iff empty_set hd_in_set subsetD)
  moreover have "cs_best cs \<in> set ?last \<and> (\<forall>s \<in> set ?last. ss_rtt (cs_best cs) \<le> ss_rtt s)" if "ss_valid (cs_best cs)"
    using b [THEN conjunct2] that valid in_w of_w by blast
  moreover have "cs_accepted cs + cs_rejected cs = of_nat (length es)"
  proof -
    have r: "cs_rejected cs = of_nat (length es - length ?seen)" "length ?seen \<le> length es"
      using cs_reachable(2) [OF assms] by (simp_all add: cs_init_def)
    then have "cs_accepted cs + cs_rejected cs = of_nat (length ?seen + (length es - length ?seen))"
      using inv unfolding of_nat_add by (simp add: cs_inv_def)
    then show ?thesis using r(2) by simp
  qed
  ultimately show ?thesis by (auto simp: Let_def cs_rtt_us_def)
qed

lemma cs_best_recent_minimum_witness:
  "cs_best (cs_accept cs_init one_sided) = one_sided \<and>
   cs_accepted (cs_accept cs_init one_sided) + cs_rejected (cs_accept cs_init one_sided) = 1"
  using cs_best_recent_minimum [OF run_one_sided] by (simp add: samples_one_sided Let_def del: cs_samples.simps)

text \<open>
  The drift baseline is frozen: whatever happens after, the anchor is the fastest of the first
  eight accepted samples, and there is none before the eighth.
\<close>

lemma cs_anchor_frozen:
  assumes "cs_run cs_init es = Some cs"
  shows "if length (cs_samples es) < 8 then \<not> ss_valid (cs_anchor cs) \<and> cs_has_drift_estimate cs = Some False
    else cs_anchor cs = foldl faster no_sample (take 8 (cs_samples es))"
  using cs_reachable(1) [OF assms] by (simp add: cs_inv_def cs_has_drift_estimate_def)

lemma cs_anchor_frozen_witness:
  "\<not> ss_valid (cs_anchor (cs_accept cs_init one_sided)) \<and>
   cs_has_drift_estimate (cs_accept cs_init one_sided) = Some False"
  using cs_anchor_frozen [OF run_one_sided] by (simp add: samples_one_sided del: cs_samples.simps)

section \<open>Accuracy\<close>

text \<open>
  C12. An exchange with delays \<open>d1\<close> out and \<open>d2\<close> back, a peer that thinks for \<open>h\<close> and whose clock is
  \<open>theta\<close> ahead measures the round trip time exactly, and its offset is off by at most half of it,
  rounded up.
\<close>

lemma cs_offset_error:
  assumes times: "as_i64 t2 = as_i64 t1 + d1 + theta" "as_i64 t3 = as_i64 t2 + h" "as_i64 t4 = as_i64 t3 + d2 - theta"
    and delays: "0 \<le> d1" "0 \<le> d2" "0 \<le> h" "d1 + d2 \<le> 2000000"
    and range: "\<bar>as_i64 t1\<bar> < 2 ^ 61" "\<bar>as_i64 t2\<bar> < 2 ^ 61" "\<bar>as_i64 t3\<bar> < 2 ^ 61" "\<bar>as_i64 t4\<bar> < 2 ^ 61"
  shows "\<exists>s. cs_measure t1 t2 t3 t4 = Some s \<and> ss_valid s \<and> ss_rtt s = d1 + d2 \<and>
    \<bar>ss_offset s - theta\<bar> \<le> (ss_rtt s + 1) div 2"
proof -
  have "cs_measure t1 t2 t3 t4 = Some \<lparr>ss_rtt = d1 + d2, ss_offset = (2 * theta + (d1 - d2)) sdiv 2,
      ss_local = t4, ss_valid = True\<rparr>"
  proof (subst cs_measure_spec)
    show "in_i64 (as_i64 t2 - as_i64 t1 + (as_i64 t3 - as_i64 t4))" using range by (simp add: in_i64_def abs_less_iff)
  qed (use times delays range in \<open>simp_all add: in_i64_def abs_less_iff Let_def algebra_simps\<close>)
  moreover have "(\<bar>d1 - d2\<bar> + 1) div 2 \<le> (d1 + d2 + 1) div 2" using delays by (intro zdiv_mono1) simp_all
  ultimately show ?thesis using half_offset [of theta "d1 - d2"] by simp
qed

lemma cs_offset_error_witness:
  "\<exists>s. cs_measure 10 11 11 11 = Some s \<and> ss_valid s \<and> ss_rtt s = 0 + 1 \<and> \<bar>ss_offset s - 1\<bar> \<le> (ss_rtt s + 1) div 2"
  using cs_offset_error [of 11 10 0 1 11 0 11 1] by (simp add: as_i64_10_11)

text \<open>
  \<open>offset_uncertainty_us\<close> rounds half the round trip time down, so it is not the worst case its
  comment promises: one sided delays of one microsecond give an uncertainty of 0 and an error of 1.
\<close>

lemma cs_uncertainty_understates:
  "\<exists>cs s. cs_observe cs_init 10 11 11 11 = Some (s, cs) \<and> ss_rtt s = 1 \<and>
    as_i64 11 = as_i64 10 + 0 + 1 \<and> as_i64 11 = as_i64 11 + 1 - 1 \<and>
    cs_offset_us cs = 0 \<and> cs_uncertainty_us cs = 0 \<and> \<bar>cs_offset_us cs - 1\<bar> > cs_uncertainty_us cs"
proof -
  have o: "cs_observe cs_init 10 11 11 11 = Some (one_sided, cs_accept cs_init one_sided)"
    by (simp add: cs_observe_measure measure_one_sided) (simp add: one_sided_def)
  have eight: "replicate 8 x = [x, x, x, x, x, x, x, x]" for x :: sync_sample by (simp add: numeral_eq_Suc)
  have b: "cs_best (cs_accept cs_init one_sided) = one_sided"
    by (simp add: cs_best_def cs_accept_def cs_init_def kSyncWindow_def Let_def eight faster_def
        no_sample_def one_sided_def)
  show ?thesis
    using o by (simp add: as_i64_10_11 cs_offset_us_def cs_uncertainty_us_def b) (simp add: one_sided_def half_trunc)
qed

section \<open>Overflow\<close>

text \<open>Below \<open>2^61\<close> the signed arithmetic of an exchange cannot overflow.\<close>

lemma as_i64_small:
  assumes "t < 2 ^ 61"
  shows "0 \<le> as_i64 t \<and> as_i64 t < 2 ^ 61"
proof -
  have "uint t < 2 ^ 61" using assms by (simp add: word_less_def)
  then show ?thesis using as_i64_of_int [of "uint t"] uint_ge_0 [of t] by (simp add: in_i64_def)
qed

lemma cs_observe_small:
  assumes "t1 < 2 ^ 61" "t2 < 2 ^ 61" "t3 < 2 ^ 61" "t4 < 2 ^ 61"
  shows "cs_observe cs t1 t2 t3 t4 \<noteq> None"
proof -
  note s = assms [THEN as_i64_small]
  have "cs_measure t1 t2 t3 t4 \<noteq> None"
  proof (subst cs_measure_spec)
    show "in_i64 (as_i64 t2 - as_i64 t1 + (as_i64 t3 - as_i64 t4))" using s by (simp add: in_i64_def)
  qed (use s in \<open>simp_all add: in_i64_def Let_def\<close>)
  then show ?thesis by (simp add: cs_observe_measure)
qed


text \<open>
  Translation between the clock domains is invertible: what \<open>local_to_remote\<close> returns,
  \<open>remote_to_local\<close> maps back, wherever the signed addition is defined.
\<close>

lemma cs_translate_roundtrip:
  "case cs_local_to_remote cs t of
     None \<Rightarrow> \<not> in_i64 (as_i64 t + cs_offset_us cs)
   | Some r \<Rightarrow> cs_remote_to_local cs r = Some t"
proof (cases "ss_valid (cs_best cs)")
  case True
  then show ?thesis
    by (cases "in_i64 (as_i64 t + cs_offset_us cs)")
       (simp_all add: cs_local_to_remote_def cs_remote_to_local_def cs_offset_us_def Let_def i64_defs
         as_i64_plus i64_of_def [of "as_i64 t + ss_offset (cs_best cs)"])
qed (simp add: cs_local_to_remote_def cs_remote_to_local_def Let_def)

end
