(* ===== verification/Prober.thy ===== *)
theory Prober
  imports Clock_Sync Pacer Proto
begin

text \<open>
  Asynchronous probing (core/include/radio/prober.hpp, core/src/net/prober.cpp): the table of
  unanswered probes, its schedule, and the answer owed to a PING. The theory composes the pacer, the
  wire protocol and the clock estimator: it proves that every probe ends in exactly one of the
  counters, that a reply is measured from the time its own probe left, whatever the peer echoes,
  and that a PING answered with \<open>encode_pong_for\<close> yields the measurement of the four timestamps.
\<close>

section \<open>State and operations\<close>

record prober_config =
  prc_interval :: micros
  prc_timeout :: micros

definition default_prober_config :: prober_config where
  "default_prober_config = \<lparr>prc_interval = 200000, prc_timeout = 1000000\<rparr>"

definition kMaxOutstanding :: nat where "kMaxOutstanding = 8"

record prober_stats =
  st_sent :: u64
  st_replied :: u64
  st_timed_out :: u64
  st_stale :: u64
  st_bad_echo :: u64
  st_impossible :: u64
  st_malformed :: u64
  st_withdrawn :: u64

definition zero_stats :: prober_stats where
  "zero_stats = \<lparr>st_sent = 0, st_replied = 0, st_timed_out = 0, st_stale = 0, st_bad_echo = 0,
     st_impossible = 0, st_malformed = 0, st_withdrawn = 0\<rparr>"

record probe_slot =
  sl_request_id :: u32
  sl_sent_us :: micros
  sl_outstanding :: bool

definition free_slot :: probe_slot where
  "free_slot = \<lparr>sl_request_id = 0, sl_sent_us = 0, sl_outstanding = False\<rparr>"

record prober =
  pr_config :: prober_config
  pr_slots :: "probe_slot list"
  pr_next_request_id :: u32
  pr_pacer :: pacer
  pr_sync :: clock_sync
  pr_stats :: prober_stats
  pr_last_reply_us :: micros
  pr_last_rtt_us :: int
  pr_started :: bool

definition pr_init :: prober where
  "pr_init = \<lparr>pr_config = default_prober_config, pr_slots = replicate kMaxOutstanding free_slot,
     pr_next_request_id = 1, pr_pacer = pacer_zero, pr_sync = cs_init, pr_stats = zero_stats,
     pr_last_reply_us = 0, pr_last_rtt_us = 0, pr_started = False\<rparr>"

definition pr_reset :: "prober \<Rightarrow> prober" where
  "pr_reset p =
     p\<lparr>pr_slots := replicate kMaxOutstanding free_slot, pr_next_request_id := 1,
       pr_pacer := pacer_reset (pr_pacer p), pr_sync := cs_reset (pr_sync p), pr_stats := zero_stats,
       pr_last_reply_us := 0, pr_last_rtt_us := 0, pr_started := False\<rparr>"

definition pr_start :: "prober \<Rightarrow> prober_config \<Rightarrow> micros \<Rightarrow> prober" where
  "pr_start p config now =
     (let p = pr_reset (p\<lparr>pr_config := config\<rparr>) in
      p\<lparr>pr_pacer := pacer_start (pacer_make (prc_interval (pr_config p)) 0) now, pr_started := True\<rparr>)"

text \<open>The scans over the table: the index of the first slot with a property.\<close>

fun first_slot :: "(probe_slot \<Rightarrow> bool) \<Rightarrow> probe_slot list \<Rightarrow> nat option" where
  "first_slot P [] = None"
| "first_slot P (s # ss) = (if P s then Some 0 else map_option Suc (first_slot P ss))"

definition pr_find :: "prober \<Rightarrow> u32 \<Rightarrow> nat option" where
  "pr_find p request_id = first_slot (\<lambda>s. sl_outstanding s \<and> sl_request_id s = request_id) (pr_slots p)"

definition pr_outstanding :: "prober \<Rightarrow> nat" where
  "pr_outstanding p = length (filter sl_outstanding (pr_slots p))"

record probe =
  po_length :: nat
  po_request_id :: u32

definition no_probe :: probe where "no_probe = \<lparr>po_length = 0, po_request_id = 0\<rparr>"

definition probe_ready :: "probe \<Rightarrow> bool" where "probe_ready q \<longleftrightarrow> po_length q \<noteq> 0"

text \<open>The result, the buffer \<open>out\<close> after the call and the new state.\<close>

definition pr_due_probe :: "prober \<Rightarrow> micros \<Rightarrow> bytes \<Rightarrow> (probe \<times> bytes \<times> prober) option" where
  "pr_due_probe p now out =
     (if \<not> pr_started p \<or> \<not> pacer_due (pr_pacer p) now then Some (no_probe, out, p)
      else case first_slot (\<lambda>s. \<not> sl_outstanding s) (pr_slots p) of
        None \<Rightarrow> Some (no_probe, out, p\<lparr>pr_pacer := pacer_advance (pr_pacer p) now\<rparr>)
      | Some i \<Rightarrow> do {
          let header = \<lparr>ch_type = Ping, ch_flags = 0, ch_request_id = pr_next_request_id p, ch_send_time_us = now\<rparr>;
          (len, out) \<leftarrow> encode_control header [] out;
          if len = 0 then Some (no_probe, out, p)
          else
            let slot = \<lparr>sl_request_id = pr_next_request_id p, sl_sent_us = now, sl_outstanding = True\<rparr> in
            Some (\<lparr>po_length = len, po_request_id = pr_next_request_id p\<rparr>, out,
              p\<lparr>pr_slots := (pr_slots p)[i := slot], pr_pacer := pacer_advance (pr_pacer p) now,
                pr_stats := (pr_stats p)\<lparr>st_sent := st_sent (pr_stats p) + 1\<rparr>,
                pr_next_request_id := pr_next_request_id p + 1\<rparr>)
        })"

definition retire :: "prober \<Rightarrow> nat \<Rightarrow> prober" where
  "retire p i = p\<lparr>pr_slots := (pr_slots p)[i := (pr_slots p ! i)\<lparr>sl_outstanding := False\<rparr>]\<rparr>"

definition pr_withdraw :: "prober \<Rightarrow> u32 \<Rightarrow> prober" where
  "pr_withdraw p request_id =
     (case pr_find p request_id of
        None \<Rightarrow> p
      | Some i \<Rightarrow>
          let st = pr_stats p in
          (retire p i)\<lparr>pr_stats := st\<lparr>st_withdrawn := st_withdrawn st + 1, st_sent := st_sent st - 1\<rparr>\<rparr>)"

definition pr_on_pong :: "prober \<Rightarrow> control_packet \<Rightarrow> micros \<Rightarrow> prober option" where
  "pr_on_pong p packet t4 =
     (case pr_find p (ch_request_id (cp_header packet)) of
        None \<Rightarrow> Some (p\<lparr>pr_stats := (pr_stats p)\<lparr>st_stale := st_stale (pr_stats p) + 1\<rparr>\<rparr>)
      | Some i \<Rightarrow> do {
          body \<leftarrow> parse_pong_body (cp_body packet);
          case body of
            Inl _ \<Rightarrow> Some ((retire p i)\<lparr>pr_stats := (pr_stats p)\<lparr>st_malformed := st_malformed (pr_stats p) + 1\<rparr>\<rparr>)
          | Inr body \<Rightarrow> do {
              let st = (if pb_orig_t1 body \<noteq> sl_sent_us (pr_slots p ! i)
                        then (pr_stats p)\<lparr>st_bad_echo := st_bad_echo (pr_stats p) + 1\<rparr> else pr_stats p);
              let t1 = sl_sent_us (pr_slots p ! i);
              let t2 = pb_recv_t2 body;
              let t3 = ch_send_time_us (cp_header packet);
              (sample, sync) \<leftarrow> cs_observe (pr_sync p) t1 t2 t3 t4;
              let p = (retire p i)\<lparr>pr_sync := sync, pr_stats := st\<rparr>;
              if \<not> ss_valid sample then Some (p\<lparr>pr_stats := st\<lparr>st_impossible := st_impossible st + 1\<rparr>\<rparr>)
              else Some (p\<lparr>pr_stats := st\<lparr>st_replied := st_replied st + 1\<rparr>, pr_last_reply_us := t4,
                          pr_last_rtt_us := ss_rtt sample\<rparr>)
            }
        })"

definition slot_expired :: "micros \<Rightarrow> micros \<Rightarrow> probe_slot \<Rightarrow> bool" where
  "slot_expired timeout now s \<longleftrightarrow> sl_outstanding s \<and> now \<ge> sl_sent_us s \<and> now - sl_sent_us s \<ge> timeout"

definition pr_expire :: "prober \<Rightarrow> micros \<Rightarrow> prober" where
  "pr_expire p now =
     (let timeout = prc_timeout (pr_config p);
          retired = length (filter (slot_expired timeout now) (pr_slots p)) in
      p\<lparr>pr_slots := map (\<lambda>s. if slot_expired timeout now s then s\<lparr>sl_outstanding := False\<rparr> else s) (pr_slots p),
        pr_stats := (pr_stats p)\<lparr>st_timed_out := st_timed_out (pr_stats p) + of_nat retired\<rparr>\<rparr>)"

text \<open>The PONG owed for a PING.\<close>

definition encode_pong_for :: "control_packet \<Rightarrow> micros \<Rightarrow> micros \<Rightarrow> bytes \<Rightarrow> (nat \<times> bytes) option" where
  "encode_pong_for ping t2 t3 out =
     do {
       let body = \<lparr>pb_orig_t1 = ch_send_time_us (cp_header ping), pb_recv_t2 = t2\<rparr>;
       (n, encoded_body) \<leftarrow> encode_pong_body body (replicate kPongBodySize 0);
       if n = 0 then Some (0, out)
       else
         let header = \<lparr>ch_type = Pong, ch_flags = 0, ch_request_id = ch_request_id (cp_header ping), ch_send_time_us = t3\<rparr> in
         encode_control header encoded_body out
     }"

section \<open>The table\<close>

lemma first_slot_Some:
  "first_slot P ss = Some i \<longleftrightarrow> i < length ss \<and> P (ss ! i) \<and> (\<forall>j<i. \<not> P (ss ! j))"
proof (induction ss arbitrary: i)
  case (Cons s ss)
  show ?case
  proof (cases i)
    case (Suc k)
    then show ?thesis using Cons.IH [of k] by (auto simp: less_Suc_eq_0_disj)
  qed (use Cons in auto)
qed simp

lemma first_slot_None: "first_slot P ss = None \<longleftrightarrow> (\<forall>s \<in> set ss. \<not> P s)"
  by (induction ss) auto

lemma filter_upd:
  "i < length ss \<Longrightarrow>
   filter P (ss[i := s]) = filter P (take i ss) @ (if P s then [s] else []) @ filter P (drop (Suc i) ss)"
  by (simp add: upd_conv_take_nth_drop)

lemma filter_split:
  "i < length ss \<Longrightarrow>
   filter P ss = filter P (take i ss) @ (if P (ss ! i) then [ss ! i] else []) @ filter P (drop (Suc i) ss)"
  using filter_upd [of i ss P "ss ! i"] by simp

lemma count_upd:
  "i < length ss \<Longrightarrow>
   length (filter P (ss[i := s])) + (if P (ss ! i) then 1 else 0) = length (filter P ss) + (if P s then 1 else 0)"
  by (subst filter_upd, simp, subst (3) filter_split [of i]) simp_all

lemma outstanding_retire:
  "pr_find p r = Some i \<Longrightarrow> pr_outstanding p = Suc (pr_outstanding (retire p i))"
  using count_upd [of i "pr_slots p" sl_outstanding "(pr_slots p ! i)\<lparr>sl_outstanding := False\<rparr>"]
  by (simp add: pr_find_def first_slot_Some pr_outstanding_def retire_def)

lemma outstanding_expire:
  "pr_outstanding p =
     pr_outstanding (pr_expire p now) + length (filter (slot_expired (prc_timeout (pr_config p)) now) (pr_slots p))"
proof -
  have "length (filter sl_outstanding ss) =
      length (filter sl_outstanding (map (\<lambda>s. if slot_expired t now s then s\<lparr>sl_outstanding := False\<rparr> else s) ss)) +
      length (filter (slot_expired t now) ss)" for t ss
    by (induction ss) (auto simp: slot_expired_def)
  then show ?thesis by (simp add: pr_outstanding_def pr_expire_def Let_def)
qed

lemma retire_frame [simp]:
  "pr_config (retire p i) = pr_config p" "pr_next_request_id (retire p i) = pr_next_request_id p"
  "pr_pacer (retire p i) = pr_pacer p" "pr_sync (retire p i) = pr_sync p" "pr_stats (retire p i) = pr_stats p"
  "pr_last_reply_us (retire p i) = pr_last_reply_us p" "pr_started (retire p i) = pr_started p"
  "length (pr_slots (retire p i)) = length (pr_slots p)"
  by (simp_all add: retire_def)

text \<open>A PING always fits, so \<open>due_probe\<close> is total.\<close>

lemma ping_encodes:
  "encode_control \<lparr>ch_type = Ping, ch_flags = 0, ch_request_id = r, ch_send_time_us = t\<rparr> [] out =
   (if length out < 16 then Some (0, out)
    else Some (16, wire_control \<lparr>ch_type = Ping, ch_flags = 0, ch_request_id = r, ch_send_time_us = t\<rparr> [] @ drop 16 out))"
  by (simp add: encode_control_0 encode_control_Some is_media_def)

section \<open>Runs\<close>

datatype pr_event = PrDue micros bytes | PrWithdraw u32 | PrPong control_packet micros | PrExpire micros

text \<open>One event, with the departure times of the probes it produced; \<open>None\<close> is undefined behaviour.\<close>

fun pr_event_step :: "prober \<Rightarrow> pr_event \<Rightarrow> (prober \<times> micros list) option" where
  "pr_event_step p (PrDue now out) =
     map_option (\<lambda>(q, _, p'). (p', if probe_ready q then [now] else [])) (pr_due_probe p now out)"
| "pr_event_step p (PrWithdraw r) = Some (pr_withdraw p r, [])"
| "pr_event_step p (PrPong packet t4) = map_option (\<lambda>p'. (p', [])) (pr_on_pong p packet t4)"
| "pr_event_step p (PrExpire now) = Some (pr_expire p now, [])"

fun pr_run :: "prober \<Rightarrow> micros list \<Rightarrow> pr_event list \<Rightarrow> (prober \<times> micros list) option" where
  "pr_run p sent [] = Some (p, sent)"
| "pr_run p sent (e # es) = do { (p', new) \<leftarrow> pr_event_step p e; pr_run p' (sent @ new) es }"

text \<open>Every probe is in exactly one of the counters, or in the table.\<close>

definition pr_accounts :: "prober \<Rightarrow> bool" where
  "pr_accounts p \<longleftrightarrow>
     length (pr_slots p) = kMaxOutstanding \<and>
     st_sent (pr_stats p) = st_replied (pr_stats p) + st_timed_out (pr_stats p) + st_impossible (pr_stats p) +
       st_malformed (pr_stats p) + of_nat (pr_outstanding p) \<and>
     cs_accepted (pr_sync p) = st_replied (pr_stats p) \<and> cs_rejected (pr_sync p) = st_impossible (pr_stats p)"

text \<open>A slot in use carries the identity and the departure time of one probe, each probe at most once.\<close>

definition pr_matched :: "prober \<Rightarrow> micros list \<Rightarrow> bool" where
  "pr_matched p sent \<longleftrightarrow>
     pr_next_request_id p = of_nat (Suc (length sent)) \<and>
     (\<forall>s \<in> set (pr_slots p). sl_outstanding s \<longrightarrow>
        (\<exists>k < length sent. sl_request_id s = of_nat (Suc k) \<and> sl_sent_us s = sent ! k)) \<and>
     distinct (map sl_request_id (filter sl_outstanding (pr_slots p)))"

lemma accounts_start: "pr_accounts (pr_start p config now)"
  by (simp add: pr_accounts_def pr_start_def pr_reset_def pr_outstanding_def free_slot_def zero_stats_def
      kMaxOutstanding_def cs_reset_def cs_init_def Let_def)

lemma due_probe_cases:
  assumes "pr_due_probe p now out = Some (q, out', p')"
  obtains (idle) pc where "\<not> probe_ready q" "p' = p\<lparr>pr_pacer := pc\<rparr>"
  | (sent) i where "probe_ready q" "po_length q = 16" "po_request_id q = pr_next_request_id p"
      "pr_started p" "pacer_due (pr_pacer p) now" "16 \<le> length out"
      "first_slot (\<lambda>s. \<not> sl_outstanding s) (pr_slots p) = Some i"
      "out' = wire_control \<lparr>ch_type = Ping, ch_flags = 0, ch_request_id = pr_next_request_id p,
        ch_send_time_us = now\<rparr> [] @ drop 16 out"
      "p' = p\<lparr>pr_slots := (pr_slots p)[i := \<lparr>sl_request_id = pr_next_request_id p, sl_sent_us = now, sl_outstanding = True\<rparr>],
        pr_pacer := pacer_advance (pr_pacer p) now, pr_stats := (pr_stats p)\<lparr>st_sent := st_sent (pr_stats p) + 1\<rparr>,
        pr_next_request_id := pr_next_request_id p + 1\<rparr>"
proof (cases "\<not> pr_started p \<or> \<not> pacer_due (pr_pacer p) now \<or> length out < 16")
  case True
  then show thesis using assms
    by (intro idle [of "pr_pacer p'"])
       (auto simp: pr_due_probe_def ping_encodes no_probe_def probe_ready_def Let_def split: if_splits option.splits)
next
  case False
  show thesis
  proof (cases "first_slot (\<lambda>s. \<not> sl_outstanding s) (pr_slots p)")
    case None
    then show thesis using assms False
      by (intro idle [of "pr_pacer p'"]) (auto simp: pr_due_probe_def no_probe_def probe_ready_def)
  next
    case (Some i)
    then show thesis using assms False
      by (intro sent [of i]) (auto simp: pr_due_probe_def ping_encodes probe_ready_def Let_def)
  qed
qed

lemma due_probe_total: "\<exists>r. pr_due_probe p now out = Some r"
  by (auto simp: pr_due_probe_def ping_encodes Let_def split: option.splits)

text \<open>A PONG is handled without overflow when the four times of its exchange are below \<open>2^61\<close>.\<close>

definition slots_small :: "prober \<Rightarrow> bool" where
  "slots_small p \<longleftrightarrow> (\<forall>s \<in> set (pr_slots p). sl_sent_us s < 2 ^ 61)"

definition pong_small :: "control_packet \<Rightarrow> bool" where
  "pong_small packet \<longleftrightarrow> ch_send_time_us (cp_header packet) < 2 ^ 61 \<and>
     (case parse_pong_body (cp_body packet) of Some (Inr b) \<Rightarrow> pb_recv_t2 b < 2 ^ 61 | _ \<Rightarrow> True)"

lemma parse_pong_body_total: "\<exists>r. parse_pong_body d = Some r"
proof (cases "length d = kPongBodySize")
  case True
  then have len: "0 + 8 \<le> length d" "8 + 8 \<le> length d" by (simp_all add: kPongBodySize_def)
  then obtain a b where "load_be64 d 0 = Some a" "load_be64 d 8 = Some b" using load_be64_total by metis
  then show ?thesis by (simp add: parse_pong_body_def kOffPongOrigT1_def kOffPongRecvT2_def)
qed (simp add: parse_pong_body_def)

lemma on_pong_defined:
  assumes "slots_small p" "pong_small packet" "t4 < 2 ^ 61"
  shows "\<exists>p'. pr_on_pong p packet t4 = Some p'"
proof (cases "pr_find p (ch_request_id (cp_header packet))")
  case (Some i)
  obtain r where r: "parse_pong_body (cp_body packet) = Some r" using parse_pong_body_total by blast
  have i: "i < length (pr_slots p)" using Some by (simp add: pr_find_def first_slot_Some)
  show ?thesis
  proof (cases r)
    case (Inr b)
    have "cs_observe (pr_sync p) (sl_sent_us (pr_slots p ! i)) (pb_recv_t2 b) (ch_send_time_us (cp_header packet)) t4 \<noteq> None"
      using assms i r Inr by (intro cs_observe_small) (simp_all add: slots_small_def pong_small_def)
    then show ?thesis using Some r Inr by (auto simp: pr_on_pong_def Let_def)
  qed (simp add: pr_on_pong_def Some r)
qed (simp add: pr_on_pong_def)

lemma slots_small_cong: "pr_slots p' = pr_slots p \<Longrightarrow> slots_small p' = slots_small p"
  by (simp add: slots_small_def)

lemma slots_small_upd:
  "slots_small p \<Longrightarrow> sl_sent_us x < 2 ^ 61 \<Longrightarrow> pr_slots p' = (pr_slots p)[i := x] \<Longrightarrow> slots_small p'"
  using set_update_subset_insert [of "pr_slots p" i x] by (auto simp: slots_small_def)

lemma slots_small_retire: "slots_small p \<Longrightarrow> pr_slots p' = pr_slots (retire p i) \<Longrightarrow> slots_small p'"
  by (cases "i < length (pr_slots p)")
    (auto simp: retire_def slots_small_def list_update_beyond dest!: set_update_subset_insert [THEN subsetD])

lemma on_pong_cases:
  assumes "pr_on_pong p packet t4 = Some p'"
  obtains (stale) "pr_find p (ch_request_id (cp_header packet)) = None"
      "p' = p\<lparr>pr_stats := (pr_stats p)\<lparr>st_stale := st_stale (pr_stats p) + 1\<rparr>\<rparr>"
  | (malformed) i where "pr_find p (ch_request_id (cp_header packet)) = Some i"
      "p' = (retire p i)\<lparr>pr_stats := (pr_stats p)\<lparr>st_malformed := st_malformed (pr_stats p) + 1\<rparr>\<rparr>"
  | (measured) i body s where "pr_find p (ch_request_id (cp_header packet)) = Some i"
      "parse_pong_body (cp_body packet) = Some (Inr body)"
      "cs_measure (sl_sent_us (pr_slots p ! i)) (pb_recv_t2 body) (ch_send_time_us (cp_header packet)) t4 = Some s"
      "p' = (let st = (pr_stats p)\<lparr>st_bad_echo := st_bad_echo (pr_stats p) +
                 (if pb_orig_t1 body \<noteq> sl_sent_us (pr_slots p ! i) then 1 else 0)\<rparr> in
        if ss_valid s
        then (retire p i)\<lparr>pr_sync := cs_accept (pr_sync p) s, pr_stats := st\<lparr>st_replied := st_replied st + 1\<rparr>,
                pr_last_reply_us := t4, pr_last_rtt_us := ss_rtt s\<rparr>
        else (retire p i)\<lparr>pr_sync := (pr_sync p)\<lparr>cs_rejected := cs_rejected (pr_sync p) + 1\<rparr>,
                pr_stats := st\<lparr>st_impossible := st_impossible st + 1\<rparr>\<rparr>)"
proof (cases "pr_find p (ch_request_id (cp_header packet))")
  case None
  then show thesis using assms stale by (simp add: pr_on_pong_def)
next
  case (Some i)
  obtain b where b: "parse_pong_body (cp_body packet) = Some b"
    using assms Some by (cases "parse_pong_body (cp_body packet)") (simp_all add: pr_on_pong_def)
  show thesis
  proof (cases b)
    case (Inl r)
    then show thesis using assms Some b malformed by (simp add: pr_on_pong_def)
  next
    case (Inr body)
    let ?m = "cs_measure (sl_sent_us (pr_slots p ! i)) (pb_recv_t2 body) (ch_send_time_us (cp_header packet)) t4"
    obtain s where s: "?m = Some s"
      using assms Some b Inr by (cases ?m) (simp_all add: pr_on_pong_def Let_def cs_observe_measure)
    show thesis
      using assms Some b Inr s
      by (intro measured [OF Some _ s]) (auto simp: pr_on_pong_def Let_def cs_observe_measure split: if_splits)
  qed
qed

lemma slots_small_keep:
  assumes "slots_small p"
  shows "pr_due_probe p now out = Some (q, out', p') \<Longrightarrow> now < 2 ^ 61 \<Longrightarrow> slots_small p'"
    "pr_on_pong p packet t4 = Some p'' \<Longrightarrow> slots_small p''" "slots_small (pr_expire p now)" "slots_small (pr_withdraw p n)"
    "slots_small (pr_start p config now)"
proof -
  show "slots_small p'" if "pr_due_probe p now out = Some (q, out', p')" "now < 2 ^ 61"
    using that(1)
  proof (cases rule: due_probe_cases)
    case (sent i)
    then show ?thesis using that(2) by (intro slots_small_upd [OF assms]) simp_all
  next
    case (idle pc)
    then show ?thesis using assms by (simp add: slots_small_def)
  qed
  show "slots_small p''" if "pr_on_pong p packet t4 = Some p''"
    using that
  proof (cases rule: on_pong_cases)
    case (measured i body s)
    then show ?thesis by (intro slots_small_retire [OF assms, of p'' i]) (simp add: Let_def)
  next
    case stale
    then show ?thesis using assms by (simp add: slots_small_def)
  next
    case (malformed i)
    then show ?thesis by (intro slots_small_retire [OF assms, of p'' i]) simp
  qed
  show "slots_small (pr_expire p now)" using assms by (auto simp: slots_small_def pr_expire_def Let_def)
  show "slots_small (pr_withdraw p n)"
  proof (cases "pr_find p n")
    case (Some i)
    then show ?thesis by (intro slots_small_retire [OF assms, of _ i]) (simp add: pr_withdraw_def Let_def)
  qed (use assms in \<open>simp add: pr_withdraw_def\<close>)
  show "slots_small (pr_start p config now)"
    by (simp add: slots_small_def pr_start_def pr_reset_def Let_def free_slot_def)
qed

lemma accept_counts: "cs_accepted (cs_accept cs s) = cs_accepted cs + 1" "cs_rejected (cs_accept cs s) = cs_rejected cs"
  by (simp_all add: cs_accept_def Let_def)

lemma outstanding_upd:
  "pr_outstanding (p\<lparr>pr_stats := st\<rparr>) = pr_outstanding p" "pr_outstanding (p\<lparr>pr_sync := y\<rparr>) = pr_outstanding p"
  "pr_outstanding (p\<lparr>pr_last_reply_us := t\<rparr>) = pr_outstanding p" "pr_outstanding (p\<lparr>pr_last_rtt_us := r\<rparr>) = pr_outstanding p"
  by (simp_all add: pr_outstanding_def)

lemma accounts_step:
  assumes "pr_accounts p" "pr_event_step p e = Some (p', new)"
  shows "pr_accounts p'"
proof (cases e)
  case (PrDue now out)
  then obtain q out' where d: "pr_due_probe p now out = Some (q, out', p')" using assms(2) by auto
  from d show ?thesis
  proof (cases rule: due_probe_cases)
    case (idle pc)
    then show ?thesis using assms(1) unfolding idle(2) by (simp add: pr_accounts_def pr_outstanding_def)
  next
    case (sent i)
    have "pr_outstanding p' = Suc (pr_outstanding p)"
      using sent count_upd [of i "pr_slots p" sl_outstanding] by (simp add: first_slot_Some pr_outstanding_def)
    then show ?thesis using assms(1) unfolding sent(9) by (simp add: pr_accounts_def)
  qed
next
  case (PrWithdraw r)
  then show ?thesis using assms outstanding_retire
    by (auto simp: pr_withdraw_def pr_accounts_def outstanding_upd Let_def split: option.splits)
next
  case (PrPong packet t4)
  then have d: "pr_on_pong p packet t4 = Some p'" using assms(2) by auto
  from d show ?thesis
  proof (cases rule: on_pong_cases)
    case stale
    then show ?thesis using assms(1) by (simp add: pr_accounts_def outstanding_upd)
  next
    case (malformed i)
    then show ?thesis using assms(1) outstanding_retire [OF malformed(1)] by (simp add: pr_accounts_def outstanding_upd)
  next
    case (measured i body s)
    then show ?thesis using assms(1) outstanding_retire [OF measured(1)]
      by (auto simp: pr_accounts_def outstanding_upd accept_counts Let_def)
  qed
next
  case (PrExpire now)
  then show ?thesis using assms outstanding_expire [of p now]
    by (auto simp: pr_accounts_def) (auto simp: pr_expire_def Let_def)
qed

lemma accounts_run:
  assumes "pr_run p sent es = Some (p', sent')" "pr_accounts p"
  shows "pr_accounts p'"
  using assms
proof (induction es arbitrary: p sent)
  case (Cons e es)
  then obtain p1 new where "pr_event_step p e = Some (p1, new)" "pr_run p1 (sent @ new) es = Some (p', sent')"
    by (auto split: Option.bind_splits)
  then show ?case using Cons accounts_step by blast
qed simp


section \<open>Whose reply\<close>

lemma matched_cong:
  "pr_slots p' = pr_slots p \<Longrightarrow> pr_next_request_id p' = pr_next_request_id p \<Longrightarrow> pr_matched p' sent = pr_matched p sent"
  by (simp add: pr_matched_def)

lemma matched_retire:
  assumes "pr_matched p sent" "i < length (pr_slots p)"
  shows "pr_matched (retire p i) sent"
proof -
  have "s \<in> set (pr_slots p) \<and> sl_outstanding s" if "s \<in> set (pr_slots (retire p i))" "sl_outstanding s" for s
    using that set_update_subset_insert [of "pr_slots p" i] by (fastforce simp: retire_def)
  moreover have "distinct (map sl_request_id (filter sl_outstanding (pr_slots (retire p i))))"
    using assms filter_split [of i "pr_slots p" sl_outstanding]
    by (auto simp: pr_matched_def retire_def filter_upd split: if_splits)
  ultimately show ?thesis using assms(1) unfolding pr_matched_def by (metis retire_frame(2))
qed

lemma matched_retired:
  assumes "pr_matched p sent" "pr_find p r = Some i"
    and "pr_slots p' = pr_slots (retire p i)" "pr_next_request_id p' = pr_next_request_id p"
  shows "pr_matched p' sent"
proof -
  have "pr_matched (retire p i) sent"
    using assms(1,2) by (intro matched_retire) (simp_all add: pr_find_def first_slot_Some)
  then show ?thesis using assms(3,4) matched_cong [of p' "retire p i" sent] by simp
qed

lemma matched_expire:
  assumes "pr_matched p sent"
  shows "pr_matched (pr_expire p now) sent"
proof -
  let ?t = "prc_timeout (pr_config p)"
  let ?r = "\<lambda>s. if slot_expired ?t now s then s\<lparr>sl_outstanding := False\<rparr> else s"
  have "map sl_request_id (filter sl_outstanding (map ?r ss)) =
      map sl_request_id (filter (\<lambda>s. \<not> slot_expired ?t now s) (filter sl_outstanding ss))" for ss
    by (induction ss) (auto simp: slot_expired_def)
  then have "distinct (map sl_request_id (filter sl_outstanding (pr_slots (pr_expire p now))))"
    using assms distinct_map_filter [of sl_request_id "filter sl_outstanding (pr_slots p)"]
    by (simp add: pr_expire_def pr_matched_def Let_def)
  then show ?thesis using assms unfolding pr_matched_def
    by (auto simp: pr_expire_def Let_def)
qed

lemma id_inj: "k < n \<Longrightarrow> n < 2 ^ 32 - 1 \<Longrightarrow> (of_nat (Suc k) :: u32) \<noteq> of_nat (Suc n)"
proof
  assume n: "k < n" "n < 2 ^ 32 - 1" and eq: "(of_nat (Suc k) :: u32) = of_nat (Suc n)"
  have "unat (of_nat (Suc k) :: u32) = Suc k" by (rule unat_of_nat_small) (use n in simp)
  moreover have "unat (of_nat (Suc n) :: u32) = Suc n" by (rule unat_of_nat_small) (use n in simp)
  ultimately show False using n(1) unfolding eq by simp
qed

lemma matched_fresh:
  assumes "pr_matched p sent" "length sent < 2 ^ 32 - 1" "s \<in> set (pr_slots p)" "sl_outstanding s"
  shows "sl_request_id s \<noteq> pr_next_request_id p"
  using assms id_inj unfolding pr_matched_def by metis

lemma matched_step:
  assumes m: "pr_matched p sent" and len: "length sent < 2 ^ 32 - 1" and e: "pr_event_step p e = Some (p', new)"
  shows "pr_matched p' (sent @ new)"
proof (cases e)
  case (PrDue now out)
  then obtain q out' where d: "pr_due_probe p now out = Some (q, out', p')"
    and new: "new = (if probe_ready q then [now] else [])" using e by auto
  from d show ?thesis
  proof (cases rule: due_probe_cases)
    case (idle pc)
    then show ?thesis using m matched_cong [of p' p] new by simp
  next
    case (sent i)
    note pr_sent = sent
    let ?s = "\<lparr>sl_request_id = pr_next_request_id p, sl_sent_us = now, sl_outstanding = True\<rparr>"
    have i: "i < length (pr_slots p)" "\<not> sl_outstanding (pr_slots p ! i)"
      using sent(7) by (simp_all add: first_slot_Some)
    have slots: "pr_slots p' = (pr_slots p)[i := ?s]" and nxt: "pr_next_request_id p' = pr_next_request_id p + 1"
      unfolding sent(9) by simp_all
    have old: "\<exists>k<length sent. sl_request_id s = of_nat (Suc k) \<and> sl_sent_us s = sent ! k"
      if "s \<in> set (pr_slots p)" "sl_outstanding s" for s using m that unfolding pr_matched_def by blast
    have "\<exists>k<Suc (length sent). sl_request_id s = of_nat (Suc k) \<and> sl_sent_us s = (sent @ [now]) ! k"
      if "s \<in> set ((pr_slots p)[i := ?s])" "sl_outstanding s" for s
    proof (cases "s = ?s")
      case True
      then show ?thesis using m by (intro exI [of _ "length sent"]) (simp add: pr_matched_def)
    next
      case False
      then have "s \<in> set (pr_slots p)" using that set_update_subset_insert [of "pr_slots p" i ?s] by blast
      with old [OF this that(2)] show ?thesis by (metis less_Suc_eq nth_append)
    qed
    moreover have "distinct (map sl_request_id (filter sl_outstanding ((pr_slots p)[i := ?s])))"
    proof -
      have "distinct (map sl_request_id (filter sl_outstanding (pr_slots p)))" using m by (simp add: pr_matched_def)
      moreover have "pr_next_request_id p \<notin> sl_request_id ` set (filter sl_outstanding (pr_slots p))"
        using matched_fresh [OF m len] by fastforce
      ultimately show ?thesis
        using i by (simp add: filter_upd filter_split [OF i(1), of sl_outstanding]) auto
    qed
    moreover have "pr_next_request_id p + 1 = of_nat (Suc (Suc (length sent)))"
      using m by (simp add: pr_matched_def)
    ultimately show ?thesis using sent(1) new unfolding pr_matched_def slots nxt by simp
  qed
next
  case (PrWithdraw r)
  then have p': "p' = pr_withdraw p r" and new: "new = []" using e by simp_all
  show ?thesis
  proof (cases "pr_find p r")
    case None
    then show ?thesis using m p' new by (simp add: pr_withdraw_def)
  next
    case (Some i)
    then have "pr_slots p' = pr_slots (retire p i)" "pr_next_request_id p' = pr_next_request_id p"
      by (simp_all add: p' pr_withdraw_def Let_def)
    then show ?thesis using matched_retired [OF m Some] new by simp
  qed
next
  case (PrPong packet t4)
  then have d: "pr_on_pong p packet t4 = Some p'" and new: "new = []" using e by auto
  from d show ?thesis
  proof (cases rule: on_pong_cases)
    case stale
    then show ?thesis using m matched_cong [of p' p] new by simp
  next
    case (malformed i)
    then show ?thesis using matched_retired [OF m malformed(1), of p'] new by simp
  next
    case (measured i body s)
    then have "pr_slots p' = pr_slots (retire p i)" "pr_next_request_id p' = pr_next_request_id p"
      by (auto simp: Let_def)
    then show ?thesis using matched_retired [OF m measured(1)] new by simp
  qed
next
  case (PrExpire now)
  then show ?thesis using m e matched_expire by auto
qed

lemma matched_start: "pr_matched (pr_start p config now) []"
  by (simp add: pr_matched_def pr_start_def pr_reset_def free_slot_def Let_def)

lemma step_sent: "pr_event_step p e = Some (p', new) \<Longrightarrow> length new \<le> 1"
  by (cases e) (auto split: if_splits)

lemma run_sent_mono: "pr_run p sent es = Some (p', sent') \<Longrightarrow> length sent \<le> length sent'"
proof (induction es arbitrary: p sent)
  case (Cons e es)
  then obtain p1 new where "pr_run p1 (sent @ new) es = Some (p', sent')" by (auto split: Option.bind_splits)
  from Cons.IH [OF this] show ?case by simp
qed simp

lemma matched_run:
  assumes "pr_run p sent es = Some (p', sent')" "pr_matched p sent" "length sent' < 2 ^ 32 - 1"
  shows "pr_matched p' sent'"
  using assms
proof (induction es arbitrary: p sent)
  case (Cons e es)
  then obtain p1 new where s: "pr_event_step p e = Some (p1, new)" and r: "pr_run p1 (sent @ new) es = Some (p', sent')"
    by (auto split: Option.bind_splits)
  have "length sent < 2 ^ 32 - 1" using run_sent_mono [OF r] Cons.prems(3) by simp
  then show ?case using Cons.IH [OF r] matched_step [OF Cons.prems(2) _ s] Cons.prems(3) by blast
qed simp

text \<open>The slot of a request id, and that there is only one.\<close>

lemma find_sent:
  assumes "pr_matched p sent" "length sent < 2 ^ 32 - 1" "pr_find p r = Some i"
  shows "1 \<le> unat r \<and> unat r \<le> length sent \<and> sl_sent_us (pr_slots p ! i) = sent ! (unat r - 1)"
proof -
  have "pr_slots p ! i \<in> set (pr_slots p)" "sl_outstanding (pr_slots p ! i)" "sl_request_id (pr_slots p ! i) = r"
    using assms(3) by (simp_all add: pr_find_def first_slot_Some)
  then obtain k where k: "k < length sent" "r = of_nat (Suc k)" "sl_sent_us (pr_slots p ! i) = sent ! k"
    using assms(1) unfolding pr_matched_def by blast
  have "unat (of_nat (Suc k) :: u32) = Suc k" by (rule unat_of_nat_small) (use k(1) assms(2) in simp)
  then show ?thesis using k by simp
qed

lemma find_after_retire:
  assumes "pr_matched p sent" "pr_find p r = Some i"
  shows "pr_find (retire p i) r = None"
proof -
  have i: "i < length (pr_slots p)" "sl_outstanding (pr_slots p ! i)" "sl_request_id (pr_slots p ! i) = r"
    using assms(2) by (simp_all add: pr_find_def first_slot_Some)
  have "distinct (map sl_request_id (filter sl_outstanding (pr_slots p)))" using assms(1) by (simp add: pr_matched_def)
  then have "r \<notin> sl_request_id ` set (filter sl_outstanding (pr_slots (retire p i)))"
    using i by (simp add: filter_split [OF i(1), of sl_outstanding] retire_def filter_upd) auto
  then show ?thesis by (auto simp: pr_find_def first_slot_None)
qed


section \<open>Properties\<close>

text \<open>A concrete prober, its first probe, and the one-sided exchange of the estimator as its reply.\<close>

definition demo_prober :: prober where
  "demo_prober = pr_start pr_init default_prober_config 10"

definition demo_sent :: prober where
  "demo_sent = demo_prober\<lparr>pr_slots := \<lparr>sl_request_id = 1, sl_sent_us = 10, sl_outstanding = True\<rparr> # replicate 7 free_slot,
     pr_pacer := pacer_advance (pr_pacer demo_prober) 10,
     pr_stats := zero_stats\<lparr>st_sent := 1\<rparr>, pr_next_request_id := 2\<rparr>"

definition demo_pong :: control_packet where
  "demo_pong = \<lparr>cp_header = \<lparr>ch_type = Pong, ch_flags = 0, ch_request_id = 1, ch_send_time_us = 11\<rparr>,
     cp_body = wire_pong_body \<lparr>pb_orig_t1 = 10, pb_recv_t2 = 11\<rparr>\<rparr>"

lemma demo_fields:
  "pr_slots demo_prober = free_slot # replicate 7 free_slot" "pr_started demo_prober"
  "pr_pacer demo_prober = pacer_start (pacer_make 200000 0) 10" "pr_next_request_id demo_prober = 1"
  "pr_stats demo_prober = zero_stats" "pr_sync demo_prober = cs_init"
  by (simp_all add: demo_prober_def pr_start_def pr_reset_def kMaxOutstanding_def default_prober_config_def
      Let_def cs_reset_def flip: replicate_Suc)

lemma demo_due: "pr_due_probe demo_prober 10 (replicate 16 0) =
  Some (\<lparr>po_length = 16, po_request_id = 1\<rparr>,
    wire_control \<lparr>ch_type = Ping, ch_flags = 0, ch_request_id = 1, ch_send_time_us = 10\<rparr> [], demo_sent)"
  by (simp add: pr_due_probe_def demo_fields pacer_due_def pacer_start_def ping_encodes free_slot_def Let_def)
     (simp add: demo_sent_def free_slot_def zero_stats_def pacer_start_def demo_fields)

lemma demo_run: "pr_run demo_prober [] [PrDue 10 (replicate 16 0)] = Some (demo_sent, [10])"
  by (simp add: demo_due probe_ready_def)

lemma demo_reply: "\<exists>p'. pr_on_pong demo_sent demo_pong 11 = Some p' \<and> pr_sync p' = cs_accept cs_init one_sided"
proof -
  have "pr_find demo_sent 1 = Some 0" "sl_sent_us (pr_slots demo_sent ! 0) = 10" "pr_sync demo_sent = cs_init"
    by (simp_all add: pr_find_def demo_sent_def demo_fields)
  moreover have "ss_valid one_sided" by (simp add: one_sided_def)
  ultimately show ?thesis
    by (simp add: pr_on_pong_def demo_pong_def parse_pong_body_wire cs_observe_measure measure_one_sided Let_def)
qed

lemma accept_changes: "cs_accept cs_init s \<noteq> cs_init"
proof
  assume "cs_accept cs_init s = cs_init"
  then have "cs_accepted (cs_accept cs_init s) = cs_accepted cs_init" by simp
  then show False by (simp add: accept_counts)
qed

text \<open>
  C11. Every probe is accounted for: after any run, the probes sent (and not withdrawn) are those
  replied to, timed out, impossible, answered with an unusable body or still in the table, and the
  estimator accepted and rejected exactly the replied and the impossible ones.
\<close>

lemma pr_conservation:
  assumes "pr_run (pr_start p0 config t0) [] es = Some (p, sent)"
  shows "pr_outstanding p \<le> kMaxOutstanding \<and>
    st_sent (pr_stats p) = st_replied (pr_stats p) + st_timed_out (pr_stats p) + st_impossible (pr_stats p) +
      st_malformed (pr_stats p) + of_nat (pr_outstanding p) \<and>
    cs_accepted (pr_sync p) = st_replied (pr_stats p) \<and> cs_rejected (pr_sync p) = st_impossible (pr_stats p)"
proof -
  have "pr_accounts p" using accounts_run [OF assms accounts_start] .
  moreover have "pr_outstanding p \<le> length (pr_slots p)" by (simp add: pr_outstanding_def)
  ultimately show ?thesis by (simp add: pr_accounts_def)
qed

lemma pr_conservation_witness:
  "pr_outstanding demo_sent \<le> 8 \<and> st_sent (pr_stats demo_sent) = 0 + 0 + 0 + 0 + of_nat (pr_outstanding demo_sent)"
  using pr_conservation [OF demo_run [unfolded demo_prober_def]]
  by (simp add: kMaxOutstanding_def demo_sent_def zero_stats_def)

text \<open>
  C5. A reply that is counted was measured from the departure time of the very probe whose request id
  it carries, never from the echo, and the same probe cannot be answered again: the id is then unknown.
\<close>

lemma pr_pairs_own_probe:
  assumes run: "pr_run (pr_start p0 config t0) [] es = Some (p, sent)" and few: "length sent < 2 ^ 32 - 1"
    and pong: "pr_on_pong p packet t4 = Some p'" and counted: "pr_sync p' \<noteq> pr_sync p"
  shows "let r = ch_request_id (cp_header packet) in
    1 \<le> unat r \<and> unat r \<le> length sent \<and>
    (\<exists>body s. parse_pong_body (cp_body packet) = Some (Inr body) \<and>
       cs_measure (sent ! (unat r - 1)) (pb_recv_t2 body) (ch_send_time_us (cp_header packet)) t4 = Some s \<and>
       pr_sync p' = (if ss_valid s then cs_accept (pr_sync p) s
                     else (pr_sync p)\<lparr>cs_rejected := cs_rejected (pr_sync p) + 1\<rparr>)) \<and>
    pr_find p' r = None"
proof -
  have m: "pr_matched p sent" by (rule matched_run [OF run matched_start few])
  from pong show ?thesis
  proof (cases rule: on_pong_cases)
    case (measured i body s)
    have "pr_slots p' = pr_slots (retire p i)" using measured(4) by (auto simp: Let_def)
    then have "pr_find p' (ch_request_id (cp_header packet)) = None"
      using find_after_retire [OF m measured(1)] by (simp add: pr_find_def)
    moreover have "pr_sync p' = (if ss_valid s then cs_accept (pr_sync p) s
                     else (pr_sync p)\<lparr>cs_rejected := cs_rejected (pr_sync p) + 1\<rparr>)"
      using measured(4) by (simp add: Let_def)
    ultimately show ?thesis
      using find_sent [OF m few measured(1)] measured(2,3) unfolding Let_def by metis
  qed (use counted in simp_all)
qed

lemma pr_pairs_own_probe_witness:
  "\<exists>p' s. pr_on_pong demo_sent demo_pong 11 = Some p' \<and> cs_measure ([10] ! (unat (1 :: u32) - 1)) 11 11 11 = Some s \<and>
    pr_find p' 1 = None"
proof -
  obtain p' where p': "pr_on_pong demo_sent demo_pong 11 = Some p'" "pr_sync p' = cs_accept cs_init one_sided"
    using demo_reply by blast
  have "pr_sync p' \<noteq> pr_sync demo_sent" using accept_changes p'(2) by (simp add: demo_sent_def demo_fields)
  from pr_pairs_own_probe [OF demo_run [unfolded demo_prober_def] _ p'(1) this]
  show ?thesis using p'(1) by (auto simp: demo_pong_def parse_pong_body_wire Let_def)
qed

text \<open>
  C28. The whole exchange: a probe that leaves at \<open>t1\<close>, reaches a peer that parses it and answers with
  \<open>encode_pong_for\<close> at times \<open>t2\<close> and \<open>t3\<close>, and is parsed on return at \<open>t4\<close>, is the measurement of
  the four timestamps: the reply is counted, no echo mismatch is, and the slot is free again.
\<close>

lemma pr_exchange:
  assumes run: "pr_run (pr_start p0 config t0) [] es = Some (p, sent)" and few: "length sent < 2 ^ 32 - 2"
    and due: "pr_due_probe p t1 out = Some (q, out1, p1)" "probe_ready q"
    and peer: "32 \<le> length out2"
    and s: "cs_measure t1 t2 t3 t4 = Some s" "ss_valid s"
  shows "\<exists>ping answer pong p2.
    parse_control (take (po_length q) out1) = Some (Inr ping) \<and>
    encode_pong_for ping t2 t3 out2 = Some (32, answer) \<and>
    parse_control (take 32 answer) = Some (Inr pong) \<and>
    pr_on_pong p1 pong t4 = Some p2 \<and>
    pr_sync p2 = cs_accept (pr_sync p) s \<and> pr_last_rtt_us p2 = ss_rtt s \<and> pr_last_reply_us p2 = t4 \<and>
    st_replied (pr_stats p2) = st_replied (pr_stats p) + 1 \<and>
    st_bad_echo (pr_stats p2) = st_bad_echo (pr_stats p) \<and> pr_outstanding p2 = pr_outstanding p"
  using due(1)
proof (cases rule: due_probe_cases)
  case (idle pc)
  then show ?thesis using due(2) by simp
next
  case (sent i)
  let ?id = "pr_next_request_id p"
  let ?h = "\<lparr>ch_type = Ping, ch_flags = 0, ch_request_id = ?id, ch_send_time_us = t1\<rparr>"
  let ?g = "\<lparr>ch_type = Pong, ch_flags = 0, ch_request_id = ?id, ch_send_time_us = t3\<rparr>"
  let ?b = "\<lparr>pb_orig_t1 = t1, pb_recv_t2 = t2\<rparr>"
  define ping where "ping = \<lparr>cp_header = ?h, cp_body = []\<rparr>"
  define pong where "pong = \<lparr>cp_header = ?g, cp_body = wire_pong_body ?b\<rparr>"
  have w16: "length (wire_pong_body ?b) = 16" by simp
  have ok: "control_ok ping" "control_ok pong"
    by (simp_all add: control_ok_def ping_def pong_def is_media_def proto_consts kMaxDatagram_def)
  have 1: "parse_control (take (po_length q) out1) = Some (Inr ping)"
    using parse_control_wire [OF ok(1)] sent(2) by (simp add: sent(8) ping_def)
  have 2: "encode_pong_for ping t2 t3 out2 = Some (32, wire_control ?g (wire_pong_body ?b) @ drop 32 out2)"
    using peer w16 by (simp add: encode_pong_for_def kPongBodySize_def encode_pong_body_Some Let_def ping_def
        encode_control_Some is_media_def)
  have 3: "parse_control (take 32 (wire_control ?g (wire_pong_body ?b) @ drop 32 out2)) = Some (Inr pong)"
    using parse_control_wire [OF ok(2)] w16 by (simp add: pong_def)
  have m: "pr_matched p1 (sent @ [t1])"
  proof (rule matched_step [where e = "PrDue t1 out"])
    show "pr_matched p sent" by (rule matched_run [OF run matched_start]) (use few in simp)
    show "pr_event_step p (PrDue t1 out) = Some (p1, [t1])" using due by simp
  qed (use few in simp)
  have i: "i < length (pr_slots p)" "\<not> sl_outstanding (pr_slots p ! i)" using sent(7) by (simp_all add: first_slot_Some)
  obtain j where j: "pr_find p1 ?id = Some j"
  proof (cases "pr_find p1 ?id")
    case None
    then have "\<forall>s \<in> set (pr_slots p1). \<not> (sl_outstanding s \<and> sl_request_id s = ?id)"
      by (simp add: pr_find_def first_slot_None)
    moreover have "pr_slots p1 ! i \<in> set (pr_slots p1)" "sl_outstanding (pr_slots p1 ! i)" "sl_request_id (pr_slots p1 ! i) = ?id"
      using i(1) by (simp_all add: sent(9) set_update_memI)
    ultimately show thesis by blast
  qed
  have "pr_matched p sent" by (rule matched_run [OF run matched_start]) (use few in simp)
  then have idv: "unat ?id = Suc (length sent)"
    using few by (simp add: pr_matched_def unat_of_nat_small del: of_nat_Suc)
  have t1: "sl_sent_us (pr_slots p1 ! j) = t1"
    using find_sent [OF m _ j] few by (simp add: idv)
  have st: "pr_stats p1 = (pr_stats p)\<lparr>st_sent := st_sent (pr_stats p) + 1\<rparr>" "pr_sync p1 = pr_sync p"
    by (simp_all add: sent(9))
  have out: "pr_outstanding p1 = Suc (pr_outstanding p)"
    using i count_upd [of i "pr_slots p" sl_outstanding] by (simp add: sent(9) pr_outstanding_def)
  define p2 where "p2 = (retire p1 j)\<lparr>pr_sync := cs_accept (pr_sync p) s,
    pr_stats := (pr_stats p1)\<lparr>st_replied := st_replied (pr_stats p1) + 1\<rparr>, pr_last_reply_us := t4, pr_last_rtt_us := ss_rtt s\<rparr>"
  have 4: "pr_on_pong p1 pong t4 = Some p2"
    using j s by (simp add: pr_on_pong_def pong_def parse_pong_body_wire t1 Let_def cs_observe_measure st p2_def)
  have "pr_outstanding p2 = pr_outstanding p"
    using outstanding_retire [OF j] out by (simp add: p2_def outstanding_upd)
  then show ?thesis using 1 2 3 4 by (intro exI [of _ ping] exI [of _ pong] exI [of _ p2] exI conjI) (auto simp: p2_def st)
qed

lemma pr_exchange_witness:
  "\<exists>ping answer pong p2.
    encode_pong_for ping 11 11 (replicate 32 0) = Some (32, answer) \<and>
    parse_control (take 32 answer) = Some (Inr pong) \<and> pr_on_pong demo_sent pong 11 = Some p2 \<and>
    pr_last_rtt_us p2 = 1 \<and> pr_outstanding p2 = 0"
proof -
  have run: "pr_run (pr_start pr_init default_prober_config 10) [] [] = Some (demo_prober, [])"
    by (simp add: demo_prober_def)
  have "ss_valid one_sided" "ss_rtt one_sided = 1" by (simp_all add: one_sided_def)
  moreover have "pr_outstanding demo_prober = 0" by (simp add: pr_outstanding_def demo_fields free_slot_def)
  ultimately show ?thesis
    using pr_exchange [OF run _ demo_due _ _ measure_one_sided, of "replicate 32 0"]
    by (simp add: probe_ready_def) blast
qed




end
