(* ===== verification/Jitter_Estimator.thy ===== *)
theory Jitter_Estimator
  imports Double64 Clock Serial Checked_Int
begin

text \<open>
  The RFC 3550 interarrival jitter (core/include/radio/jitter_estimator.hpp,
  core/src/metrics/jitter_estimator.cpp), with the average in doubles and the deltas in signed
  64-bit arithmetic. The theory proves that the arithmetic never overflows, whatever the timestamps
  on the wire, that a sender that paces exactly is measured as zero jitter across the timestamp
  wrap, and that the average stays between zero and the peak in spite of the rounding.
\<close>

section \<open>Rounding a running average\<close>

text \<open>A sixteenth of a difference, rounded twice, does not exceed the difference.\<close>

lemma sixteenth_le:
  assumes "rnd x = x" "rnd y = y" "x \<le> y"
  shows "rnd (rnd (y - x) / 16) \<le> y - x"
proof (cases "x = y")
  case False
  define d where "d = y - x"
  obtain k l where "x = of_int k * 2 powi (- 1074)" "y = of_int l * 2 powi (- 1074)"
    using rnd_grid assms(1,2) by metis
  then have d: "d = of_int (l - k) * 2 powi (- 1074)" by (simp add: d_def left_diff_distrib)
  have pos: "0 < d" using False assms(3) by (simp add: d_def)
  then have "1 \<le> l - k" using d by (simp add: zero_less_mult_iff)
  then have "(1 :: rat) \<le> of_int (l - k)" by (simp only: of_int_1_le_iff)
  then have "2 powi (- 1074) \<le> d" unfolding d using mult_right_mono [of 1 "of_int (l - k)" "2 powi (- 1074) :: rat"] by simp
  then have "(2 powi (- 1074) :: rat) < 2 powi (binexp d + 1)" using binexp_bounds(2) [OF pos] by (rule le_less_trans)
  then have "- 1074 < binexp d + 1" by (rule powi_less_imp)
  define q :: rat where "q = 2 powi (binexp d)"
  have q: "q \<le> d" "d < 2 * q" "rnd q = q" "rnd (2 * q) = 2 * q" "0 < q"
    using binexp_bounds [OF pos] \<open>- 1074 < binexp d + 1\<close> rnd_pow2 [of "binexp d"] rnd_pow2 [of "binexp d + 1"]
    by (simp_all add: q_def power_int_add mult.commute)
  have "rnd d \<le> 2 * q" using rnd_mono_nonneg [of d "2 * q"] q pos by simp
  then have "rnd d / 16 \<le> q" using q(5) by simp
  then have "rnd (rnd d / 16) \<le> q" using rnd_mono_nonneg [of "rnd d / 16" q] rnd_nonneg [of d] pos q(3) by simp
  then show ?thesis using q(1) unfolding d_def by simp
qed simp

lemma average_between:
  assumes J: "rnd J = J" "0 \<le> J" "J \<le> M" and a: "rnd a = a" "0 \<le> a" "a \<le> M" and M: "rnd M = M"
  shows "0 \<le> d_add J (d_div (d_sub a J) 16)" "d_add J (d_div (d_sub a J) 16) \<le> M"
proof -
  have "0 \<le> J + rnd (rnd (a - J) / 16) \<and> J + rnd (rnd (a - J) / 16) \<le> M"
  proof (cases "J \<le> a")
    case True
    have "0 \<le> rnd (rnd (a - J) / 16)" using True by (intro rnd_nonneg) (simp add: rnd_nonneg)
    then show ?thesis using sixteenth_le [OF J(1) a(1) True] J a by simp
  next
    case False
    have "rnd (a - J) = - rnd (J - a)" using rnd_minus [of "J - a"] by simp
    then have e: "rnd (rnd (a - J) / 16) = - rnd (rnd (J - a) / 16)" by (simp add: rnd_minus minus_divide_left [symmetric])
    have "0 \<le> rnd (rnd (J - a) / 16)" using False by (intro rnd_nonneg) (simp add: rnd_nonneg)
    then show ?thesis unfolding e using sixteenth_le [OF a(1) J(1)] False J a by simp
  qed
  then show "0 \<le> d_add J (d_div (d_sub a J) 16)" "d_add J (d_div (d_sub a J) 16) \<le> M"
    using rnd_mono_nonneg [of "J + rnd (rnd (a - J) / 16)" M] M
    by (simp_all add: d_add_def d_div_def d_sub_def rnd_nonneg)
qed

section \<open>State and operations\<close>

definition kGainShift :: nat where "kGainShift = 4"

record jitter_estimator =
  je_jitter :: double
  je_prev_arrival :: u64
  je_prev_timestamp :: u32
  je_last_delta :: int
  je_peak :: int
  je_samples :: u64
  je_anchored :: bool

definition je_init :: jitter_estimator where
  "je_init = \<lparr>je_jitter = 0, je_prev_arrival = 0, je_prev_timestamp = 0, je_last_delta = 0, je_peak = 0,
     je_samples = 0, je_anchored = False\<rparr>"

definition je_anchor :: "jitter_estimator \<Rightarrow> u32 \<Rightarrow> micros \<Rightarrow> jitter_estimator" where
  "je_anchor je timestamp arrival_us =
     je\<lparr>je_prev_timestamp := timestamp, je_prev_arrival := us_to_samples arrival_us, je_anchored := True\<rparr>"

definition je_reanchor :: "jitter_estimator \<Rightarrow> u32 \<Rightarrow> micros \<Rightarrow> jitter_estimator" where
  "je_reanchor je timestamp arrival_us = je_anchor je timestamp arrival_us"

definition je_observe :: "jitter_estimator \<Rightarrow> u32 \<Rightarrow> micros \<Rightarrow> jitter_estimator option" where
  "je_observe je timestamp arrival_us =
     (let arrival = us_to_samples arrival_us in
      if \<not> je_anchored je then Some (je_anchor je timestamp arrival_us)
      else do {
        let arrival_delta = as_i64 (arrival - je_prev_arrival je);
        let timestamp_delta = distance (je_prev_timestamp je) timestamp;
        delta \<leftarrow> i64_sub arrival_delta timestamp_delta;
        abs_delta \<leftarrow> (if delta < 0 then i64_of (- delta) else Some delta);
        Some (je\<lparr>je_last_delta := delta,
                 je_peak := (if abs_delta > je_peak je then abs_delta else je_peak je),
                 je_jitter := d_add (je_jitter je) (d_div (d_sub (d_of_int abs_delta) (je_jitter je)) (d_of_int (2 ^ kGainShift))),
                 je_prev_timestamp := timestamp, je_prev_arrival := arrival, je_samples := je_samples je + 1\<rparr>)
      })"

definition je_reset :: "jitter_estimator \<Rightarrow> jitter_estimator" where
  "je_reset je = je_init"

definition je_has_estimate :: "jitter_estimator \<Rightarrow> bool" where
  "je_has_estimate je \<longleftrightarrow> je_samples je > 0"

definition je_jitter_us :: "jitter_estimator \<Rightarrow> double" where
  "je_jitter_us je = d_div (d_mul (je_jitter je) 1000) 48"

definition je_jitter_ms :: "jitter_estimator \<Rightarrow> double" where
  "je_jitter_ms je = d_div (je_jitter_us je) 1000"


section \<open>Runs\<close>

datatype je_event = JeObserve u32 micros | JeReanchor u32 micros | JeReset

fun je_step :: "jitter_estimator \<Rightarrow> je_event \<Rightarrow> jitter_estimator option" where
  "je_step je (JeObserve ts t) = je_observe je ts t"
| "je_step je (JeReanchor ts t) = Some (je_reanchor je ts t)"
| "je_step je JeReset = Some (je_reset je)"

fun je_run :: "jitter_estimator \<Rightarrow> je_event list \<Rightarrow> jitter_estimator option" where
  "je_run je [] = Some je"
| "je_run je (e # es) = Option.bind (je_step je e) (\<lambda>je. je_run je es)"

text \<open>Every arrival is a scaled time and every average is a double between zero and the peak.\<close>

definition je_inv :: "jitter_estimator \<Rightarrow> bool" where
  "je_inv je \<longleftrightarrow> uint (je_prev_arrival je) < 2 ^ 55 \<and> 0 \<le> je_peak je \<and> \<bar>je_last_delta je\<bar> \<le> je_peak je \<and>
     rnd (je_jitter je) = je_jitter je \<and> 0 \<le> je_jitter je \<and> je_jitter je \<le> d_of_int (je_peak je)"

lemma arrival_small: "uint (us_to_samples t) < 2 ^ 55"
proof -
  have "uint (us_to_samples t) = uint (t * 48) div 1000" by (simp add: us_to_samples_def uint_div_distrib)
  also have "\<dots> < 2 ^ 55" using uint_bounded [of "t * 48"] by simp
  finally show ?thesis .
qed

lemma as_i64_diff: "uint x < 2 ^ 55 \<Longrightarrow> uint y < 2 ^ 55 \<Longrightarrow> as_i64 (x - y) = uint x - uint y"
proof -
  assume "uint x < 2 ^ 55" "uint y < 2 ^ 55"
  then have "in_i64 (uint x - uint y)"
    by (simp add: in_i64_def) (insert uint_ge_0 [of x] uint_ge_0 [of y], linarith)
  then have "as_i64 (of_int (uint x - uint y)) = uint x - uint y" by (rule as_i64_of_int)
  then show ?thesis by simp
qed

definition je_update :: "jitter_estimator \<Rightarrow> int \<Rightarrow> u32 \<Rightarrow> u64 \<Rightarrow> jitter_estimator" where
  "je_update je delta timestamp arrival =
     je\<lparr>je_last_delta := delta, je_peak := max (je_peak je) \<bar>delta\<bar>,
       je_jitter := d_add (je_jitter je) (d_div (d_sub (d_of_int \<bar>delta\<bar>) (je_jitter je)) 16),
       je_prev_timestamp := timestamp, je_prev_arrival := arrival, je_samples := je_samples je + 1\<rparr>"

lemma je_observe_eq:
  assumes "uint (je_prev_arrival je) < 2 ^ 55" "je_anchored je"
  shows "je_observe je ts t =
    Some (je_update je (uint (us_to_samples t) - uint (je_prev_arrival je) - distance (je_prev_timestamp je) ts) ts (us_to_samples t))"
proof -
  let ?d = "uint (us_to_samples t) - uint (je_prev_arrival je) - distance (je_prev_timestamp je) ts"
  note r = distance_range [of "je_prev_timestamp je" ts] arrival_small [of t] assms(1)
  have "in_i64 ?d" "in_i64 (- ?d)"
    using r by (simp_all add: in_i64_def; insert uint_ge_0 [of "us_to_samples t"] uint_ge_0 [of "je_prev_arrival je"], linarith)+
  moreover have "d_of_int 16 = 16" by (simp add: d_of_int_exact)
  ultimately show ?thesis using assms
    by (simp add: je_observe_def as_i64_diff [OF arrival_small assms(1)] i64_defs je_update_def
        kGainShift_def Let_def max_def)
qed

lemma je_inv_update:
  assumes "je_inv je" "uint a < 2 ^ 55"
  shows "je_inv (je_update je delta ts a)"
proof -
  let ?M = "max (je_peak je) \<bar>delta\<bar>"
  have "d_of_int (je_peak je) \<le> d_of_int ?M" "d_of_int \<bar>delta\<bar> \<le> d_of_int ?M"
    using assms(1) by (intro d_of_int_mono; simp add: je_inv_def)+
  moreover have "rnd (d_of_int k) = d_of_int k" for k by (simp add: d_of_int_def)
  ultimately have "0 \<le> d_add (je_jitter je) (d_div (d_sub (d_of_int \<bar>delta\<bar>) (je_jitter je)) 16) \<and>
      d_add (je_jitter je) (d_div (d_sub (d_of_int \<bar>delta\<bar>) (je_jitter je)) 16) \<le> d_of_int ?M"
    using assms(1) d_of_int_nonneg [of "\<bar>delta\<bar>"] by (intro conjI average_between) (simp_all add: je_inv_def)
  moreover have "rnd (d_add x y) = d_add x y" for x y by (simp add: d_add_def)
  ultimately show ?thesis using assms unfolding je_inv_def by (simp add: je_update_def)
qed

lemma je_inv_step: "je_inv je \<Longrightarrow> \<exists>je'. je_step je e = Some je' \<and> je_inv je'"
proof (cases e)
  case (JeObserve ts t)
  assume inv: "je_inv je"
  show ?thesis
  proof (cases "je_anchored je")
    case True
    then show ?thesis using inv JeObserve je_observe_eq je_inv_update [OF inv arrival_small]
      by (simp add: je_inv_def [of je])
  next
    case False
    then show ?thesis using inv JeObserve arrival_small [of t] by (simp add: je_observe_def je_anchor_def je_inv_def)
  qed
next
  case (JeReanchor ts t)
  assume "je_inv je"
  then show ?thesis using JeReanchor arrival_small [of t] by (simp add: je_reanchor_def je_anchor_def je_inv_def)
next
  case JeReset
  then show ?thesis by (simp add: je_reset_def je_init_def je_inv_def d_of_int_def)
qed

lemma je_run_total: "je_inv je \<Longrightarrow> \<exists>je'. je_run je es = Some je' \<and> je_inv je'"
proof (induction es arbitrary: je)
  case (Cons e es)
  then obtain je1 where "je_step je e = Some je1" "je_inv je1" using je_inv_step by blast
  then show ?case using Cons.IH by simp
qed simp

text \<open>
  No sequence of timestamps and arrival times, from any peer and any clock, overflows the signed
  arithmetic, and the average in doubles, with all its roundings, stays between zero and the largest
  deviation ever seen, which also bounds the last deviation.
\<close>

lemma je_jitter_bounded:
  "\<exists>je. je_run je_init es = Some je \<and> 0 \<le> je_jitter je \<and> je_jitter je \<le> d_of_int (je_peak je) \<and>
     \<bar>je_last_delta je\<bar> \<le> je_peak je"
proof -
  have "je_inv je_init" by (simp add: je_inv_def je_init_def d_of_int_def)
  then show ?thesis using je_run_total [of je_init es] by (auto simp: je_inv_def)
qed

text \<open>A stream that advances by \<open>n\<close> samples of timestamp for every \<open>n\<close> samples of arrival time.\<close>

fun je_paced :: "u32 \<Rightarrow> micros \<Rightarrow> (nat \<times> micros) list \<Rightarrow> bool" where
  "je_paced ts t [] = True"
| "je_paced ts t ((n, t') # ps) \<longleftrightarrow>
     n < 2 ^ 31 \<and> uint (us_to_samples t') = uint (us_to_samples t) + int n \<and> je_paced (ts + of_nat n) t' ps"

fun je_events :: "u32 \<Rightarrow> (nat \<times> micros) list \<Rightarrow> je_event list" where
  "je_events ts [] = []"
| "je_events ts ((n, t') # ps) = JeObserve (ts + of_nat n) t' # je_events (ts + of_nat n) ps"

text \<open>
  A sender that paces exactly is measured as zero jitter, for any first timestamp: the 32-bit
  timestamps may wrap anywhere in the stream.
\<close>

lemma je_paced_zero:
  assumes "je_paced ts t ps"
  shows "\<exists>je. je_run je_init (JeObserve ts t # je_events ts ps) = Some je \<and>
    je_jitter je = 0 \<and> je_peak je = 0 \<and> je_last_delta je = 0 \<and> je_samples je = of_nat (length ps)"
proof -
  have "\<exists>je'. je_run je (je_events ts ps) = Some je' \<and> je_jitter je' = 0 \<and> je_peak je' = 0 \<and> je_last_delta je' = 0 \<and>
      je_samples je' = je_samples je + of_nat (length ps)"
    if "je_paced ts t ps" "je_anchored je" "je_prev_timestamp je = ts" "je_prev_arrival je = us_to_samples t"
      "je_jitter je = 0" "je_peak je = 0" "je_last_delta je = 0" for je ts t
    using that
  proof (induction ps arbitrary: je ts t)
    case (Cons p ps)
    obtain n t' where p: "p = (n, t')" by (cases p)
    have n: "n < 2 ^ 31" "uint (us_to_samples t') = uint (us_to_samples t) + int n" "je_paced (ts + of_nat n) t' ps"
      using Cons.prems(1) by (simp_all add: p)
    have "distance ts (ts + of_nat n) = int n"
      using distance_add [of ts ts "int n"] n(1) by simp
    then have "je_observe je (ts + of_nat n) t' = Some (je_update je 0 (ts + of_nat n) (us_to_samples t'))"
      using je_observe_eq [of je "ts + of_nat n" t'] Cons.prems arrival_small [of t] n(2) by simp
    moreover have "d_of_int 0 = 0" by (simp add: d_of_int_def)
    ultimately show ?case
      using Cons.IH [OF n(3), of "je_update je 0 (ts + of_nat n) (us_to_samples t')"] Cons.prems
      by (simp add: p je_update_def d_add_def d_sub_def d_div_def add.assoc)
  qed simp
  from this [OF assms, of "je_anchor je_init ts t"] show ?thesis
    by (simp add: je_observe_def je_anchor_def je_init_def)
qed

lemma je_paced_zero_witness:
  "\<exists>je. je_run je_init [JeObserve (-480) 1000, JeObserve 480 21000, JeObserve 1440 41000] = Some je \<and> je_jitter je = 0"
  using je_paced_zero [of "-480" 1000 "[(960, 21000), (960, 41000)]"]
  by (simp add: us_to_samples_def) blast

end
