(* ===== verification/Spsc_Ring.thy ===== *)
theory Spsc_Ring
  imports Prelude
begin

text \<open>
  The single-producer single-consumer ring (core/include/radio/spsc_ring.hpp). The first part models
  the operations as the sequential code they are on one thread and proves that they implement a
  bounded FIFO of the items accepted, across the wrap of the storage and of the 64-bit indices. The
  second part interleaves a producer and a consumer at the granularity of their loads, stores and
  single slot accesses (sequentially consistent: the acquire and release orders of the source are
  what make this the observable behaviour) and proves that what the consumer gets is always a prefix
  of what the producer published, that the two never touch the same slot, and that neither waits.
\<close>

section \<open>State and operations\<close>

text \<open>\<open>Capacity\<close> is the length of the storage.\<close>

record 'a ring =
  sr_write :: u64
  sr_read :: u64
  sr_overflows :: u64
  sr_slots :: "'a list"

definition sr_capacity :: "'a ring \<Rightarrow> nat" where
  "sr_capacity r = length (sr_slots r)"

text \<open>The two static assertions on the capacity.\<close>

definition sr_capacity_ok :: "'a ring \<Rightarrow> bool" where
  "sr_capacity_ok r \<longleftrightarrow> (\<exists>e \<in> {1..<64}. sr_capacity r = 2 ^ e)"

definition kMask :: "'a ring \<Rightarrow> u64" where
  "kMask r = of_nat (sr_capacity r) - 1"

definition slot_of :: "'a ring \<Rightarrow> u64 \<Rightarrow> nat" where
  "slot_of r index = unat (index AND kMask r)"

definition sr_init :: "nat \<Rightarrow> 'a \<Rightarrow> 'a ring" where
  "sr_init cap x = \<lparr>sr_write = 0, sr_read = 0, sr_overflows = 0, sr_slots = replicate cap x\<rparr>"

definition sr_push :: "'a ring \<Rightarrow> 'a \<Rightarrow> (bool \<times> 'a ring) option" where
  "sr_push r x =
     (let write = sr_write r; read = sr_read r in
      if write - read = of_nat (sr_capacity r) then Some (False, r\<lparr>sr_overflows := sr_overflows r + 1\<rparr>)
      else do {
        slots \<leftarrow> wr (sr_slots r) (slot_of r write) x;
        Some (True, r\<lparr>sr_slots := slots, sr_write := write + 1\<rparr>)
      })"

definition sr_push_bulk :: "'a ring \<Rightarrow> 'a list \<Rightarrow> (nat \<times> 'a ring) option" where
  "sr_push_bulk r source =
     (if source = [] then Some (0, r)
      else
        let write = sr_write r; read = sr_read r; cap = sr_capacity r;
            free_slots = unat (of_nat cap - (write - read)) in
        if free_slots = 0 then Some (0, r\<lparr>sr_overflows := sr_overflows r + 1\<rparr>)
        else
          let accepted = min (length source) free_slots;
              offset = slot_of r write;
              first = min accepted (cap - offset) in
          do {
            slots \<leftarrow> memcpy_at (sr_slots r) offset (take first source);
            slots \<leftarrow> (if accepted > first then memcpy_at slots 0 (take (accepted - first) (drop first source))
                      else Some slots);
            Some (accepted,
              r\<lparr>sr_slots := slots,
                sr_overflows := (if accepted < length source then sr_overflows r + 1 else sr_overflows r),
                sr_write := write + of_nat accepted\<rparr>)
          })"

definition sr_pop :: "'a ring \<Rightarrow> ('a option \<times> 'a ring) option" where
  "sr_pop r =
     (let read = sr_read r; write = sr_write r in
      if read = write then Some (None, r)
      else do {
        x \<leftarrow> rd (sr_slots r) (slot_of r read);
        Some (Some x, r\<lparr>sr_read := read + 1\<rparr>)
      })"

text \<open>\<open>std::copy_n\<close> out of the storage.\<close>

definition copy_out :: "'a list \<Rightarrow> nat \<Rightarrow> nat \<Rightarrow> 'a list option" where
  "copy_out buf off n = (if off + n \<le> length buf then Some (take n (drop off buf)) else None)"

text \<open>What \<open>pop_bulk\<close> writes to its destination.\<close>

definition sr_pop_bulk :: "'a ring \<Rightarrow> nat \<Rightarrow> ('a list \<times> 'a ring) option" where
  "sr_pop_bulk r n =
     (if n = 0 then Some ([], r)
      else
        let read = sr_read r; write = sr_write r; available = unat (write - read) in
        if available = 0 then Some ([], r)
        else
          let taken = min n available;
              offset = slot_of r read;
              first = min taken (sr_capacity r - offset) in
          do {
            out \<leftarrow> copy_out (sr_slots r) offset first;
            rest \<leftarrow> (if taken > first then copy_out (sr_slots r) 0 (taken - first) else Some []);
            Some (out @ rest, r\<lparr>sr_read := read + of_nat taken\<rparr>)
          })"

definition sr_discard :: "'a ring \<Rightarrow> nat \<Rightarrow> nat \<times> 'a ring" where
  "sr_discard r n =
     (let read = sr_read r; write = sr_write r; dropped = min n (unat (write - read)) in
      (dropped, if dropped \<noteq> 0 then r\<lparr>sr_read := read + of_nat dropped\<rparr> else r))"

definition sr_size :: "'a ring \<Rightarrow> nat" where
  "sr_size r = unat (sr_write r - sr_read r)"

definition sr_empty :: "'a ring \<Rightarrow> bool" where "sr_empty r \<longleftrightarrow> sr_size r = 0"
definition sr_full :: "'a ring \<Rightarrow> bool" where "sr_full r \<longleftrightarrow> sr_size r = sr_capacity r"

definition sr_reset :: "'a ring \<Rightarrow> 'a ring" where
  "sr_reset r = r\<lparr>sr_write := 0, sr_read := 0, sr_overflows := 0\<rparr>"

section \<open>Indices\<close>

lemma slot_of_nat:
  assumes "sr_capacity_ok r"
  shows "slot_of r (of_nat k) = k mod sr_capacity r" "0 < sr_capacity r" "sr_capacity r < 2 ^ 64"
proof -
  obtain e where e: "1 \<le> e" "e < 64" "sr_capacity r = 2 ^ e" using assms by (auto simp: sr_capacity_ok_def)
  have "kMask r = mask e" by (simp add: kMask_def e(3) mask_eq_exp_minus_1)
  then have "slot_of r (of_nat k) = unat (take_bit e (of_nat k :: u64))" by (simp add: slot_of_def take_bit_eq_mask)
  also have "\<dots> = take_bit e (unat (of_nat k :: u64))" by (rule unsigned_take_bit_eq)
  also have "\<dots> = k mod 2 ^ 64 mod 2 ^ e" by (simp add: take_bit_eq_mod unat_of_nat)
  also have "\<dots> = k mod 2 ^ e" using e by (intro mod_mod_cancel le_imp_power_dvd) simp
  finally show "slot_of r (of_nat k) = k mod sr_capacity r" by (simp add: e)
  have "(2::nat) ^ e < 2 ^ 64" by (rule power_strict_increasing) (use e in simp_all)
  then show "0 < sr_capacity r" "sr_capacity r < 2 ^ 64" by (simp_all add: e)
qed

lemma mod_neq: "a < b \<Longrightarrow> b < a + c \<Longrightarrow> a mod c \<noteq> b mod (c :: nat)"
proof
  assume le: "a < b" "b < a + c" and eq: "a mod c = b mod c"
  then have "c dvd b - a" by (metis mod_eq_dvd_iff_nat less_imp_le)
  then show False using le by (auto dest: dvd_imp_le)
qed

lemma mod_add_cases: "j < c \<Longrightarrow> (w + j) mod c = (if w mod c + j < c then w mod c + j else w mod c + j - c)" for c :: nat
proof -
  assume "j < c"
  then have "w mod c < c" by simp
  have "(w + j) mod c = (w mod c + j) mod c" by (simp add: mod_add_left_eq)
  moreover have "(w mod c + j - c) mod c = w mod c + j - c" using \<open>j < c\<close> \<open>w mod c < c\<close> by (intro mod_less) linarith
  ultimately show ?thesis by (simp add: mod_if [of "w mod c + j"])
qed

text \<open>The two copies of a bulk push write item \<open>j\<close> to slot \<open>w + j\<close>, modulo the capacity, and nothing else.\<close>

lemma wrapped_copy:
  fixes buf xs :: "'a list" and w :: nat
  defines "cap \<equiv> length buf" and "first \<equiv> min (length xs) (length buf - w mod length buf)"
  assumes xs: "length xs \<le> cap" "0 < cap"
  shows "\<exists>buf1 buf2. memcpy_at buf (w mod cap) (take first xs) = Some buf1 \<and>
    (if length xs > first then memcpy_at buf1 0 (drop first xs) else Some buf1) = Some buf2 \<and>
    length buf2 = cap \<and> (\<forall>j<length xs. buf2 ! ((w + j) mod cap) = xs ! j) \<and>
    (\<forall>i<cap. (\<forall>j<length xs. (w + j) mod cap \<noteq> i) \<longrightarrow> buf2 ! i = buf ! i)"
proof -
  define off where "off = w mod cap"
  have off: "off < cap" using xs by (simp add: off_def)
  have first: "first \<le> length xs" "off + first \<le> cap" "length xs > first \<Longrightarrow> first = cap - off"
    using off by (auto simp: first_def off_def cap_def)
  define buf1 where "buf1 = take off buf @ take first xs @ drop (off + first) buf"
  define buf2 where "buf2 = drop first xs @ drop (length xs - first) buf1"
  have l1: "length buf1 = cap" using first off by (simp add: buf1_def cap_def)
  have l2: "length buf2 = cap" using first l1 xs by (simp add: buf2_def)
  have n1: "buf1 ! i = (if i < off then buf ! i else if i < off + first then xs ! (i - off) else buf ! i)" if "i < cap" for i
    using that first off by (auto simp: buf1_def nth_append cap_def)
  have n2: "buf2 ! i = (if i < length xs - first then xs ! (first + i) else buf1 ! i)" if "i < cap" for i
    using that first l1 by (auto simp: buf2_def nth_append)
  have c1: "memcpy_at buf off (take first xs) = Some buf1"
    using first by (simp add: memcpy_at_def buf1_def cap_def [symmetric])
  have c2: "(if length xs > first then memcpy_at buf1 0 (drop first xs) else Some buf1) = Some buf2"
    using first l1 xs by (auto simp: memcpy_at_def buf2_def)
  have at: "(w + j) mod cap = (if off + j < cap then off + j else off + j - cap)" if "j < cap" for j
    using mod_add_cases [OF that] by (simp add: off_def)
  have put: "buf2 ! ((w + j) mod cap) = xs ! j" if "j < length xs" for j
  proof (cases "off + j < cap")
    case True
    then have "\<not> off + j < length xs - first" "j < first" using that first xs off by (auto simp: first_def off_def cap_def)
    then show ?thesis using True that xs at [of j] n2 [of "off + j"] n1 [of "off + j"] by simp
  next
    case False
    then have "length xs > first" "off + j - cap < length xs - first" "first + (off + j - cap) = j"
      using that first xs off by auto
    then show ?thesis using False that xs at [of j] n2 [of "off + j - cap"] off by simp
  qed
  have keep: "buf2 ! i = buf ! i" if i: "i < cap" and free: "\<forall>j<length xs. (w + j) mod cap \<noteq> i" for i
  proof -
    have "\<not> i < length xs - first"
    proof
      assume a: "i < length xs - first"
      then have "first = cap - off" using first by simp
      then have "i < off" using a xs off by linarith
      then have "(w + (first + i)) mod cap = i" using at [of "first + i"] a xs i off \<open>first = cap - off\<close> by simp
      then show False using free a by simp
    qed
    moreover have "\<not> (off \<le> i \<and> i < off + first)"
    proof
      assume a: "off \<le> i \<and> i < off + first"
      then have "(w + (i - off)) mod cap = i" using at [of "i - off"] i by simp
      then show False using free a first(1) by (metis add_diff_inverse_nat le_trans nat_add_left_cancel_less not_less)
    qed
    ultimately show ?thesis using n1 [OF i] n2 [OF i] by auto
  qed
  show ?thesis using c1 c2 l2 put keep unfolding off_def by blast
qed


section \<open>Interface: a bounded FIFO with bulk transfer\<close>

datatype 'a fifo_op = FPut "'a list" | FGet nat

datatype 'a fifo_out = FAccepted nat | FGot "'a list"

text \<open>The abstract queue of capacity \<open>cap\<close>: what it answers and what it then holds.\<close>

fun fifo_spec :: "nat \<Rightarrow> 'a list \<Rightarrow> 'a fifo_op list \<Rightarrow> 'a fifo_out list \<times> 'a list" where
  "fifo_spec cap q [] = ([], q)"
| "fifo_spec cap q (FPut xs # ops) =
     (let n = min (length xs) (cap - length q); (outs, q') = fifo_spec cap (q @ take n xs) ops in (FAccepted n # outs, q'))"
| "fifo_spec cap q (FGet n # ops) =
     (let (outs, q') = fifo_spec cap (drop n q) ops in (FGot (take n q) # outs, q'))"

fun fifo_drive :: "('s \<Rightarrow> 'a list \<Rightarrow> (nat \<times> 's) option) \<Rightarrow> ('s \<Rightarrow> nat \<Rightarrow> ('a list \<times> 's) option) \<Rightarrow> 's \<Rightarrow>
    'a fifo_op list \<Rightarrow> ('a fifo_out list \<times> 's) option" where
  "fifo_drive put get s [] = Some ([], s)"
| "fifo_drive put get s (FPut xs # ops) =
     do { (n, s) \<leftarrow> put s xs; (outs, s) \<leftarrow> fifo_drive put get s ops; Some (FAccepted n # outs, s) }"
| "fifo_drive put get s (FGet n # ops) =
     do { (xs, s) \<leftarrow> get s n; (outs, s) \<leftarrow> fifo_drive put get s ops; Some (FGot xs # outs, s) }"

locale bounded_fifo =
  fixes put :: "'s \<Rightarrow> 'a list \<Rightarrow> (nat \<times> 's) option"
    and get :: "'s \<Rightarrow> nat \<Rightarrow> ('a list \<times> 's) option"
    and holds :: "'s \<Rightarrow> 'a list \<Rightarrow> bool"
    and cap :: nat
  assumes put_law: "holds s q \<Longrightarrow> \<exists>s'. put s xs = Some (min (length xs) (cap - length q), s') \<and>
      holds s' (q @ take (cap - length q) xs)"
    and get_law: "holds s q \<Longrightarrow> \<exists>s'. get s n = Some (take n q, s') \<and> holds s' (drop n q)"
    and bounded: "holds s q \<Longrightarrow> length q \<le> cap"
begin

lemma drive_refines:
  "holds s q \<Longrightarrow> \<exists>s'. fifo_drive put get s ops = Some (fst (fifo_spec cap q ops), s') \<and> holds s' (snd (fifo_spec cap q ops))"
proof (induction ops arbitrary: s q)
  case (Cons op ops)
  show ?case
  proof (cases op)
    case (FPut xs)
    obtain s1 where s1: "put s xs = Some (min (length xs) (cap - length q), s1)" "holds s1 (q @ take (cap - length q) xs)"
      using put_law [OF Cons.prems] by blast
    have "take (min (length xs) (cap - length q)) xs = take (cap - length q) xs" by (simp add: min_def)
    then show ?thesis using Cons.IH [OF s1(2)] s1(1) by (auto simp: FPut Let_def split: prod.splits)
  next
    case (FGet n)
    obtain s1 where s1: "get s n = Some (take n q, s1)" "holds s1 (drop n q)" using get_law [OF Cons.prems] by blast
    then show ?thesis using Cons.IH [OF s1(2)] by (auto simp: FGet split: prod.splits)
  qed
qed simp

lemma queue_bounded: "holds s q \<Longrightarrow> length (snd (fifo_spec cap q ops)) \<le> cap"
  using drive_refines bounded by blast

end

section \<open>The ring holds a window of the items accepted\<close>

definition ring_repr :: "'a ring \<Rightarrow> 'a list \<Rightarrow> nat \<Rightarrow> bool" where
  "ring_repr r sent k \<longleftrightarrow>
     sr_capacity_ok r \<and> sr_write r = of_nat (length sent) \<and> sr_read r = of_nat k \<and> k \<le> length sent \<and>
     length sent - k \<le> sr_capacity r \<and>
     (\<forall>i. k \<le> i \<and> i < length sent \<longrightarrow> sr_slots r ! (i mod sr_capacity r) = sent ! i)"

lemma diff_of_nat: "k \<le> n \<Longrightarrow> n - k < 2 ^ 64 \<Longrightarrow> unat (of_nat n - of_nat k :: u64) = n - k"
  by (simp add: unat_of_nat_small flip: of_nat_diff)

lemma repr_size:
  assumes "ring_repr r sent k"
  shows "unat (sr_write r - sr_read r) = length sent - k"
proof -
  have c: "sr_capacity_ok r" and "length sent - k \<le> sr_capacity r" "k \<le> length sent"
    and w: "sr_write r = of_nat (length sent)" "sr_read r = of_nat k"
    using assms unfolding ring_repr_def by blast+
  moreover have "length sent - k < 2 ^ 64" using slot_of_nat(3) [OF c] calculation(2) by simp
  ultimately show ?thesis unfolding w by (intro diff_of_nat)
qed

lemma free_of_nat:
  assumes "sr_capacity_ok r" "n \<le> sr_capacity r"
  shows "unat (of_nat (sr_capacity r) - (of_nat n :: u64)) = sr_capacity r - n"
  using diff_of_nat [OF assms(2)] slot_of_nat(3) [OF assms(1)] by simp

lemma repr_free:
  assumes "ring_repr r sent k"
  shows "unat (of_nat (sr_capacity r) - (sr_write r - sr_read r)) = sr_capacity r - (length sent - k)"
proof -
  have c: "sr_capacity_ok r" "length sent - k \<le> sr_capacity r" using assms unfolding ring_repr_def by blast+
  have "sr_write r - sr_read r = of_nat (length sent - k)" using arg_cong [OF repr_size [OF assms], of "of_nat :: nat \<Rightarrow> u64"] by simp
  then show ?thesis using free_of_nat [OF c] by simp
qed

text \<open>The slots a producer may write are not those of items still to be read.\<close>

lemma fresh_slots: "k \<le> i \<Longrightarrow> i < n \<Longrightarrow> n + j - k < c \<Longrightarrow> (n + j) mod c \<noteq> i mod (c :: nat)"
proof -
  assume le: "k \<le> i" "i < n" "n + j - k < c"
  then have "i < n + j" "n + j < i + c" by linarith+
  from mod_neq [OF this] show ?thesis by simp
qed

lemma push_bulk_repr:
  assumes "ring_repr r sent k"
  shows "\<exists>r'. sr_push_bulk r xs = Some (min (length xs) (sr_capacity r - (length sent - k)), r') \<and>
    ring_repr r' (sent @ take (sr_capacity r - (length sent - k)) xs) k \<and> sr_capacity r' = sr_capacity r \<and>
    sr_overflows r' = sr_overflows r + (if sr_capacity r - (length sent - k) < length xs then 1 else 0)"
proof -
  have c: "sr_capacity_ok r" and le: "length sent - k \<le> sr_capacity r" "k \<le> length sent"
    and w: "sr_write r = of_nat (length sent)"
    and old: "\<forall>i. k \<le> i \<and> i < length sent \<longrightarrow> sr_slots r ! (i mod sr_capacity r) = sent ! i"
    using assms unfolding ring_repr_def by blast+
  let ?free = "sr_capacity r - (length sent - k)" and ?cap = "sr_capacity r"
  show ?thesis
  proof (cases "xs = [] \<or> ?free = 0")
    case True
    then show ?thesis using assms repr_free [OF assms]
      by (auto simp: sr_push_bulk_def Let_def ring_repr_def sr_capacity_ok_def sr_capacity_def)
  next
    case False
    define n where "n = min (length xs) ?free"
    define ys where "ys = take n xs"
    have ys: "length ys = n" by (simp add: ys_def n_def)
    have cap: "?cap = length (sr_slots r)" by (simp add: sr_capacity_def)
    define first where "first = min n (?cap - length sent mod ?cap)"
    obtain b1 b2 where b: "memcpy_at (sr_slots r) (length sent mod ?cap) (take first ys) = Some b1"
        "(if n > first then memcpy_at b1 0 (drop first ys) else Some b1) = Some b2"
        "length b2 = ?cap" "\<forall>j<n. b2 ! ((length sent + j) mod ?cap) = ys ! j"
        "\<forall>i<?cap. (\<forall>j<n. (length sent + j) mod ?cap \<noteq> i) \<longrightarrow> b2 ! i = sr_slots r ! i"
    proof -
      have "n \<le> ?cap" by (simp add: n_def)
      from wrapped_copy [of ys "sr_slots r" "length sent", folded cap, unfolded ys, folded first_def,
          OF this slot_of_nat(2) [OF c]]
      show thesis using that by blast
    qed
    have t: "take first xs = take first ys" "take (n - first) (drop first xs) = drop first ys"
      by (simp_all add: ys_def drop_take min_absorb1 first_def)
    define r' where "r' = r\<lparr>sr_slots := b2,
        sr_overflows := (if n < length xs then sr_overflows r + 1 else sr_overflows r),
        sr_write := sr_write r + of_nat n\<rparr>"
    have sl: "slot_of r (sr_write r) = length sent mod ?cap" unfolding w by (rule slot_of_nat(1) [OF c])
    have push: "sr_push_bulk r xs = Some (n, r')"
      using False b(1,2) unfolding sr_push_bulk_def Let_def repr_free [OF assms] sl
        n_def [symmetric] first_def [symmetric] t r'_def by simp
    have cap': "sr_capacity r' = ?cap" using b(3) by (simp add: r'_def sr_capacity_def)
    have "sr_slots r' ! (i mod ?cap) = (sent @ ys) ! i" if i: "k \<le> i" "i < length sent + n" for i
    proof (cases "i < length sent")
      case True
      have "(length sent + j) mod ?cap \<noteq> i mod ?cap" if "j < n" for j
      proof (rule fresh_slots [OF i(1) True])
        show "length sent + j - k < ?cap" using that le unfolding n_def by linarith
      qed
      then show ?thesis using b(5) old True i slot_of_nat(2) [OF c] by (simp add: r'_def nth_append)
    next
      case False
      then show ?thesis using b(4) [rule_format, of "i - length sent"] i by (simp add: r'_def nth_append)
    qed
    then have "ring_repr r' (sent @ ys) k"
      using assms le by (simp add: ring_repr_def cap' sr_capacity_ok_def ys) (simp add: r'_def n_def)
    moreover have "ys = take ?free xs" by (simp add: ys_def n_def min_def)
    moreover have "n < length xs \<longleftrightarrow> ?free < length xs" by (auto simp: n_def)
    ultimately show ?thesis using push cap' by (intro exI [of _ r']) (simp add: n_def r'_def)
  qed
qed

lemma pop_bulk_repr:
  assumes "ring_repr r sent k"
  shows "\<exists>r'. sr_pop_bulk r n = Some (take n (drop k sent), r') \<and>
    ring_repr r' sent (k + min n (length sent - k)) \<and> sr_capacity r' = sr_capacity r"
proof -
  have c: "sr_capacity_ok r" and le: "length sent - k \<le> sr_capacity r" "k \<le> length sent"
    and w: "sr_read r = of_nat k"
    and old: "\<forall>i. k \<le> i \<and> i < length sent \<longrightarrow> sr_slots r ! (i mod sr_capacity r) = sent ! i"
    using assms unfolding ring_repr_def by blast+
  let ?cap = "sr_capacity r"
  have cap: "0 < ?cap" "length (sr_slots r) = ?cap" using slot_of_nat(2) [OF c] by (simp_all add: sr_capacity_def)
  show ?thesis
  proof (cases "n = 0 \<or> length sent = k")
    case True
    then show ?thesis using assms repr_size [OF assms] by (auto simp: sr_pop_bulk_def Let_def)
  next
    case False
    define m where "m = min n (length sent - k)"
    define off where "off = k mod ?cap"
    define first where "first = min m (?cap - off)"
    have off: "off < ?cap" using cap by (simp add: off_def)
    have m: "m \<le> ?cap" "k + m \<le> length sent" using le by (simp_all add: m_def)
    let ?out = "take first (drop off (sr_slots r)) @ (if m > first then take (m - first) (sr_slots r) else [])"
    have len: "length ?out = m" using m off cap by (auto simp: first_def)
    have "?out = take n (drop k sent)"
    proof (rule nth_equalityI)
      show "length ?out = length (take n (drop k sent))" unfolding len by (simp add: m_def)
      fix i assume "i < length ?out"
      then have i: "i < m" unfolding len .
      have "?out ! i = sr_slots r ! ((k + i) mod ?cap)"
      proof (cases "i < first")
        case True
        then have "off + i < ?cap" using off unfolding first_def by linarith
        then show ?thesis using True i m cap mod_add_cases [of i ?cap k] by (simp add: off_def nth_append first_def)
      next
        case False
        then have "first = ?cap - off" "\<not> off + i < ?cap" using i off by (auto simp: first_def)
        moreover have "i - (?cap - off) = off + i - ?cap" using off by simp
        ultimately show ?thesis using False i m cap off mod_add_cases [of i ?cap k]
          by (simp add: off_def nth_append)
      qed
      also have "\<dots> = sent ! (k + i)" using old i m by simp
      also have "\<dots> = take n (drop k sent) ! i" using i m by (simp add: m_def)
      finally show "?out ! i = take n (drop k sent) ! i" .
    qed
    then have out: "take n (drop k sent) = ?out" by (rule sym)
    define r' where "r' = r\<lparr>sr_read := sr_read r + of_nat m\<rparr>"
    have sl: "slot_of r (sr_read r) = off" unfolding w off_def by (rule slot_of_nat(1) [OF c])
    have "sr_pop_bulk r n = Some (take n (drop k sent), r')"
      using False le m off cap
      unfolding sr_pop_bulk_def Let_def repr_size [OF assms] sl out r'_def
        m_def [symmetric] first_def [symmetric] copy_out_def
      by (auto simp: first_def)
    moreover have "length sent - (k + m) \<le> ?cap" using le by linarith
    then have "ring_repr r' sent (k + m)"
      using assms m by (simp add: ring_repr_def sr_capacity_ok_def sr_capacity_def r'_def)
    moreover have "sr_capacity r' = ?cap" by (simp add: sr_capacity_def r'_def)
    ultimately show ?thesis unfolding m_def by blast
  qed
qed


text \<open>The single item operations are bulk transfers of one item, and \<open>discard\<close> is a pop without the copy.\<close>

lemma push_is_bulk:
  assumes "ring_repr r sent k"
  shows "sr_push r x = map_option (\<lambda>(n, r'). (n = 1, r')) (sr_push_bulk r [x])"
proof -
  have c: "sr_capacity_ok r" and le: "length sent - k \<le> sr_capacity r" "k \<le> length sent"
    and w: "sr_write r = of_nat (length sent)" using assms unfolding ring_repr_def by blast+
  have sl: "slot_of r (sr_write r) < length (sr_slots r)"
    using slot_of_nat [OF c] unfolding w by (simp add: sr_capacity_def)
  have full: "sr_write r - sr_read r = of_nat (sr_capacity r) \<longleftrightarrow> sr_capacity r - (length sent - k) = 0"
  proof
    assume "sr_write r - sr_read r = of_nat (sr_capacity r)"
    then have "unat (of_nat (sr_capacity r) - (sr_write r - sr_read r)) = 0" by simp
    then show "sr_capacity r - (length sent - k) = 0" unfolding repr_free [OF assms] .
  next
    assume "sr_capacity r - (length sent - k) = 0"
    then have "unat (of_nat (sr_capacity r) - (sr_write r - sr_read r)) = 0" unfolding repr_free [OF assms] .
    then show "sr_write r - sr_read r = of_nat (sr_capacity r)" by (simp add: unat_eq_0)
  qed
  show ?thesis
  proof (cases "sr_capacity r - (length sent - k) = 0")
    case True
    then show ?thesis using full by (simp add: sr_push_def sr_push_bulk_def Let_def)
  next
    case False
    then have m1: "min (length [x]) (sr_capacity r - (length sent - k)) = 1" by simp
    have "slot_of r (sr_write r) < sr_capacity r" using sl by (simp add: sr_capacity_def)
    then have m2: "min 1 (sr_capacity r - slot_of r (sr_write r)) = 1" by simp
    show ?thesis
      using False full sl unfolding sr_push_def sr_push_bulk_def Let_def repr_free [OF assms] m1 m2
      by (simp add: memcpy_at_def wr_def upd_conv_take_nth_drop)
  qed
qed

lemma pop_is_bulk:
  assumes "ring_repr r sent k"
  shows "sr_pop r = map_option (\<lambda>(xs, r'). (if xs = [] then None else Some (hd xs), r')) (sr_pop_bulk r 1)"
proof -
  have c: "sr_capacity_ok r" and w: "sr_read r = of_nat k" using assms unfolding ring_repr_def by blast+
  have sl: "slot_of r (sr_read r) < length (sr_slots r)"
    using slot_of_nat [OF c] unfolding w by (simp add: sr_capacity_def)
  have e: "sr_read r = sr_write r \<longleftrightarrow> unat (sr_write r - sr_read r) = 0" by (auto simp: unat_eq_0)
  show ?thesis
  proof (cases "sr_read r = sr_write r")
    case True
    then show ?thesis by (simp add: sr_pop_def sr_pop_bulk_def Let_def)
  next
    case False
    then have m1: "min 1 (unat (sr_write r - sr_read r)) = 1" using e by simp
    have "slot_of r (sr_read r) < sr_capacity r" using sl by (simp add: sr_capacity_def)
    then have m2: "min 1 (sr_capacity r - slot_of r (sr_read r)) = 1" by simp
    have "take 1 (drop (slot_of r (sr_read r)) (sr_slots r)) = [sr_slots r ! slot_of r (sr_read r)]"
      using sl by (simp add: take_Suc hd_drop_conv_nth)
    then show ?thesis using False e sl unfolding sr_pop_def sr_pop_bulk_def Let_def m1 m2
      by (simp add: rd_def copy_out_def)
  qed
qed

lemma discard_is_pop:
  assumes "ring_repr r sent k"
  shows "sr_pop_bulk r n = Some (take n (drop k sent), snd (sr_discard r n)) \<and> fst (sr_discard r n) = min n (length sent - k)"
proof -
  obtain r' where r': "sr_pop_bulk r n = Some (take n (drop k sent), r')" using pop_bulk_repr [OF assms] by blast
  have "r' = snd (sr_discard r n)"
    using r' by (auto simp: sr_pop_bulk_def sr_discard_def Let_def split: if_splits Option.bind_splits)
  then show ?thesis using r' repr_size [OF assms] by (simp add: sr_discard_def Let_def)
qed

section \<open>The ring is a bounded FIFO\<close>

definition ring_queue :: "nat \<Rightarrow> 'a ring \<Rightarrow> 'a list \<Rightarrow> bool" where
  "ring_queue cap r q \<longleftrightarrow> sr_capacity r = cap \<and> (\<exists>sent k. ring_repr r sent k \<and> q = drop k sent)"

interpretation spsc: bounded_fifo sr_push_bulk sr_pop_bulk "ring_queue cap" cap for cap
proof
  fix r :: "'a ring" and q xs n
  assume "ring_queue cap r q"
  then obtain sent k where r: "ring_repr r sent k" "q = drop k sent" "sr_capacity r = cap" by (auto simp: ring_queue_def)
  have k: "k \<le> length sent" "length sent - k \<le> cap" using r by (simp_all add: ring_repr_def)
  obtain r1 where r1: "sr_push_bulk r xs = Some (min (length xs) (cap - length q), r1)"
      "ring_repr r1 (sent @ take (cap - length q) xs) k" "sr_capacity r1 = cap"
    using push_bulk_repr [OF r(1), of xs] r(2,3) by auto
  have "drop k (sent @ take (cap - length q) xs) = q @ take (cap - length q) xs" using k r(2) by simp
  then show "\<exists>s'. sr_push_bulk r xs = Some (min (length xs) (cap - length q), s') \<and>
      ring_queue cap s' (q @ take (cap - length q) xs)"
    using r1 unfolding ring_queue_def by metis
  obtain r2 where r2: "sr_pop_bulk r n = Some (take n (drop k sent), r2)"
      "ring_repr r2 sent (k + min n (length sent - k))" "sr_capacity r2 = cap"
    using pop_bulk_repr [OF r(1), of n] r(3) by auto
  have "drop (k + min n (length sent - k)) sent = drop n q"
    using r(2) k by (cases "n \<le> length sent - k") (simp_all add: add.commute)
  then show "\<exists>s'. sr_pop_bulk r n = Some (take n q, s') \<and> ring_queue cap s' (drop n q)"
    using r2 r(2) unfolding ring_queue_def by metis
  show "length q \<le> cap" using r(2) k by simp
qed

lemma ring_queue_init: "sr_capacity_ok (sr_init cap x) \<Longrightarrow> ring_queue cap (sr_init cap x) []"
  unfolding ring_queue_def
  by (intro conjI exI [of _ "[]"] exI [of _ 0]) (simp_all add: ring_repr_def sr_capacity_def sr_init_def)

text \<open>
  C31. On one thread the ring is a bounded FIFO: for every capacity the assertions allow and every
  sequence of bulk pushes and pops, no copy leaves the storage, each push accepts exactly the prefix
  that fits, each pop returns the oldest items in order, and never more than the capacity is held.
\<close>

lemma ring_refines_fifo:
  assumes "sr_capacity_ok (sr_init cap x)"
  shows "\<exists>r. fifo_drive sr_push_bulk sr_pop_bulk (sr_init cap x) ops = Some (fst (fifo_spec cap [] ops), r) \<and>
    sr_size r = length (snd (fifo_spec cap [] ops)) \<and> sr_size r \<le> sr_capacity r"
proof -
  obtain r where r: "fifo_drive sr_push_bulk sr_pop_bulk (sr_init cap x) ops = Some (fst (fifo_spec cap [] ops), r)"
      "ring_queue cap r (snd (fifo_spec cap [] ops))"
    using spsc.drive_refines [OF ring_queue_init [OF assms]] by blast
  then obtain sent k where "ring_repr r sent k" "snd (fifo_spec cap [] ops) = drop k sent" "sr_capacity r = cap"
    by (auto simp: ring_queue_def)
  then show ?thesis using r repr_size spsc.bounded [OF r(2)] by (auto simp: sr_size_def)
qed

lemma ring_refines_fifo_witness:
  "\<exists>r. fifo_drive sr_push_bulk sr_pop_bulk (sr_init 4 0) [FPut [1, 2, 3], FGet 2, FPut [4, 5, 6, 7], FGet 9] =
     Some ([FAccepted 3, FGot [1, 2], FAccepted 3, FGot [3, 4, 5, 6 :: nat]], r) \<and> sr_size r = 0"
proof -
  have "sr_capacity_ok (sr_init 4 (0::nat))"
    by (auto simp: sr_capacity_ok_def sr_capacity_def sr_init_def intro: bexI [of _ 2])
  from ring_refines_fifo [OF this, of "[FPut [1, 2, 3], FGet 2, FPut [4, 5, 6, 7], FGet 9]"]
  show ?thesis by (simp add: numeral_3_eq_3 del: fifo_drive.simps) blast
qed

text \<open>
  The other operations agree with the bulk ones on every state the ring can be in: \<open>push\<close> is a
  bulk push of one item, \<open>pop\<close> a bulk pop of one, and \<open>discard\<close> leaves the ring as a bulk pop of as
  many items would.
\<close>

lemma ring_single_ops:
  assumes "ring_queue cap r q"
  shows "sr_push r x = map_option (\<lambda>(n, r'). (n = 1, r')) (sr_push_bulk r [x]) \<and>
    sr_pop r = map_option (\<lambda>(xs, r'). (if xs = [] then None else Some (hd xs), r')) (sr_pop_bulk r 1) \<and>
    sr_pop_bulk r n = Some (take n q, snd (sr_discard r n)) \<and> fst (sr_discard r n) = min n (length q)"
proof -
  obtain sent k where "ring_repr r sent k" "q = drop k sent" using assms by (auto simp: ring_queue_def)
  then show ?thesis using push_is_bulk pop_is_bulk discard_is_pop by fastforce
qed

lemma ring_single_ops_witness:
  "sr_pop_bulk (sr_init 4 (0::nat)) 3 = Some (take 3 [], snd (sr_discard (sr_init 4 0) 3))"
proof -
  have "sr_capacity_ok (sr_init 4 (0::nat))"
    by (auto simp: sr_capacity_ok_def sr_capacity_def sr_init_def intro: bexI [of _ 2])
  from ring_single_ops [OF ring_queue_init [OF this], of 0 3] show ?thesis by blast
qed


section \<open>Two threads\<close>

text \<open>
  Where a producer inside \<open>push\<close>/\<open>push_bulk\<close> can be: after loading its own index, after loading
  the consumer's, or copying, with the items, the index, how many it will write and has written.
  A consumer inside \<open>pop\<close>/\<open>pop_bulk\<close>/\<open>discard\<close> likewise (\<open>copies\<close> tells the pops from \<open>discard\<close>).
\<close>

datatype 'a producer = PIdle | PLoaded "'a list" u64 | PReady "'a list" u64 u64 | PCopy "'a list" u64 nat nat

datatype 'a consumer = CIdle | CLoaded bool nat u64 | CReady bool nat u64 u64 | CCopy u64 nat "'a list"

text \<open>The shared ring, the two threads, and the histories of items published and consumed.\<close>

record 'a duo =
  du_ring :: "'a ring"
  du_prod :: "'a producer"
  du_cons :: "'a consumer"
  du_sent :: "'a list"
  du_got :: "'a list"

definition du_init :: "nat \<Rightarrow> 'a \<Rightarrow> 'a duo" where
  "du_init cap x = \<lparr>du_ring = sr_init cap x, du_prod = PIdle, du_cons = CIdle, du_sent = [], du_got = []\<rparr>"

inductive prod_step :: "'a duo \<Rightarrow> 'a duo \<Rightarrow> bool" where
  p_call: "du_prod d = PIdle \<Longrightarrow> xs \<noteq> [] \<Longrightarrow> prod_step d (d\<lparr>du_prod := PLoaded xs (sr_write (du_ring d))\<rparr>)"
| p_acquire: "du_prod d = PLoaded xs w \<Longrightarrow> prod_step d (d\<lparr>du_prod := PReady xs w (sr_read (du_ring d))\<rparr>)"
| p_refuse: "du_prod d = PReady xs w r \<Longrightarrow> unat (of_nat (sr_capacity (du_ring d)) - (w - r)) = 0 \<Longrightarrow>
    prod_step d (d\<lparr>du_prod := PIdle, du_ring := (du_ring d)\<lparr>sr_overflows := sr_overflows (du_ring d) + 1\<rparr>\<rparr>)"
| p_accept: "du_prod d = PReady xs w r \<Longrightarrow> unat (of_nat (sr_capacity (du_ring d)) - (w - r)) = free \<Longrightarrow> free \<noteq> 0 \<Longrightarrow>
    prod_step d (d\<lparr>du_prod := PCopy xs w (min (length xs) free) 0\<rparr>)"
| p_copy: "du_prod d = PCopy xs w n j \<Longrightarrow> j < n \<Longrightarrow>
    prod_step d (d\<lparr>du_prod := PCopy xs w n (Suc j), du_ring := (du_ring d)\<lparr>sr_slots :=
      (sr_slots (du_ring d))[slot_of (du_ring d) (w + of_nat j) := xs ! j]\<rparr>\<rparr>)"
| p_publish: "du_prod d = PCopy xs w n n \<Longrightarrow>
    prod_step d (d\<lparr>du_prod := PIdle, du_sent := du_sent d @ take n xs, du_ring := (du_ring d)\<lparr>sr_write := w + of_nat n,
      sr_overflows := sr_overflows (du_ring d) + (if n < length xs then 1 else 0)\<rparr>\<rparr>)"

inductive cons_step :: "'a duo \<Rightarrow> 'a duo \<Rightarrow> bool" where
  c_call: "du_cons d = CIdle \<Longrightarrow> 0 < n \<Longrightarrow> cons_step d (d\<lparr>du_cons := CLoaded copies n (sr_read (du_ring d))\<rparr>)"
| c_acquire: "du_cons d = CLoaded copies n r \<Longrightarrow> cons_step d (d\<lparr>du_cons := CReady copies n r (sr_write (du_ring d))\<rparr>)"
| c_none: "du_cons d = CReady copies n r w \<Longrightarrow> unat (w - r) = 0 \<Longrightarrow> cons_step d (d\<lparr>du_cons := CIdle\<rparr>)"
| c_begin: "du_cons d = CReady True n r w \<Longrightarrow> unat (w - r) = available \<Longrightarrow> available \<noteq> 0 \<Longrightarrow>
    cons_step d (d\<lparr>du_cons := CCopy r (min n available) []\<rparr>)"
| c_copy: "du_cons d = CCopy r n out \<Longrightarrow> length out < n \<Longrightarrow>
    cons_step d (d\<lparr>du_cons := CCopy r n (out @ [sr_slots (du_ring d) ! slot_of (du_ring d) (r + of_nat (length out))])\<rparr>)"
| c_publish: "du_cons d = CCopy r n out \<Longrightarrow> length out = n \<Longrightarrow>
    cons_step d (d\<lparr>du_cons := CIdle, du_got := du_got d @ out, du_ring := (du_ring d)\<lparr>sr_read := r + of_nat n\<rparr>\<rparr>)"
| c_discard: "du_cons d = CReady False n r w \<Longrightarrow> unat (w - r) = available \<Longrightarrow> available \<noteq> 0 \<Longrightarrow>
    cons_step d (d\<lparr>du_cons := CIdle, du_got := du_got d @ take (min n available) (drop (length (du_got d)) (du_sent d)),
      du_ring := (du_ring d)\<lparr>sr_read := r + of_nat (min n available)\<rparr>\<rparr>)"

inductive duo_reach :: "nat \<Rightarrow> 'a \<Rightarrow> 'a duo \<Rightarrow> bool" for cap x where
  reach_init: "duo_reach cap x (du_init cap x)"
| reach_prod: "duo_reach cap x d \<Longrightarrow> prod_step d d' \<Longrightarrow> duo_reach cap x d'"
| reach_cons: "duo_reach cap x d \<Longrightarrow> cons_step d d' \<Longrightarrow> duo_reach cap x d'"

text \<open>What the producer and the consumer know while inside an operation.\<close>

definition prod_inv :: "'a duo \<Rightarrow> bool" where
  "prod_inv d \<longleftrightarrow>
     (let s = length (du_sent d); g = length (du_got d); cap = sr_capacity (du_ring d) in
      case du_prod d of
        PIdle \<Rightarrow> True
      | PLoaded xs w \<Rightarrow> xs \<noteq> [] \<and> w = of_nat s
      | PReady xs w r \<Rightarrow> xs \<noteq> [] \<and> w = of_nat s \<and> (\<exists>g0 \<le> g. r = of_nat g0 \<and> s - g0 \<le> cap)
      | PCopy xs w n j \<Rightarrow> w = of_nat s \<and> 0 < n \<and> n \<le> length xs \<and> s + n \<le> g + cap \<and> j \<le> n \<and>
          (\<forall>i<j. sr_slots (du_ring d) ! ((s + i) mod cap) = xs ! i))"

definition cons_inv :: "'a duo \<Rightarrow> bool" where
  "cons_inv d \<longleftrightarrow>
     (let s = length (du_sent d); g = length (du_got d) in
      case du_cons d of
        CIdle \<Rightarrow> True
      | CLoaded copies n r \<Rightarrow> 0 < n \<and> r = of_nat g
      | CReady copies n r w \<Rightarrow> 0 < n \<and> r = of_nat g \<and> (\<exists>s0 \<le> s. w = of_nat s0 \<and> g \<le> s0)
      | CCopy r n out \<Rightarrow> r = of_nat g \<and> 0 < n \<and> g + n \<le> s \<and> length out \<le> n \<and>
          out = take (length out) (drop g (du_sent d)))"

definition duo_inv :: "nat \<Rightarrow> 'a duo \<Rightarrow> bool" where
  "duo_inv cap d \<longleftrightarrow>
     sr_capacity (du_ring d) = cap \<and> ring_repr (du_ring d) (du_sent d) (length (du_got d)) \<and>
     du_got d = take (length (du_got d)) (du_sent d) \<and> prod_inv d \<and> cons_inv d"


lemma side_frames [simp]:
  "cons_inv (d\<lparr>du_prod := p\<rparr>) = cons_inv d" "cons_inv (d\<lparr>du_ring := r\<rparr>) = cons_inv d"
  "prod_inv (d\<lparr>du_cons := c\<rparr>) = prod_inv d"
  by (simp_all add: cons_inv_def prod_inv_def Let_def split: producer.split consumer.split)

lemma duo_inv_init: "sr_capacity_ok (sr_init cap x) \<Longrightarrow> duo_inv cap (du_init cap x)"
  by (simp add: duo_inv_def du_init_def prod_inv_def cons_inv_def ring_repr_def sr_capacity_def sr_init_def)

lemma repr_overflows: "ring_repr (r\<lparr>sr_overflows := v\<rparr>) sent k = ring_repr r sent k"
  by (simp add: ring_repr_def sr_capacity_ok_def sr_capacity_def)

lemma cap_upd [simp]:
  "sr_capacity (r\<lparr>sr_overflows := v\<rparr>) = sr_capacity r" "sr_capacity (r\<lparr>sr_write := w\<rparr>) = sr_capacity r"
  "sr_capacity (r\<lparr>sr_read := w\<rparr>) = sr_capacity r" "sr_capacity (r\<lparr>sr_slots := (sr_slots r)[i := y]\<rparr>) = sr_capacity r"
  by (simp_all add: sr_capacity_def)

lemma repr_cap_ok: "ring_repr r sent k \<Longrightarrow> sr_capacity_ok r"
  by (simp add: ring_repr_def)

lemma repr_indices: "ring_repr r sent k \<Longrightarrow> sr_write r = of_nat (length sent)" "ring_repr r sent k \<Longrightarrow> sr_read r = of_nat k"
  by (simp_all add: ring_repr_def)

lemma repr_bounds: "ring_repr r sent k \<Longrightarrow> k \<le> length sent" "ring_repr r sent k \<Longrightarrow> length sent \<le> k + sr_capacity r"
  by (auto simp: ring_repr_def le_diff_conv add.commute)

text \<open>The free space computed from an old read index is not more than there is.\<close>

lemma stale_free:
  assumes "ring_repr r sent g" "g0 \<le> g" "length sent - g0 \<le> sr_capacity r"
  shows "unat (of_nat (sr_capacity r) - (sr_write r - (of_nat g0 :: u64))) = sr_capacity r - (length sent - g0)"
proof -
  have le: "g0 \<le> length sent" using assms by (simp add: ring_repr_def)
  have "sr_write r - of_nat g0 = of_nat (length sent - g0)" using assms(1) le by (simp add: ring_repr_def of_nat_diff)
  then show ?thesis using free_of_nat [OF repr_cap_ok [OF assms(1)] assms(3)] by simp
qed

lemma stale_available:
  assumes "ring_repr r sent g" "s0 \<le> length sent" "g \<le> s0"
  shows "unat ((of_nat s0 :: u64) - of_nat g) = s0 - g"
proof -
  have "s0 - g \<le> sr_capacity r" using repr_bounds [OF assms(1)] assms(2) by linarith
  then have "s0 - g < 2 ^ 64" using slot_of_nat(3) [OF repr_cap_ok [OF assms(1)]] by simp
  with assms(3) show ?thesis by (rule diff_of_nat)
qed

lemma repr_put:
  assumes r: "ring_repr r sent g" and j: "length sent + j < g + sr_capacity r"
  shows "ring_repr (r\<lparr>sr_slots := (sr_slots r)[slot_of r (of_nat (length sent) + of_nat j) := y]\<rparr>) sent g"
    "(sr_slots r)[slot_of r (of_nat (length sent) + of_nat j) := y] ! ((length sent + j) mod sr_capacity r) = y"
    "i < j \<Longrightarrow> (sr_slots r)[slot_of r (of_nat (length sent) + of_nat j) := y] ! ((length sent + i) mod sr_capacity r) =
       sr_slots r ! ((length sent + i) mod sr_capacity r)"
proof -
  note c = slot_of_nat [OF repr_cap_ok [OF r]]
  have sl: "slot_of r (of_nat (length sent) + of_nat j) = (length sent + j) mod sr_capacity r"
    using c(1) [of "length sent + j"] by simp
  have "(length sent + j) mod sr_capacity r \<noteq> i mod sr_capacity r" if "g \<le> i" "i < length sent" for i
    using fresh_slots [OF that, of j "sr_capacity r"] j that by simp
  then show "ring_repr (r\<lparr>sr_slots := (sr_slots r)[slot_of r (of_nat (length sent) + of_nat j) := y]\<rparr>) sent g"
    using r unfolding sl by (simp add: ring_repr_def sr_capacity_ok_def)
  have "(length sent + j) mod sr_capacity r < length (sr_slots r)" using c(2) by (simp add: sr_capacity_def)
  then show "(sr_slots r)[slot_of r (of_nat (length sent) + of_nat j) := y] ! ((length sent + j) mod sr_capacity r) = y"
    unfolding sl by simp
  assume "i < j"
  moreover from this have "length sent + j < length sent + i + sr_capacity r" using j repr_bounds [OF r] by linarith
  ultimately have "(length sent + j) mod sr_capacity r \<noteq> (length sent + i) mod sr_capacity r"
    using mod_neq [of "length sent + i" "length sent + j" "sr_capacity r"] by (metis nat_add_left_cancel_less)
  then show "(sr_slots r)[slot_of r (of_nat (length sent) + of_nat j) := y] ! ((length sent + i) mod sr_capacity r) =
       sr_slots r ! ((length sent + i) mod sr_capacity r)"
    unfolding sl by simp
qed

lemma repr_publish:
  assumes r: "ring_repr r sent g" and n: "length sent + n \<le> g + sr_capacity r" "n \<le> length xs"
    and new: "\<forall>i<n. sr_slots r ! ((length sent + i) mod sr_capacity r) = xs ! i"
  shows "ring_repr (r\<lparr>sr_write := of_nat (length sent) + of_nat n, sr_overflows := v\<rparr>) (sent @ take n xs) g"
proof -
  have "sr_slots r ! (i mod sr_capacity r) = (sent @ take n xs) ! i" if "g \<le> i" "i < length sent + n" for i
  proof (cases "i < length sent")
    case True
    then show ?thesis using r that by (simp add: ring_repr_def nth_append)
  next
    case False
    then show ?thesis using new [rule_format, of "i - length sent"] that by (simp add: nth_append)
  qed
  then show ?thesis using r n by (simp add: ring_repr_def sr_capacity_ok_def min_absorb1 min_absorb2)
qed

lemma repr_consume:
  assumes "ring_repr r sent g" "g + n \<le> length sent"
  shows "ring_repr (r\<lparr>sr_read := of_nat g + of_nat n\<rparr>) sent (g + n)"
proof -
  have "length sent - (g + n) \<le> sr_capacity r" using repr_bounds [OF assms(1)] by linarith
  then show ?thesis using assms by (simp add: ring_repr_def sr_capacity_ok_def)
qed

text \<open>The producer only adds items.\<close>

lemma cons_inv_more_sent:
  assumes "cons_inv d" "length (du_got d) \<le> length (du_sent d)"
  shows "cons_inv (d\<lparr>du_sent := du_sent d @ ys\<rparr>)"
proof (cases "du_cons d")
  case (CReady copies n r w)
  then obtain s0 where "s0 \<le> length (du_sent d)" "w = of_nat s0" "length (du_got d) \<le> s0"
    using assms by (auto simp: cons_inv_def Let_def)
  then show ?thesis using assms CReady by (auto simp: cons_inv_def Let_def intro!: exI [of _ s0])
next
  case (CCopy r n out)
  then have "take (length out) (drop (length (du_got d)) (du_sent d @ ys)) = take (length out) (drop (length (du_got d)) (du_sent d))"
    using assms by (auto simp: cons_inv_def Let_def)
  then show ?thesis using assms CCopy by (auto simp: cons_inv_def Let_def)
qed (use assms in \<open>auto simp: cons_inv_def Let_def\<close>)

text \<open>The consumer only gives space back.\<close>

lemma prod_inv_more_got:
  assumes "prod_inv d"
  shows "prod_inv (d\<lparr>du_cons := c, du_got := du_got d @ out, du_ring := (du_ring d)\<lparr>sr_read := r'\<rparr>\<rparr>)"
proof (cases "du_prod d")
  case (PReady xs w r)
  then obtain g0 where "g0 \<le> length (du_got d)" "r = of_nat g0" "length (du_sent d) - g0 \<le> sr_capacity (du_ring d)"
    using assms by (auto simp: prod_inv_def Let_def)
  then show ?thesis using assms PReady by (auto simp: prod_inv_def Let_def intro!: exI [of _ g0])
qed (use assms in \<open>auto simp: prod_inv_def Let_def\<close>)

lemma prod_step_inv:
  assumes "prod_step d d'" "duo_inv cap d"
  shows "duo_inv cap d'"
  using assms
proof (induction rule: prod_step.induct)
  case (p_call d xs)
  then show ?case by (auto simp: duo_inv_def prod_inv_def Let_def dest: repr_indices)
next
  case (p_acquire d xs w)
  then show ?case by (auto simp: duo_inv_def prod_inv_def ring_repr_def Let_def)
next
  case (p_refuse d xs w r)
  then show ?case by (simp add: duo_inv_def prod_inv_def repr_overflows Let_def)
next
  case (p_accept d xs w r free)
  then obtain g0 where g0: "g0 \<le> length (du_got d)" "r = of_nat g0" "length (du_sent d) - g0 \<le> sr_capacity (du_ring d)"
      "w = sr_write (du_ring d)" "xs \<noteq> []"
    by (auto simp: duo_inv_def prod_inv_def ring_repr_def Let_def)
  have rr: "ring_repr (du_ring d) (du_sent d) (length (du_got d))" using p_accept.prems by (simp add: duo_inv_def)
  have "free = sr_capacity (du_ring d) - (length (du_sent d) - g0)"
    using stale_free [OF rr g0(1,3)] p_accept.hyps(2) g0(2,4) by simp
  then have "length (du_sent d) + min (length xs) free \<le> length (du_got d) + sr_capacity (du_ring d)"
    using g0(1,3) by linarith
  then show ?case using p_accept.prems p_accept.hyps(1,3) g0(5) rr
    by (simp add: duo_inv_def prod_inv_def ring_repr_def Let_def)
next
  case (p_copy d xs w n j)
  then have rr: "ring_repr (du_ring d) (du_sent d) (length (du_got d))"
    and pi: "w = of_nat (length (du_sent d))" "n \<le> length xs" "length (du_sent d) + n \<le> length (du_got d) + sr_capacity (du_ring d)"
      "\<forall>i<j. sr_slots (du_ring d) ! ((length (du_sent d) + i) mod sr_capacity (du_ring d)) = xs ! i"
    by (auto simp: duo_inv_def prod_inv_def Let_def)
  have lt: "length (du_sent d) + j < length (du_got d) + sr_capacity (du_ring d)" using pi(3) p_copy.hyps(2) by simp
  note put = repr_put [OF rr lt, where y = "xs ! j"]
  have "\<forall>i<Suc j. (sr_slots (du_ring d))[slot_of (du_ring d) (w + of_nat j) := xs ! j] !
      ((length (du_sent d) + i) mod sr_capacity (du_ring d)) = xs ! i"
    using put(2,3) pi(1,4) by (auto simp: less_Suc_eq)
  then show ?case using p_copy put(1) pi(1)
    by (simp add: duo_inv_def prod_inv_def Let_def)
next
  case (p_publish d xs w n)
  then have rr: "ring_repr (du_ring d) (du_sent d) (length (du_got d))"
    and pi: "w = of_nat (length (du_sent d))" "n \<le> length xs" "length (du_sent d) + n \<le> length (du_got d) + sr_capacity (du_ring d)"
      "\<forall>i<n. sr_slots (du_ring d) ! ((length (du_sent d) + i) mod sr_capacity (du_ring d)) = xs ! i"
    by (auto simp: duo_inv_def prod_inv_def Let_def)
  have le: "length (du_got d) \<le> length (du_sent d)" using rr by (simp add: ring_repr_def)
  have got: "du_got d = take (length (du_got d)) (du_sent d)" using p_publish.prems by (simp add: duo_inv_def)
  have "cons_inv (d\<lparr>du_prod := PIdle\<rparr>)" using p_publish.prems by (simp add: duo_inv_def)
  from cons_inv_more_sent [OF this, of "take n xs"] le
  have ci: "cons_inv (d\<lparr>du_prod := PIdle, du_sent := du_sent d @ take n xs, du_ring := R\<rparr>)" for R by simp
  show ?case using p_publish.prems repr_publish [OF rr pi(3,2,4)] ci got le pi(1)
    by (simp add: duo_inv_def prod_inv_def)
qed

lemma cons_step_inv:
  assumes "cons_step d d'" "duo_inv cap d"
  shows "duo_inv cap d'"
  using assms
proof (induction rule: cons_step.induct)
  case (c_call d n copies)
  then show ?case by (auto simp: duo_inv_def cons_inv_def Let_def dest: repr_indices)
next
  case (c_acquire d copies n r)
  then show ?case by (auto simp: duo_inv_def cons_inv_def ring_repr_def Let_def)
next
  case (c_none d copies n r w)
  then show ?case by (simp add: duo_inv_def cons_inv_def Let_def)
next
  case (c_begin d n r w available)
  then obtain s0 where s0: "s0 \<le> length (du_sent d)" "w = of_nat s0" "length (du_got d) \<le> s0" "r = of_nat (length (du_got d))" "0 < n"
    by (auto simp: duo_inv_def cons_inv_def Let_def)
  have rr: "ring_repr (du_ring d) (du_sent d) (length (du_got d))" using c_begin.prems by (simp add: duo_inv_def)
  have "available = s0 - length (du_got d)"
    using stale_available [OF rr s0(1,3)] c_begin.hyps(2) s0(2,4) by simp
  then have "length (du_got d) + min n available \<le> length (du_sent d)" using s0(1,3) by linarith
  then show ?case using c_begin.prems c_begin.hyps(3) s0(4,5)
    by (simp add: duo_inv_def cons_inv_def Let_def)
next
  case (c_copy d r n out)
  then have rr: "ring_repr (du_ring d) (du_sent d) (length (du_got d))"
    and ci: "r = of_nat (length (du_got d))" "length (du_got d) + n \<le> length (du_sent d)"
      "out = take (length out) (drop (length (du_got d)) (du_sent d))"
    by (simp_all add: duo_inv_def cons_inv_def Let_def)
  let ?i = "length (du_got d) + length out"
  have i: "?i < length (du_sent d)" using ci(2) c_copy.hyps(2) by simp
  have "slot_of (du_ring d) (r + of_nat (length out)) = ?i mod sr_capacity (du_ring d)"
    using slot_of_nat(1) [OF repr_cap_ok [OF rr], of ?i] ci(1) by simp
  then have "sr_slots (du_ring d) ! slot_of (du_ring d) (r + of_nat (length out)) = du_sent d ! ?i"
    using rr i by (simp add: ring_repr_def)
  moreover have "take (Suc (length out)) (drop (length (du_got d)) (du_sent d)) = out @ [du_sent d ! ?i]"
    using i ci(3) [symmetric] by (simp add: take_Suc_conv_app_nth)
  ultimately show ?case using c_copy
    by (simp add: duo_inv_def cons_inv_def Let_def)
next
  case (c_publish d r n out)
  then have rr: "ring_repr (du_ring d) (du_sent d) (length (du_got d))"
    and ci: "r = of_nat (length (du_got d))" "length (du_got d) + n \<le> length (du_sent d)"
      "out = take (length out) (drop (length (du_got d)) (du_sent d))" "length out = n"
    and got: "du_got d = take (length (du_got d)) (du_sent d)"
    by (simp_all add: duo_inv_def cons_inv_def Let_def)
  have "take (length (du_got d) + n) (du_sent d) = du_got d @ out" using got ci(3,4) by (metis take_add)
  moreover have "prod_inv d" using c_publish.prems by (simp add: duo_inv_def)
  note prod_inv_more_got [OF this, where c = CIdle and out = out]
  ultimately show ?case using c_publish.prems repr_consume [OF rr ci(2)] ci(1,4)
    by (simp add: duo_inv_def cons_inv_def)
next
  case (c_discard d n r w available)
  then obtain s0 where s0: "s0 \<le> length (du_sent d)" "w = of_nat s0" "length (du_got d) \<le> s0" "r = of_nat (length (du_got d))"
    by (auto simp: duo_inv_def cons_inv_def Let_def)
  have rr: "ring_repr (du_ring d) (du_sent d) (length (du_got d))"
    and got: "du_got d = take (length (du_got d)) (du_sent d)" using c_discard.prems by (simp_all add: duo_inv_def)
  have "available = s0 - length (du_got d)"
    using stale_available [OF rr s0(1,3)] c_discard.hyps(2) s0(2,4) by simp
  then have le: "length (du_got d) + min n available \<le> length (du_sent d)" using s0(1,3) by linarith
  let ?out = "take (min n available) (drop (length (du_got d)) (du_sent d))"
  have len: "length ?out = min n available" using le by simp
  have "take (length (du_got d) + min n available) (du_sent d) = du_got d @ ?out" using got by (metis take_add)
  moreover have "prod_inv d" using c_discard.prems by (simp add: duo_inv_def)
  note prod_inv_more_got [OF this, where c = CIdle and out = ?out]
  ultimately show ?case using c_discard.prems repr_consume [OF rr le] s0(4) len
    by (simp add: duo_inv_def cons_inv_def del: length_take)
qed

lemma duo_reach_inv: "duo_reach cap x d \<Longrightarrow> sr_capacity_ok (sr_init cap x) \<Longrightarrow> duo_inv cap d"
  by (induction rule: duo_reach.induct) (auto intro: duo_inv_init prod_step_inv cons_step_inv)


section \<open>Properties of the two threads\<close>

inductive_cases prod_stepE: "prod_step d d'"
inductive_cases cons_stepE: "cons_step d d'"

text \<open>The own steps an operation still has to take.\<close>

fun prod_left :: "'a producer \<Rightarrow> nat" where
  "prod_left PIdle = 0"
| "prod_left (PLoaded xs w) = length xs + 3"
| "prod_left (PReady xs w r) = length xs + 2"
| "prod_left (PCopy xs w n j) = n - j + 1"

fun cons_left :: "'a consumer \<Rightarrow> nat" where
  "cons_left CIdle = 0"
| "cons_left (CLoaded copies n r) = n + 3"
| "cons_left (CReady copies n r w) = n + 2"
| "cons_left (CCopy r n out) = n - length out + 1"

text \<open>A reachable state of a ring of two slots in which both threads are copying.\<close>

definition duo_at :: "u64 \<Rightarrow> u64 \<Rightarrow> bool list \<Rightarrow> bool producer \<Rightarrow> bool consumer \<Rightarrow> bool list \<Rightarrow> bool list \<Rightarrow> bool duo" where
  "duo_at w r slots p c sent got =
     \<lparr>du_ring = \<lparr>sr_write = w, sr_read = r, sr_overflows = 0, sr_slots = slots\<rparr>, du_prod = p, du_cons = c,
      du_sent = sent, du_got = got\<rparr>"

lemma both_copying:
  "duo_reach 2 False (duo_at 1 0 [True, False] (PCopy [True] 1 1 0) (CCopy 0 1 []) [True] [])"
proof -
  note ev = duo_at_def sr_capacity_def slot_of_def kMask_def
  have "duo_reach 2 False (duo_at 0 0 [False, False] PIdle CIdle [] [])"
    using reach_init [of 2 False] by (simp add: du_init_def sr_init_def ev numeral_2_eq_2)
  from reach_prod [OF this p_call, of "[True]"]
  have "duo_reach 2 False (duo_at 0 0 [False, False] (PLoaded [True] 0) CIdle [] [])" by (simp add: ev)
  from reach_prod [OF this p_acquire, of "[True]" 0]
  have "duo_reach 2 False (duo_at 0 0 [False, False] (PReady [True] 0 0) CIdle [] [])" by (simp add: ev)
  from reach_prod [OF this p_accept, of "[True]" 0 0 2]
  have "duo_reach 2 False (duo_at 0 0 [False, False] (PCopy [True] 0 1 0) CIdle [] [])" by (simp add: ev)
  from reach_prod [OF this p_copy, of "[True]" 0 1 0]
  have "duo_reach 2 False (duo_at 0 0 [True, False] (PCopy [True] 0 1 1) CIdle [] [])" by (simp add: ev)
  from reach_prod [OF this p_publish, of "[True]" 0 1]
  have "duo_reach 2 False (duo_at 1 0 [True, False] PIdle CIdle [True] [])" by (simp add: ev)
  from reach_prod [OF this p_call, of "[True]"]
  have "duo_reach 2 False (duo_at 1 0 [True, False] (PLoaded [True] 1) CIdle [True] [])" by (simp add: ev)
  from reach_prod [OF this p_acquire, of "[True]" 1]
  have "duo_reach 2 False (duo_at 1 0 [True, False] (PReady [True] 1 0) CIdle [True] [])" by (simp add: ev)
  from reach_prod [OF this p_accept, of "[True]" 1 0 1]
  have "duo_reach 2 False (duo_at 1 0 [True, False] (PCopy [True] 1 1 0) CIdle [True] [])" by (simp add: ev)
  from reach_cons [OF this c_call, of 1 True]
  have "duo_reach 2 False (duo_at 1 0 [True, False] (PCopy [True] 1 1 0) (CLoaded True 1 0) [True] [])" by (simp add: ev)
  from reach_cons [OF this c_acquire, of True 1 0]
  have "duo_reach 2 False (duo_at 1 0 [True, False] (PCopy [True] 1 1 0) (CReady True 1 0 1) [True] [])" by (simp add: ev)
  from reach_cons [OF this c_begin, of 1 0 1 1]
  show ?thesis by (simp add: ev)
qed

lemma capacity_two: "sr_capacity_ok (sr_init 2 x)"
  by (auto simp: sr_capacity_ok_def sr_capacity_def sr_init_def intro: bexI [of _ 1])

text \<open>
  C2. Two threads, any interleaving: what the consumer has taken is a prefix of what the producer has
  published, in order, with nothing lost, repeated or torn, and the ring never holds more than its
  capacity; what a consumer has copied so far inside an operation is the continuation of that prefix.
\<close>

lemma duo_fifo:
  assumes "duo_reach cap x d" "sr_capacity_ok (sr_init cap x)"
  shows "du_got d = take (length (du_got d)) (du_sent d) \<and> length (du_sent d) \<le> length (du_got d) + cap \<and>
    (case du_cons d of CCopy r n out \<Rightarrow> du_got d @ out = take (length (du_got d) + length out) (du_sent d) | _ \<Rightarrow> True)"
proof -
  have inv: "duo_inv cap d" by (rule duo_reach_inv [OF assms])
  then have got: "du_got d = take (length (du_got d)) (du_sent d)" and "cons_inv d"
    and "length (du_sent d) \<le> length (du_got d) + cap"
    using repr_bounds(2) [of "du_ring d"] by (auto simp: duo_inv_def)
  moreover have "du_got d @ out = take (length (du_got d) + length out) (du_sent d)" if "du_cons d = CCopy r n out" for r n out
  proof -
    have "out = take (length out) (drop (length (du_got d)) (du_sent d))"
      using \<open>cons_inv d\<close> that by (simp add: cons_inv_def Let_def)
    then show ?thesis using got by (metis take_add)
  qed
  ultimately show ?thesis by (simp split: consumer.split)
qed

lemma duo_fifo_witness:
  "[] @ [] = take (0 + 0) [True] \<and> length [True] \<le> length ([] :: bool list) + 2"
  using duo_fifo [OF both_copying capacity_two] by (simp add: duo_at_def)

text \<open>
  C8. No data race: whenever the producer is about to write a slot while the consumer is about to read
  one, the slots differ.
\<close>

lemma duo_no_race:
  assumes "duo_reach cap x d" "sr_capacity_ok (sr_init cap x)"
    and "du_prod d = PCopy xs w n j" "j < n" "du_cons d = CCopy r m out" "length out < m"
  shows "slot_of (du_ring d) (w + of_nat j) \<noteq> slot_of (du_ring d) (r + of_nat (length out))"
proof -
  have inv: "duo_inv cap d" by (rule duo_reach_inv [OF assms(1,2)])
  then have rr: "ring_repr (du_ring d) (du_sent d) (length (du_got d))" by (simp add: duo_inv_def)
  have p: "w = of_nat (length (du_sent d))" "length (du_sent d) + n \<le> length (du_got d) + sr_capacity (du_ring d)"
    using inv assms(3) by (auto simp: duo_inv_def prod_inv_def Let_def)
  have c: "r = of_nat (length (du_got d))" "length (du_got d) + m \<le> length (du_sent d)"
    using inv assms(5) by (auto simp: duo_inv_def cons_inv_def Let_def)
  note slot = slot_of_nat(1) [OF repr_cap_ok [OF rr]]
  have "(length (du_got d) + length out) mod sr_capacity (du_ring d) \<noteq> (length (du_sent d) + j) mod sr_capacity (du_ring d)"
    using p(2) c(2) assms(4,6) by (intro mod_neq) linarith+
  then show ?thesis using slot [of "length (du_sent d) + j"] slot [of "length (du_got d) + length out"] p(1) c(1)
    by simp
qed

lemma duo_no_race_witness:
  "slot_of (du_ring (duo_at 1 0 [True, False] (PCopy [True] 1 1 0) (CCopy 0 1 []) [True] [])) (1 + of_nat 0) \<noteq>
   slot_of (du_ring (duo_at 1 0 [True, False] (PCopy [True] 1 1 0) (CCopy 0 1 []) [True] [])) (0 + of_nat (length ([] :: bool list)))"
  using duo_no_race [OF both_copying capacity_two, of "[True]" 1 1 0 0 1 "[]"] by (simp add: duo_at_def)

text \<open>
  C26. Nobody waits: inside an operation a thread always has a step of its own, every such step brings
  it closer to the end of the operation by the count \<open>prod_left\<close> / \<open>cons_left\<close>, and the steps of the
  other thread do not touch that count. So each operation ends within its own bounded number of steps.
\<close>

lemma duo_wait_free:
  assumes "duo_reach cap x d" "sr_capacity_ok (sr_init cap x)"
  shows "(du_prod d \<noteq> PIdle \<longrightarrow> (\<exists>d'. prod_step d d') \<and> (\<forall>d'. prod_step d d' \<longrightarrow> prod_left (du_prod d') < prod_left (du_prod d))) \<and>
    (du_cons d \<noteq> CIdle \<longrightarrow> (\<exists>d'. cons_step d d') \<and> (\<forall>d'. cons_step d d' \<longrightarrow> cons_left (du_cons d') < cons_left (du_cons d))) \<and>
    (\<forall>d'. prod_step d d' \<longrightarrow> du_cons d' = du_cons d) \<and> (\<forall>d'. cons_step d d' \<longrightarrow> du_prod d' = du_prod d)"
proof (intro conjI impI allI)
  have inv: "duo_inv cap d" by (rule duo_reach_inv [OF assms])
  show "\<exists>d'. prod_step d d'" if "du_prod d \<noteq> PIdle"
  proof (cases "du_prod d")
    case (PCopy xs w n j)
    then have "j = n \<or> j < n" using inv by (auto simp: duo_inv_def prod_inv_def Let_def)
    then show ?thesis using PCopy p_copy p_publish by blast
  qed (use that p_acquire p_refuse p_accept in blast)+
  show "\<exists>d'. cons_step d d'" if "du_cons d \<noteq> CIdle"
  proof (cases "du_cons d")
    case (CReady copies n r w)
    show ?thesis
    proof (cases "unat (w - r) = 0")
      case True
      then show ?thesis using c_none [OF CReady] by blast
    next
      case False
      then show ?thesis using CReady c_begin [OF _ refl, of d n r w] c_discard [OF _ refl, of d n r w]
        by (cases copies) (simp, blast)+
    qed
  next
    case (CCopy r n out)
    then have "length out = n \<or> length out < n" using inv by (auto simp: duo_inv_def cons_inv_def Let_def)
    then show ?thesis using CCopy c_copy c_publish by blast
  qed (use that c_acquire in blast)+
  show "prod_left (du_prod d') < prod_left (du_prod d)" if "du_prod d \<noteq> PIdle" "prod_step d d'" for d'
    using that(2,1) by (cases rule: prod_stepE) auto
  show "cons_left (du_cons d') < cons_left (du_cons d)" if "du_cons d \<noteq> CIdle" "cons_step d d'" for d'
    using that(2,1) by (cases rule: cons_stepE) auto
  show "du_cons d' = du_cons d" if "prod_step d d'" for d'
    using that by (cases rule: prod_stepE) auto
  show "du_prod d' = du_prod d" if "cons_step d d'" for d'
    using that by (cases rule: cons_stepE) auto
qed

lemma duo_wait_free_witness:
  "\<exists>d'. prod_step (duo_at 1 0 [True, False] (PCopy [True] 1 1 0) (CCopy 0 1 []) [True] []) d' \<and>
    prod_left (du_prod d') < 2"
proof -
  let ?d = "duo_at 1 0 [True, False] (PCopy [True] 1 1 0) (CCopy 0 1 []) [True] []"
  note w = duo_wait_free [OF both_copying capacity_two]
  have "du_prod ?d \<noteq> PIdle" "prod_left (du_prod ?d) = 2" by (simp_all add: duo_at_def)
  then show ?thesis using w by metis
qed

end
