(* ===== verification/Text.thy ===== *)
theory Text
  imports Prelude
begin

text \<open>
  What the components use of the C++ library on text: decimal output (\<open>%u\<close>, \<open>std::to_string\<close>),
  \<open>std::from_chars\<close> on unsigned integers, the searches of \<open>std::string_view\<close>, and sequences of
  \<open>fprintf\<close> calls. The lemmas say that decimal output reads back and what a search finds.
\<close>

section \<open>Decimal numbers\<close>

text \<open>\<open>%u\<close> and \<open>%llu\<close>.\<close>

definition digit :: "nat \<Rightarrow> char" where "digit d = char_of (48 + d)"

fun decimal :: "nat \<Rightarrow> string" where
  "decimal n = (if n < 10 then [digit n] else decimal (n div 10) @ [digit (n mod 10)])"

declare decimal.simps [simp del]

definition read_decimal :: "string \<Rightarrow> nat" where
  "read_decimal s = foldl (\<lambda>n c. n * 10 + (of_char c - 48)) 0 s"

lemma digit_value: "d < 10 \<Longrightarrow> of_char (digit d) = (48 + d :: nat)" "d < 10 \<Longrightarrow> digit d \<noteq> CHR '','' \<and> digit d \<noteq> CHR 0x0A"
proof -
  assume d: "d < 10"
  show v: "of_char (digit d) = (48 + d :: nat)" using d by (simp add: digit_def)
  show "digit d \<noteq> CHR '','' \<and> digit d \<noteq> CHR 0x0A"
  proof (intro conjI notI)
    assume "digit d = CHR '',''"
    then have "of_char (digit d) = (44 :: nat)" by simp
    then show False using v by simp
  next
    assume "digit d = CHR 0x0A"
    then have "of_char (digit d) = (10 :: nat)" by simp
    then show False using v by simp
  qed
qed

lemma read_decimal_decimal: "read_decimal (decimal n) = n"
proof (induction n rule: decimal.induct)
  case (1 n)
  show ?case
  proof (cases "n < 10")
    case True
    then show ?thesis by (simp add: decimal.simps [of n] read_decimal_def digit_value)
  next
    case False
    then have "read_decimal (decimal (n div 10)) = n div 10" using 1 by simp
    then show ?thesis using False by (simp add: decimal.simps [of n] read_decimal_def digit_value)
  qed
qed

lemma decimal_chars: "c \<in> set (decimal n) \<Longrightarrow> c \<noteq> CHR '','' \<and> c \<noteq> CHR 0x0A"
proof (induction n rule: decimal.induct)
  case (1 n)
  then show ?case using digit_value(2) by (auto simp: decimal.simps [of n] split: if_splits)
qed

section \<open>Reading unsigned integers\<close>

definition is_digit :: "char \<Rightarrow> bool" where
  "is_digit c \<longleftrightarrow> 48 \<le> (of_char c :: nat) \<and> (of_char c :: nat) \<le> 57"

datatype errc = ErrcOk | InvalidArgument | ResultOutOfRange

text \<open>
  \<open>std::from_chars\<close> into an unsigned type with the values below \<open>bound\<close>: the error, the value stored
  when there is none, and how far it read.
\<close>

definition from_chars :: "nat \<Rightarrow> string \<Rightarrow> errc \<times> nat option \<times> nat" where
  "from_chars bound s =
     (let ds = takeWhile is_digit s in
      if ds = [] then (InvalidArgument, None, 0)
      else if read_decimal ds < bound then (ErrcOk, Some (read_decimal ds), length ds)
      else (ResultOutOfRange, None, length ds))"

lemma digit_is_digit: "d < 10 \<Longrightarrow> is_digit (digit d)"
  by (simp add: is_digit_def digit_value)

lemma decimal_digits: "\<forall>c \<in> set (decimal n). is_digit c"
proof (induction n rule: decimal.induct)
  case (1 n)
  then show ?case using digit_is_digit by (auto simp: decimal.simps [of n])
qed

lemma decimal_nonempty [simp]: "decimal n \<noteq> []"
  by (simp add: decimal.simps [of n])

lemma from_chars_whole:
  "from_chars bound s = (ErrcOk, Some n, length s) \<longleftrightarrow>
     s \<noteq> [] \<and> (\<forall>c \<in> set s. is_digit c) \<and> n = read_decimal s \<and> n < bound"
proof (cases "\<forall>c \<in> set s. is_digit c")
  case True
  then have w: "takeWhile is_digit s = s" by simp
  show ?thesis unfolding from_chars_def w Let_def using True by auto
next
  case False
  then have "takeWhile is_digit s \<noteq> s" by simp
  then have "length (takeWhile is_digit s) \<noteq> length s"
    using takeWhile_eq_take [of is_digit s] by (metis take_all order_refl)
  then show ?thesis using False by (auto simp: from_chars_def Let_def)
qed

section \<open>Searching\<close>

definition find_char :: "char \<Rightarrow> string \<Rightarrow> nat option" where
  "find_char c s = (let k = length (takeWhile (\<lambda>x. x \<noteq> c) s) in if k < length s then Some k else None)"

definition rfind_char :: "char \<Rightarrow> string \<Rightarrow> nat option" where
  "rfind_char c s = map_option (\<lambda>k. length s - 1 - k) (find_char c (rev s))"

definition starts_with :: "string \<Rightarrow> string \<Rightarrow> bool" where
  "starts_with s p \<longleftrightarrow> take (length p) s = p"

lemma find_char_append: "c \<notin> set a \<Longrightarrow> find_char c (a @ c # b) = Some (length a)"
proof -
  assume "c \<notin> set a"
  then have "takeWhile (\<lambda>x. x \<noteq> c) (a @ c # b) = a" by (induction a) auto
  then show ?thesis by (simp add: find_char_def)
qed

lemma find_char_None: "find_char c s = None \<longleftrightarrow> c \<notin> set s"
proof
  assume "find_char c s = None"
  then have "length (takeWhile (\<lambda>x. x \<noteq> c) s) = length s"
    using length_takeWhile_le [of "\<lambda>x. x \<noteq> c" s] by (simp add: find_char_def Let_def split: if_splits)
  then have "takeWhile (\<lambda>x. x \<noteq> c) s = s" by (metis takeWhile_eq_take take_all order_refl)
  then show "c \<notin> set s" by (metis set_takeWhileD)
next
  assume "c \<notin> set s"
  then have "takeWhile (\<lambda>x. x \<noteq> c) s = s" by (induction s) auto
  then show "find_char c s = None" by (simp only: find_char_def Let_def) simp
qed

lemma find_char_Some: "find_char c s = Some k \<longleftrightarrow> (\<exists>a b. s = a @ c # b \<and> c \<notin> set a \<and> k = length a)"
proof
  assume k: "find_char c s = Some k"
  then have "c \<in> set s" using find_char_None [of c s] by auto
  then obtain a b where s: "s = a @ c # b" "c \<notin> set a" using split_list_first by fastforce
  then show "\<exists>a b. s = a @ c # b \<and> c \<notin> set a \<and> k = length a" using k find_char_append [of c a b] by auto
qed (auto simp: find_char_append)

lemma rfind_char_append: "c \<notin> set b \<Longrightarrow> rfind_char c (a @ c # b) = Some (length a)"
  using find_char_append [of c "rev b" "rev a"] by (simp add: rfind_char_def)

lemma rfind_char_None: "rfind_char c s = None \<longleftrightarrow> c \<notin> set s"
  by (simp add: rfind_char_def find_char_None)

lemma rfind_char_Some: "rfind_char c s = Some k \<longleftrightarrow> (\<exists>a b. s = a @ c # b \<and> c \<notin> set b \<and> k = length a)"
proof
  assume k: "rfind_char c s = Some k"
  then have "c \<in> set s" using rfind_char_None [of c s] by auto
  then obtain a b where s: "s = a @ c # b" "c \<notin> set b" using split_list_last by fastforce
  then show "\<exists>a b. s = a @ c # b \<and> c \<notin> set b \<and> k = length a" using k rfind_char_append [of c b a] by auto
qed (auto simp: rfind_char_append)

section \<open>Output\<close>

text \<open>A sequence of \<open>fprintf\<close> calls that stops at the first failure.\<close>

fun emit :: "('f \<Rightarrow> string \<Rightarrow> bool \<times> 'f) \<Rightarrow> 'f \<Rightarrow> string list \<Rightarrow> bool \<times> 'f" where
  "emit put f [] = (True, f)"
| "emit put f (c # cs) = (let (ok, f) = put f c in if ok then emit put f cs else (False, f))"

end
