(* ===== verification/Trace.thy ===== *)
theory Trace
  imports Checked_Int Ring Text
begin

text \<open>
  Packet traces (core/include/radio/trace.hpp, core/src/metrics/trace.cpp): the pipeline stages, the
  record of one packet, the overwriting ring of records and the two exports. A \<open>FILE*\<close> is an
  argument: a state and what \<open>fprintf\<close> of a string makes of it (false is a negative return). The
  theory proves that the ring presents the last records written, oldest first, and that the CSV
  export of a record parses back to it.
\<close>

section \<open>Stages\<close>

datatype stage = Captured | Encoded | Queued | Sent | Received | JitterIn | JitterOut | Decoded | Played

definition kStageCount :: nat where "kStageCount = 9"

definition all_stages :: "stage list" where
  "all_stages = [Captured, Encoded, Queued, Sent, Received, JitterIn, JitterOut, Decoded, Played]"

text \<open>\<open>static_cast<std::size_t>\<close> of a stage.\<close>

fun stage_index :: "stage \<Rightarrow> nat" where
  "stage_index Captured = 0"
| "stage_index Encoded = 1"
| "stage_index Queued = 2"
| "stage_index Sent = 3"
| "stage_index Received = 4"
| "stage_index JitterIn = 5"
| "stage_index JitterOut = 6"
| "stage_index Decoded = 7"
| "stage_index Played = 8"

fun stage_to_string :: "stage \<Rightarrow> string" where
  "stage_to_string Captured = ''captured''"
| "stage_to_string Encoded = ''encoded''"
| "stage_to_string Queued = ''queued''"
| "stage_to_string Sent = ''sent''"
| "stage_to_string Received = ''received''"
| "stage_to_string JitterIn = ''jitter_in''"
| "stage_to_string JitterOut = ''jitter_out''"
| "stage_to_string Decoded = ''decoded''"
| "stage_to_string Played = ''played''"

text \<open>Stages are ordered as a packet passes them.\<close>

instantiation stage :: linorder
begin

definition less_eq_stage :: "stage \<Rightarrow> stage \<Rightarrow> bool" where "s \<le> t \<longleftrightarrow> stage_index s \<le> stage_index t"
definition less_stage :: "stage \<Rightarrow> stage \<Rightarrow> bool" where "s < t \<longleftrightarrow> stage_index s < stage_index t"

instance
proof
  fix s t :: stage
  assume "s \<le> t" "t \<le> s"
  then have "stage_index s = stage_index t" by (simp add: less_eq_stage_def)
  then show "s = t" by (cases s; cases t) simp_all
next
qed (auto simp: less_eq_stage_def less_stage_def)

end

lemma stage_index_bound: "stage_index s < kStageCount"
  by (cases s) (simp_all add: kStageCount_def)

lemma all_stages_index: "map stage_index all_stages = [0, 1, 2, 3, 4, 5, 6, 7, 8]"
  by (simp add: all_stages_def)

lemma all_stages_sorted: "sorted all_stages" "set all_stages = UNIV" "distinct all_stages"
proof -
  show "sorted all_stages" by (simp add: all_stages_def less_eq_stage_def)
  show "set all_stages = UNIV"
  proof
    show "UNIV \<subseteq> set all_stages"
    proof
      fix s :: stage
      show "s \<in> set all_stages" by (cases s) (simp_all add: all_stages_def)
    qed
  qed simp
  show "distinct all_stages" by (simp add: all_stages_def)
qed

section \<open>Records\<close>

record trace_record =
  tr_stream_id :: u32
  tr_sequence :: u32
  tr_at :: "micros list"

definition tr_init :: trace_record where
  "tr_init = \<lparr>tr_stream_id = 0, tr_sequence = 0, tr_at = replicate kStageCount 0\<rparr>"

definition tr_mark :: "trace_record \<Rightarrow> stage \<Rightarrow> micros \<Rightarrow> trace_record" where
  "tr_mark t s w = t\<lparr>tr_at := (tr_at t)[stage_index s := w]\<rparr>"

definition tr_when :: "trace_record \<Rightarrow> stage \<Rightarrow> micros" where
  "tr_when t s = tr_at t ! stage_index s"

definition tr_has :: "trace_record \<Rightarrow> stage \<Rightarrow> bool" where
  "tr_has t s \<longleftrightarrow> tr_at t ! stage_index s \<noteq> 0"

definition tr_span_us :: "trace_record \<Rightarrow> stage \<Rightarrow> stage \<Rightarrow> int option" where
  "tr_span_us t from to =
     (if \<not> tr_has t from \<or> \<not> tr_has t to then Some 0
      else i64_sub (as_i64 (tr_when t to)) (as_i64 (tr_when t from)))"

section \<open>The ring of records\<close>

record trace_buffer =
  tb_slots :: "trace_record list"
  tb_written :: u64

definition tb_make :: "nat \<Rightarrow> trace_buffer" where
  "tb_make capacity = \<lparr>tb_slots = replicate (if capacity = 0 then 1 else capacity) tr_init, tb_written = 0\<rparr>"

definition tb_record :: "trace_buffer \<Rightarrow> trace_record \<Rightarrow> trace_buffer" where
  "tb_record tb t =
     tb\<lparr>tb_slots := (tb_slots tb)[unat (tb_written tb) mod length (tb_slots tb) := t], tb_written := tb_written tb + 1\<rparr>"

definition tb_clear :: "trace_buffer \<Rightarrow> trace_buffer" where
  "tb_clear tb = tb\<lparr>tb_written := 0\<rparr>"

definition tb_capacity :: "trace_buffer \<Rightarrow> nat" where
  "tb_capacity tb = length (tb_slots tb)"

definition tb_size :: "trace_buffer \<Rightarrow> nat" where
  "tb_size tb = (if unat (tb_written tb) < length (tb_slots tb) then unat (tb_written tb) else length (tb_slots tb))"

definition tb_overwritten :: "trace_buffer \<Rightarrow> u64" where
  "tb_overwritten tb =
     (if tb_written tb > of_nat (length (tb_slots tb)) then tb_written tb - of_nat (length (tb_slots tb)) else 0)"

definition tb_get :: "trace_buffer \<Rightarrow> nat \<Rightarrow> trace_record" where
  "tb_get tb index =
     (let start = (if unat (tb_written tb) < length (tb_slots tb) then 0
                   else unat (tb_written tb) mod length (tb_slots tb)) in
      tb_slots tb ! ((start + index) mod length (tb_slots tb)))"

section \<open>Export\<close>

definition csv_header :: "string list" where
  "csv_header = [''stream_id,sequence''] @ map (\<lambda>s. '','' @ stage_to_string s) all_stages @ [[CHR 0x0A]]"

definition csv_row :: "trace_record \<Rightarrow> string list" where
  "csv_row t =
     [decimal (unat (tr_stream_id t)) @ '','' @ decimal (unat (tr_sequence t))] @
     map (\<lambda>s. if tr_when t s = 0 then '','' else '','' @ decimal (unat (tr_when t s))) all_stages @
     [[CHR 0x0A]]"

definition tb_write_csv :: "('f \<Rightarrow> string \<Rightarrow> bool \<times> 'f) \<Rightarrow> 'f \<Rightarrow> trace_buffer \<Rightarrow> bool \<times> 'f" where
  "tb_write_csv put f tb = emit put f (csv_header @ concat (map (\<lambda>i. csv_row (tb_get tb i)) [0..<tb_size tb]))"

definition quoted :: "string \<Rightarrow> string" where "quoted s = [CHR 0x22] @ s @ [CHR 0x22]"

definition jsonl_row :: "trace_record \<Rightarrow> string list" where
  "jsonl_row t =
     [''{'' @ quoted ''stream_id'' @ '':'' @ decimal (unat (tr_stream_id t)) @ '','' @
        quoted ''sequence'' @ '':'' @ decimal (unat (tr_sequence t))] @
     map (\<lambda>s. '','' @ quoted (stage_to_string s) @ '':'' @ decimal (unat (tr_when t s)))
       (filter (\<lambda>s. tr_when t s \<noteq> 0) all_stages) @
     [''}'' @ [CHR 0x0A]]"

definition tb_write_jsonl :: "('f \<Rightarrow> string \<Rightarrow> bool \<times> 'f) \<Rightarrow> 'f \<Rightarrow> trace_buffer \<Rightarrow> bool \<times> 'f" where
  "tb_write_jsonl put f tb = emit put f (concat (map (\<lambda>i. jsonl_row (tb_get tb i)) [0..<tb_size tb]))"

section \<open>The last records\<close>

definition tb_run :: "nat \<Rightarrow> trace_record list \<Rightarrow> trace_buffer" where
  "tb_run capacity ts = foldl tb_record (tb_make capacity) ts"

lemma tb_run_fields:
  "length (tb_slots (tb_run c ts)) = (if c = 0 then 1 else c)" "tb_written (tb_run c ts) = of_nat (length ts)"
  by (induction ts rule: rev_induct) (simp_all add: tb_run_def tb_make_def tb_record_def)

lemma tb_run_ring:
  assumes "length ts < 2 ^ 64"
  shows "ring_holds (tb_slots (tb_run c ts)) (length ts mod (if c = 0 then 1 else c)) tr_init ts"
  using assms
proof (induction ts rule: rev_induct)
  case Nil
  then show ?case using ring_holds_init [of "if c = 0 then 1 else c" tr_init] by (simp add: tb_run_def tb_make_def)
next
  case (snoc t ts)
  let ?n = "if c = 0 then 1 else c"
  have "ring_holds (tb_slots (tb_run c ts)) (length ts mod ?n) tr_init ts" using snoc by simp
  from ring_holds_push [OF this, of t]
  have "ring_holds ((tb_slots (tb_run c ts))[length ts mod ?n := t]) ((length ts mod ?n + 1) mod ?n) tr_init (ts @ [t])"
    unfolding tb_run_fields .
  moreover have "unat (of_nat (length ts) :: u64) = length ts" using snoc.prems by (simp add: unat_of_nat_small)
  then have "tb_slots (tb_run c (ts @ [t])) = (tb_slots (tb_run c ts))[length ts mod ?n := t]"
    using tb_run_fields [of c ts] by (simp add: tb_run_def tb_record_def)
  moreover have "(length ts mod ?n + 1) mod ?n = length (ts @ [t]) mod ?n" by (simp add: mod_Suc_eq)
  ultimately show ?case by simp
qed

lemma ring_view_nth: "n < length w \<Longrightarrow> i < length w \<Longrightarrow> ring_view w n ! i = w ! ((n + i) mod length w)"
  by (simp add: ring_view_rotate nth_rotate)

text \<open>
  The buffer presents the most recent records, oldest first: after any run of fewer than \<open>2^64\<close>
  records it holds the last \<open>capacity\<close> of them (all of them while they fit), and \<open>overwritten\<close> is the
  number that are gone. A capacity of 0 is one slot.
\<close>

lemma trace_keeps_last:
  assumes "length ts < 2 ^ 64" "capacity < 2 ^ 64"
  shows "let tb = tb_run capacity ts; cap = tb_capacity tb in
    map (tb_get tb) [0..<tb_size tb] = drop (length ts - cap) ts \<and>
    unat (tb_overwritten tb) = length ts - cap \<and> cap = max 1 capacity"
proof -
  define tb where "tb = tb_run capacity ts"
  define cap where "cap = max 1 capacity"
  have cap: "length (tb_slots tb) = cap" "0 < cap" by (simp_all add: tb_def cap_def tb_run_fields max_def)
  have w: "unat (tb_written tb) = length ts" using assms(1) by (simp add: tb_def tb_run_fields unat_of_nat_small)
  have ring: "ring_holds (tb_slots tb) (length ts mod cap) tr_init ts"
  proof -
    have "(if capacity = 0 then 1 else capacity) = cap" by (simp add: cap_def)
    then show ?thesis using tb_run_ring [OF assms(1), of capacity] by (simp only: tb_def)
  qed
  then have view: "ring_view (tb_slots tb) (length ts mod cap) = recent cap tr_init ts" by (simp add: ring_holds_def cap)
  have get: "map (tb_get tb) [0..<tb_size tb] = drop (length ts - cap) ts"
  proof (rule nth_equalityI)
    show l: "length (map (tb_get tb) [0..<tb_size tb]) = length (drop (length ts - cap) ts)"
      by (simp add: tb_size_def cap w)
    fix i assume i: "i < length (map (tb_get tb) [0..<tb_size tb])"
    then have "i < cap" by (simp add: tb_size_def cap w split: if_splits)
    have g: "map (tb_get tb) [0..<tb_size tb] ! i = tb_get tb i" using i by simp
    show "map (tb_get tb) [0..<tb_size tb] ! i = drop (length ts - cap) ts ! i"
    proof (cases "length ts < cap")
      case False
      then have "tb_get tb i = ring_view (tb_slots tb) (length ts mod cap) ! i"
        using \<open>i < cap\<close> cap by (simp add: tb_get_def w ring_view_nth)
      also have "\<dots> = drop (length ts - cap) ts ! i" using False by (simp add: view recent_full)
      finally show ?thesis using g by simp
    next
      case True
      then have i': "i < length ts" using i by (simp add: tb_size_def cap w)
      let ?j = "cap - length ts + i"
      have j: "?j < cap" using True i' by linarith
      have "tb_get tb i = tb_slots tb ! ((length ts mod cap + ?j) mod cap)"
        using True \<open>i < cap\<close> cap by (simp add: tb_get_def w)
      also have "\<dots> = recent cap tr_init ts ! ?j"
        using True j cap ring_view_nth [of "length ts mod cap" "tb_slots tb" ?j] by (simp only: view cap mod_less_divisor)
      also have "\<dots> = ts ! i" using True by (simp add: recent_cases nth_append)
      finally show ?thesis using g True by simp
    qed
  qed
  have "unat (of_nat cap :: u64) = cap" using assms(2) by (intro unat_of_nat_small) (simp add: cap_def)
  then have "unat (tb_overwritten tb) = length ts - cap"
    using w by (auto simp: tb_overwritten_def cap word_less_nat_alt unat_sub word_le_nat_alt)
  then show ?thesis using get cap by (simp add: Let_def tb_capacity_def cap_def flip: tb_def)
qed

definition seq_record :: "u32 \<Rightarrow> trace_record" where
  "seq_record n = tr_init\<lparr>tr_sequence := n\<rparr>"

lemma trace_keeps_last_witness:
  "map (tb_get (tb_run 2 [seq_record 1, seq_record 2, seq_record 3]))
     [0..<tb_size (tb_run 2 [seq_record 1, seq_record 2, seq_record 3])] = [seq_record 2, seq_record 3] \<and>
   unat (tb_overwritten (tb_run 2 [seq_record 1, seq_record 2, seq_record 3])) = 1"
  using trace_keeps_last [of "[seq_record 1, seq_record 2, seq_record 3]" 2]
  by (simp add: Let_def tb_capacity_def tb_run_fields)

section \<open>Reading a row back\<close>

text \<open>The fields of a line, and the record they spell.\<close>

fun fields :: "string \<Rightarrow> string list" where
  "fields [] = [[]]"
| "fields (c # s) = (if c = CHR '','' then [] # fields s
     else case fields s of [] \<Rightarrow> [[c]] | f # fs \<Rightarrow> (c # f) # fs)"

definition read_row :: "string \<Rightarrow> trace_record" where
  "read_row line =
     (let fs = map read_decimal (fields line) in
      \<lparr>tr_stream_id = of_nat (fs ! 0), tr_sequence = of_nat (fs ! 1), tr_at = map of_nat (drop 2 fs)\<rparr>)"

lemma fields_plain: "CHR '','' \<notin> set f \<Longrightarrow> fields f = [f]"
  by (induction f) auto

lemma fields_append: "CHR '','' \<notin> set f \<Longrightarrow> fields (f @ CHR '','' # s) = f # fields s"
  by (induction f) auto

lemma fields_list: "(\<forall>f \<in> set (f0 # fs). CHR '','' \<notin> set f) \<Longrightarrow> fields (f0 @ concat (map ((#) CHR '','') fs)) = f0 # fs"
proof (induction fs arbitrary: f0)
  case (Cons f fs)
  then show ?case using fields_append [of f0 "f @ concat (map ((#) CHR '','') fs)"] by simp
qed (simp add: fields_plain)


definition row_fields :: "trace_record \<Rightarrow> string list" where
  "row_fields t = decimal (unat (tr_stream_id t)) # decimal (unat (tr_sequence t)) #
     map (\<lambda>s. if tr_when t s = 0 then [] else decimal (unat (tr_when t s))) all_stages"

lemma csv_row_fields:
  "concat (csv_row t) = decimal (unat (tr_stream_id t)) @ concat (map ((#) CHR '','') (tl (row_fields t))) @ [CHR 0x0A]"
  by (simp add: csv_row_def row_fields_def all_stages_def)

text \<open>
  A row of the CSV export has eleven fields, the two keys and the nine stages in pipeline order,
  a field is empty exactly when its stage was not recorded, and the row (without its newline) reads
  back as the record.
\<close>

lemma csv_row_roundtrip:
  assumes "length (tr_at t) = kStageCount"
  shows "\<exists>line. concat (csv_row t) = line @ [CHR 0x0A] \<and> CHR 0x0A \<notin> set line \<and>
    length (fields line) = 11 \<and> (\<forall>s. fields line ! (2 + stage_index s) = [] \<longleftrightarrow> \<not> tr_has t s) \<and>
    read_row line = t"
proof -
  define line where "line = decimal (unat (tr_stream_id t)) @ concat (map ((#) CHR '','') (tl (row_fields t)))"
  have plain: "\<forall>f \<in> set (row_fields t). CHR '','' \<notin> set f \<and> CHR 0x0A \<notin> set f"
    using decimal_chars by (fastforce simp: row_fields_def)
  have hd: "row_fields t = decimal (unat (tr_stream_id t)) # tl (row_fields t)" by (simp add: row_fields_def)
  have f: "fields line = row_fields t"
    using fields_list [of "decimal (unat (tr_stream_id t))" "tl (row_fields t)"] plain hd
    unfolding line_def by metis
  have nonempty: "decimal n \<noteq> []" for n by (simp add: decimal.simps [of n])
  have empty: "fields line ! (2 + stage_index s) = [] \<longleftrightarrow> \<not> tr_has t s" for s
    unfolding f using nonempty by (cases s) (simp_all add: row_fields_def all_stages_def tr_has_def tr_when_def)
  have nl: "CHR 0x0A \<notin> set line"
    using plain decimal_chars unfolding line_def by (auto simp: row_fields_def)
  have zero: "read_decimal [] = 0" by (simp add: read_decimal_def)
  have at: "map (of_nat \<circ> read_decimal) (drop 2 (row_fields t)) = tr_at t"
  proof (rule nth_equalityI)
    show "length (map (of_nat \<circ> read_decimal) (drop 2 (row_fields t))) = length (tr_at t)"
      using assms by (simp add: row_fields_def all_stages_def kStageCount_def)
    fix i assume "i < length (map (of_nat \<circ> read_decimal) (drop 2 (row_fields t)))"
    then have i: "i < length all_stages" by (simp add: row_fields_def)
    have idx: "stage_index (all_stages ! i) = i"
      using all_stages_index i nth_map [of i all_stages stage_index]
      by (auto simp: all_stages_def less_Suc_eq numeral_eq_Suc)
    show "map (of_nat \<circ> read_decimal) (drop 2 (row_fields t)) ! i = tr_at t ! i"
      using i idx by (simp add: row_fields_def read_decimal_decimal zero tr_when_def)
  qed
  have at': "map of_nat (drop 2 (map read_decimal (row_fields t))) = tr_at t" using at by (simp add: drop_map)
  have "read_row line = \<lparr>tr_stream_id = tr_stream_id t, tr_sequence = tr_sequence t, tr_at = tr_at t\<rparr>"
    unfolding read_row_def Let_def f at' by (simp add: row_fields_def read_decimal_decimal)
  then have "read_row line = t" by simp
  moreover have "length (fields line) = 11" by (simp add: f row_fields_def all_stages_def)
  ultimately show ?thesis using csv_row_fields [of t] nl empty
    by (intro exI [of _ line]) (simp add: line_def)
qed

lemma csv_row_roundtrip_witness:
  "\<exists>line. concat (csv_row (tr_mark (seq_record 7) Received 1500)) = line @ [CHR 0x0A] \<and>
    read_row line = tr_mark (seq_record 7) Received 1500"
  using csv_row_roundtrip [of "tr_mark (seq_record 7) Received 1500"]
  by (auto simp: tr_mark_def seq_record_def tr_init_def)

text \<open>
  A span is the negation of the reverse span, is 0 when a stage is missing, and is defined
  whenever both stamps are below \<open>2^63\<close>; the three stages of a path add up.
\<close>

lemma trace_spans:
  assumes "\<forall>s. tr_when t s < 2 ^ 63" "tr_has t a" "tr_has t b" "tr_has t c"
  shows "\<exists>x y. tr_span_us t a b = Some x \<and> tr_span_us t b a = Some (- x) \<and> tr_span_us t b c = Some y \<and>
    tr_span_us t a c = Some (x + y) \<and> (tr_when t a \<le> tr_when t b \<longleftrightarrow> 0 \<le> x)"
proof -
  have v: "as_i64 (tr_when t s) = uint (tr_when t s) \<and> 0 \<le> uint (tr_when t s) \<and> uint (tr_when t s) < 2 ^ 63" for s
  proof -
    have "uint (tr_when t s) < 2 ^ 63" using assms(1) by (simp add: word_less_def)
    then show ?thesis using as_i64_of_int [of "uint (tr_when t s)"] uint_ge_0 [of "tr_when t s"]
      by (simp add: in_i64_def)
  qed
  have span: "tr_span_us t p q = Some (uint (tr_when t q) - uint (tr_when t p))" if "tr_has t p" "tr_has t q" for p q
  proof -
    have "in_i64 (uint (tr_when t q) - uint (tr_when t p))" using v [of p] v [of q] unfolding in_i64_def by linarith
    then show ?thesis using that v [of p] v [of q] by (simp add: tr_span_us_def i64_defs)
  qed
  show ?thesis using assms(2-4) by (simp add: span word_le_def)
qed

lemma trace_spans_witness:
  "\<exists>x. tr_span_us (tr_mark (tr_mark tr_init Sent 5) Received 3) Sent Received = Some x \<and>
    tr_span_us (tr_mark (tr_mark tr_init Sent 5) Received 3) Received Sent = Some (- x)"
proof -
  let ?t = "tr_mark (tr_mark tr_init Sent 5) Received 3"
  have "\<forall>s. tr_when ?t s < 2 ^ 63"
  proof
    fix s show "tr_when ?t s < 2 ^ 63"
      by (cases s) (simp_all add: tr_when_def tr_mark_def tr_init_def kStageCount_def)
  qed
  moreover have "tr_has ?t Sent" "tr_has ?t Received" by (simp_all add: tr_has_def tr_mark_def tr_init_def kStageCount_def)
  ultimately show ?thesis using trace_spans [of ?t Sent Received Sent] by blast
qed

end
