(* ===== verification/Impairment.thy ===== *)
theory Impairment
  imports Double64
begin

text \<open>
  The network impairment engine (core/include/radio/impairment.hpp, core/src/sim/impairment.cpp):
  its hand-rolled generator and distributions, the burst chain, the token bucket and the decision on
  one packet. The elementary functions of \<open><cmath>\<close>, whose rounding the standard leaves open, are an
  argument. The theory proves that every packet is counted once, that a reset replays the run, that
  the generator does not repeat itself within \<open>2^64\<close> draws, that the bucket stays within its bounds,
  and two things the comments promise and the code does not do.
\<close>

section \<open>Configuration, decisions and state\<close>

datatype jitter_shape = ShapeNone | Uniform | Normal | Pareto

fun shape_to_string :: "jitter_shape \<Rightarrow> string" where
  "shape_to_string ShapeNone = ''none''"
| "shape_to_string Uniform = ''uniform''"
| "shape_to_string Normal = ''normal''"
| "shape_to_string Pareto = ''pareto''"

record impairment =
  im_base_delay_us :: micros
  im_jitter_us :: micros
  im_jitter_shape :: jitter_shape
  im_loss_percent :: double
  im_burst_loss_percent :: double
  im_burst_mean_length :: double
  im_duplicate_percent :: double
  im_reorder_percent :: double
  im_reorder_extra_us :: micros
  im_rate_bps :: u64
  im_bucket_bytes :: u32

definition default_impairment :: impairment where
  "default_impairment = \<lparr>im_base_delay_us = 0, im_jitter_us = 0, im_jitter_shape = ShapeNone,
     im_loss_percent = 0, im_burst_loss_percent = 0, im_burst_mean_length = 4, im_duplicate_percent = 0,
     im_reorder_percent = 0, im_reorder_extra_us = 15000, im_rate_bps = 0, im_bucket_bytes = 65536\<rparr>"

datatype im_verdict = Forward | DropIndependent | DropBurst | DropRateLimit

fun im_verdict_to_string :: "im_verdict \<Rightarrow> string" where
  "im_verdict_to_string Forward = ''forward''"
| "im_verdict_to_string DropIndependent = ''drop_independent''"
| "im_verdict_to_string DropBurst = ''drop_burst''"
| "im_verdict_to_string DropRateLimit = ''drop_rate_limit''"

record decision =
  dc_verdict :: im_verdict
  dc_delay_us :: micros
  dc_duplicate :: bool
  dc_duplicate_delay_us :: micros
  dc_reorder_applied :: bool

definition default_decision :: decision where
  "default_decision = \<lparr>dc_verdict = Forward, dc_delay_us = 0, dc_duplicate = False, dc_duplicate_delay_us = 0,
     dc_reorder_applied = False\<rparr>"

definition dc_forwarded :: "decision \<Rightarrow> bool" where "dc_forwarded d \<longleftrightarrow> dc_verdict d = Forward"

record im_counters =
  ic_considered :: u64
  ic_forwarded :: u64
  ic_dropped_independent :: u64
  ic_dropped_burst :: u64
  ic_dropped_rate_limit :: u64
  ic_duplicated :: u64
  ic_reordered :: u64
  ic_bursts_entered :: u64

definition zero_counters :: im_counters where
  "zero_counters = \<lparr>ic_considered = 0, ic_forwarded = 0, ic_dropped_independent = 0, ic_dropped_burst = 0,
     ic_dropped_rate_limit = 0, ic_duplicated = 0, ic_reordered = 0, ic_bursts_entered = 0\<rparr>"

record engine =
  en_config :: impairment
  en_seed :: u64
  en_state :: u64
  en_p_good_to_bad :: double
  en_p_bad_to_good :: double
  en_in_burst :: bool
  en_spare_normal :: double
  en_has_spare_normal :: bool
  en_bucket_tokens :: double
  en_bucket_updated_us :: micros
  en_bucket_started :: bool
  en_counters :: im_counters

text \<open>\<open>std::sqrt\<close>, \<open>std::log\<close>, \<open>std::sin\<close>, \<open>std::cos\<close> and \<open>std::pow\<close> on doubles.\<close>

record cmath =
  cm_sqrt :: "double \<Rightarrow> double"
  cm_log :: "double \<Rightarrow> double"
  cm_sin :: "double \<Rightarrow> double"
  cm_cos :: "double \<Rightarrow> double"
  cm_pow :: "double \<Rightarrow> double \<Rightarrow> double"

section \<open>Operations\<close>

text \<open>The mixing of a state, and \<open>splitmix64\<close>: the draw and the new state.\<close>

definition splitmix_out :: "u64 \<Rightarrow> u64" where
  "splitmix_out state =
     (let z = state;
          z = (z XOR drop_bit 30 z) * 0xBF58476D1CE4E5B9;
          z = (z XOR drop_bit 27 z) * 0x94D049BB133111EB in
      z XOR drop_bit 31 z)"

definition splitmix64 :: "u64 \<Rightarrow> u64 \<times> u64" where
  "splitmix64 state0 = (let state = state0 + 0x9E3779B97F4A7C15 in (splitmix_out state, state))"

definition kPi :: double where "kPi = rnd 3.14159265358979323846"
definition kParetoAlpha :: double where "kParetoAlpha = 3 / 2"
definition kNormalClampSigma :: double where "kNormalClampSigma = 3"

definition clamp_percent :: "double \<Rightarrow> double" where
  "clamp_percent v = (if v < 0 then 0 else if v > 100 then 100 else v)"

definition en_reset :: "engine \<Rightarrow> engine" where
  "en_reset e =
     e\<lparr>en_state := en_seed e, en_in_burst := False, en_has_spare_normal := False, en_spare_normal := 0,
       en_bucket_tokens := d_of_int (uint (im_bucket_bytes (en_config e))), en_bucket_updated_us := 0,
       en_bucket_started := False, en_counters := zero_counters\<rparr>"

definition en_zero :: engine where
  "en_zero = \<lparr>en_config = default_impairment, en_seed = 0, en_state = 0, en_p_good_to_bad = 0,
     en_p_bad_to_good = 0, en_in_burst = False, en_spare_normal = 0, en_has_spare_normal = False,
     en_bucket_tokens = 0, en_bucket_updated_us = 0, en_bucket_started = False, en_counters = zero_counters\<rparr>"

definition en_make :: "impairment \<Rightarrow> u64 \<Rightarrow> engine" where
  "en_make config seed =
     (let c = config\<lparr>im_loss_percent := clamp_percent (im_loss_percent config),
                     im_burst_loss_percent := clamp_percent (im_burst_loss_percent config),
                     im_duplicate_percent := clamp_percent (im_duplicate_percent config),
                     im_reorder_percent := clamp_percent (im_reorder_percent config)\<rparr>;
          c = (if im_burst_mean_length c < 1 then c\<lparr>im_burst_mean_length := 1\<rparr> else c);
          loss_fraction = d_div (im_burst_loss_percent c) 100;
          e = en_zero\<lparr>en_config := c, en_seed := seed\<rparr>;
          e = (if loss_fraction > 0 \<and> loss_fraction < 1 then
                 let p_bg = d_div 1 (im_burst_mean_length c) in
                 e\<lparr>en_p_bad_to_good := p_bg,
                   en_p_good_to_bad := d_div (d_mul loss_fraction p_bg) (d_sub 1 loss_fraction)\<rparr>
               else if loss_fraction \<ge> 1 then e\<lparr>en_p_good_to_bad := 1, en_p_bad_to_good := 0\<rparr>
               else e) in
      en_reset e)"

definition next_bits :: "engine \<Rightarrow> u64 \<times> engine" where
  "next_bits e = (let (z, s) = splitmix64 (en_state e) in (z, e\<lparr>en_state := s\<rparr>))"

definition next_unit :: "engine \<Rightarrow> double \<times> engine" where
  "next_unit e = (let (z, e) = next_bits e in (d_mul (d_of_u64 (drop_bit 11 z)) (1 / 2 ^ 53), e))"

definition next_normal :: "cmath \<Rightarrow> engine \<Rightarrow> double \<times> engine" where
  "next_normal m e =
     (if en_has_spare_normal e then (en_spare_normal e, e\<lparr>en_has_spare_normal := False\<rparr>)
      else
        let (u1, e) = next_unit e;
            (u2, e) = next_unit e;
            u1 = (if u1 \<le> 0 then 1 / 2 ^ 53 else u1);
            magnitude = cm_sqrt m (d_mul (- 2) (cm_log m u1));
            angle = d_mul (d_mul 2 kPi) u2 in
        (d_mul magnitude (cm_cos m angle),
         e\<lparr>en_spare_normal := d_mul magnitude (cm_sin m angle), en_has_spare_normal := True\<rparr>))"

text \<open>The offset drawn for the shape.\<close>

definition draw_offset :: "cmath \<Rightarrow> engine \<Rightarrow> double \<times> engine" where
  "draw_offset m e =
     (let scale = d_of_u64 (im_jitter_us (en_config e)) in
      case im_jitter_shape (en_config e) of
        Uniform \<Rightarrow> let (u, e) = next_unit e in (d_mul (d_sub (d_mul u 2) 1) scale, e)
      | Normal \<Rightarrow>
          let (sigma, e) = next_normal m e;
              sigma = (if sigma > kNormalClampSigma then kNormalClampSigma else sigma);
              sigma = (if sigma < - kNormalClampSigma then - kNormalClampSigma else sigma) in
          (d_mul sigma scale, e)
      | Pareto \<Rightarrow>
          let (u, e) = next_unit e;
              u = (if u \<le> 0 then 1 / 2 ^ 53 else u) in
          (d_sub (d_div scale (cm_pow m u (d_div 1 kParetoAlpha))) scale, e)
      | ShapeNone \<Rightarrow> (0, e))"

text \<open>\<open>None\<close>: the conversion of the total to \<open>Micros\<close> is undefined.\<close>

definition draw_jitter :: "cmath \<Rightarrow> engine \<Rightarrow> (micros \<times> engine) option" where
  "draw_jitter m e =
     (if im_jitter_us (en_config e) = 0 \<or> im_jitter_shape (en_config e) = ShapeNone then Some (0, e)
      else
        let (offset, e') = draw_offset m e;
            total = d_add (d_of_u64 (im_base_delay_us (en_config e))) offset in
        if total \<le> 0 then Some (0, e')
        else map_option (\<lambda>t. (t - im_base_delay_us (en_config e), e')) (u64_of_d total))"

definition draw_delay :: "cmath \<Rightarrow> engine \<Rightarrow> (micros \<times> engine) option" where
  "draw_delay m e = map_option (\<lambda>(j, e'). (im_base_delay_us (en_config e) + j, e')) (draw_jitter m e)"

definition rate_limit_allows :: "engine \<Rightarrow> nat \<Rightarrow> micros \<Rightarrow> bool \<times> engine" where
  "rate_limit_allows e n now =
     (if im_rate_bps (en_config e) = 0 then (True, e)
      else
        let e = (if \<not> en_bucket_started e then e\<lparr>en_bucket_updated_us := now, en_bucket_started := True\<rparr> else e);
            elapsed = (if now > en_bucket_updated_us e then now - en_bucket_updated_us e else 0);
            bytes_per_us = d_div (d_div (d_of_u64 (im_rate_bps (en_config e))) 8) 1000000;
            tokens = d_add (en_bucket_tokens e) (d_mul (d_of_u64 elapsed) bytes_per_us);
            capacity = d_of_int (uint (im_bucket_bytes (en_config e)));
            tokens = (if tokens > capacity then capacity else tokens);
            e = e\<lparr>en_bucket_updated_us := now, en_bucket_tokens := tokens\<rparr>;
            cost = d_of_int (int n) in
        if tokens < cost then (False, e)
        else (True, e\<lparr>en_bucket_tokens := d_sub tokens cost\<rparr>))"

definition advance_burst_state :: "engine \<Rightarrow> engine" where
  "advance_burst_state e =
     (if en_p_good_to_bad e \<le> 0 \<and> en_p_bad_to_good e \<le> 0 then e
      else if en_in_burst e then
        let (u, e) = next_unit e in
        if u < en_p_bad_to_good e then e\<lparr>en_in_burst := False\<rparr> else e
      else
        let (u, e) = next_unit e in
        if u < en_p_good_to_bad e
        then e\<lparr>en_in_burst := True, en_counters := (en_counters e)\<lparr>ic_bursts_entered := ic_bursts_entered (en_counters e) + 1\<rparr>\<rparr>
        else e)"

text \<open>\<open>percent > 0 && next_unit() * 100 < percent\<close>: no draw when the knob is off.\<close>

definition percent_draw :: "double \<Rightarrow> engine \<Rightarrow> bool \<times> engine" where
  "percent_draw percent e =
     (if percent > 0 then let (u, e) = next_unit e in (d_mul u 100 < percent, e) else (False, e))"

definition count :: "(im_counters \<Rightarrow> im_counters) \<Rightarrow> engine \<Rightarrow> engine" where
  "count f e = e\<lparr>en_counters := f (en_counters e)\<rparr>"

definition en_decide :: "cmath \<Rightarrow> engine \<Rightarrow> nat \<Rightarrow> micros \<Rightarrow> (decision \<times> engine) option" where
  "en_decide m e packet_bytes now =
     (let e = count (\<lambda>c. c\<lparr>ic_considered := ic_considered c + 1\<rparr>) e;
          d = default_decision;
          e = advance_burst_state e in
      if en_in_burst e then
        Some (d\<lparr>dc_verdict := DropBurst\<rparr>, count (\<lambda>c. c\<lparr>ic_dropped_burst := ic_dropped_burst c + 1\<rparr>) e)
      else
        let (lost, e) = percent_draw (im_loss_percent (en_config e)) e in
        if lost then
          Some (d\<lparr>dc_verdict := DropIndependent\<rparr>,
                count (\<lambda>c. c\<lparr>ic_dropped_independent := ic_dropped_independent c + 1\<rparr>) e)
        else
          let (allowed, e) = rate_limit_allows e packet_bytes now in
          if \<not> allowed then
            Some (d\<lparr>dc_verdict := DropRateLimit\<rparr>,
                  count (\<lambda>c. c\<lparr>ic_dropped_rate_limit := ic_dropped_rate_limit c + 1\<rparr>) e)
          else do {
            (delay, e) \<leftarrow> draw_delay m e;
            let d = d\<lparr>dc_delay_us := delay\<rparr>;
            let (reorder, e) = percent_draw (im_reorder_percent (en_config e)) e;
            let (d, e) = (if reorder
              then (d\<lparr>dc_delay_us := dc_delay_us d + im_reorder_extra_us (en_config e), dc_reorder_applied := True\<rparr>,
                    count (\<lambda>c. c\<lparr>ic_reordered := ic_reordered c + 1\<rparr>) e)
              else (d, e));
            let (dup, e) = percent_draw (im_duplicate_percent (en_config e)) e;
            (d, e) \<leftarrow> (if dup
              then do {
                (again, e) \<leftarrow> draw_delay m e;
                Some (d\<lparr>dc_duplicate := True, dc_duplicate_delay_us := again\<rparr>,
                      count (\<lambda>c. c\<lparr>ic_duplicated := ic_duplicated c + 1\<rparr>) e)
              }
              else Some (d, e));
            Some (d, count (\<lambda>c. c\<lparr>ic_forwarded := ic_forwarded c + 1\<rparr>) e)
          })"

definition en_dropped_total :: "engine \<Rightarrow> u64" where
  "en_dropped_total e =
     (let c = en_counters e in ic_dropped_independent c + ic_dropped_burst c + ic_dropped_rate_limit c)"

definition en_measured_loss_fraction :: "engine \<Rightarrow> double" where
  "en_measured_loss_fraction e =
     (if ic_considered (en_counters e) = 0 then 0
      else d_div (d_of_u64 (en_dropped_total e)) (d_of_u64 (ic_considered (en_counters e))))"

section \<open>The generator\<close>

text \<open>The three mixing steps are injective: a xor-shift cancels only on 0, and the factors are odd.\<close>

lemma xorshift_inj: "x XOR drop_bit k x = y XOR drop_bit k y \<Longrightarrow> 0 < k \<Longrightarrow> x = y" for x y :: u64
proof -
  assume eq: "x XOR drop_bit k x = y XOR drop_bit k y" and k: "0 < k"
  define d where "d = x XOR y"
  have "d = drop_bit k d"
  proof (rule bit_word_eqI)
    fix n assume "n < LENGTH(64)"
    have "bit (x XOR drop_bit k x) n = bit (y XOR drop_bit k y) n" using eq by simp
    then show "bit d n = bit (drop_bit k d) n" by (auto simp: d_def bit_simps)
  qed
  then have "unat d = unat (drop_bit k d)" by (rule arg_cong)
  also have "\<dots> = unat d div 2 ^ k"
    using unat_lt2p [of d] by (subst unsigned_drop_bit_eq) (simp add: drop_bit_eq_div take_bit_nat_eq_self)
  finally have half: "unat d = unat d div 2 ^ k" .
  have "unat d = 0"
  proof (rule ccontr)
    assume "unat d \<noteq> 0"
    moreover have "(1 :: nat) < 2 ^ k" by (rule one_less_power) (use k in simp_all)
    ultimately have "unat d div 2 ^ k < unat d" by (intro div_less_dividend) simp_all
    then show False using half by simp
  qed
  then have "d = 0" by (simp add: unat_eq_0)
  then have "x XOR y = 0" by (simp add: d_def)
  then have "x XOR (y XOR y) = 0 XOR y" by (metis xor.assoc)
  then show "x = y" by simp
qed

lemma mult_cancel: "c * c' = 1 \<Longrightarrow> x * c = y * c \<Longrightarrow> x = y" for c c' x y :: u64
proof -
  assume c: "c * c' = 1" and eq: "x * c = y * c"
  have "x * (c * c') = y * (c * c')" using eq by (simp flip: mult.assoc)
  then show "x = y" by (simp add: c)
qed

lemma splitmix_out_inj: "splitmix_out x = splitmix_out y \<Longrightarrow> x = y"
proof -
  have "(0xBF58476D1CE4E5B9 :: u64) * 0x96DE1B173F119089 = 1" "(0x94D049BB133111EB :: u64) * 0x319642B2D24D8EC3 = 1"
    by simp_all
  note cancel = mult_cancel [OF this(1)] mult_cancel [OF this(2)]
  define f where "f z = (z XOR drop_bit 30 z) * (0xBF58476D1CE4E5B9 :: u64)" for z
  define g where "g z = (z XOR drop_bit 27 z) * (0x94D049BB133111EB :: u64)" for z
  have out: "splitmix_out z = g (f z) XOR drop_bit 31 (g (f z))" for z
    by (simp only: splitmix_out_def f_def g_def Let_def)
  assume "splitmix_out x = splitmix_out y"
  then have "g (f x) = g (f y)" unfolding out by (rule xorshift_inj) simp
  then have "f x XOR drop_bit 27 (f x) = f y XOR drop_bit 27 (f y)" unfolding g_def by (rule cancel(2))
  then have "f x = f y" by (rule xorshift_inj) simp
  then have "x XOR drop_bit 30 x = y XOR drop_bit 30 y" unfolding f_def by (rule cancel(1))
  then show "x = y" by (rule xorshift_inj) simp
qed

text \<open>The states are the multiples of the increment added to the seed.\<close>

definition nth_state :: "u64 \<Rightarrow> nat \<Rightarrow> u64" where
  "nth_state seed n = seed + of_nat n * 0x9E3779B97F4A7C15"

lemma splitmix_iterate: "((snd \<circ> splitmix64) ^^ n) seed = nth_state seed n"
  by (induction n) (simp_all add: nth_state_def splitmix64_def Let_def algebra_simps)

text \<open>
  The generator does not repeat itself: for any seed, the first \<open>2^64\<close> draws are all different.
\<close>

lemma splitmix_no_repeat:
  assumes "i < j" "j < 2 ^ 64"
  shows "fst (splitmix64 (((snd \<circ> splitmix64) ^^ i) seed)) \<noteq> fst (splitmix64 (((snd \<circ> splitmix64) ^^ j) seed))"
proof
  have draw: "fst (splitmix64 (nth_state seed n)) = splitmix_out (nth_state seed (Suc n))" for n
    by (simp add: splitmix64_def nth_state_def Let_def algebra_simps)
  assume "fst (splitmix64 (((snd \<circ> splitmix64) ^^ i) seed)) = fst (splitmix64 (((snd \<circ> splitmix64) ^^ j) seed))"
  then have "nth_state seed (Suc i) = nth_state seed (Suc j)"
    unfolding splitmix_iterate draw by (rule splitmix_out_inj)
  then have "(of_nat i :: u64) * 0x9E3779B97F4A7C15 = of_nat j * 0x9E3779B97F4A7C15"
    by (simp add: nth_state_def algebra_simps)
  then have "(of_nat i :: u64) = of_nat j"
    by (rule mult_cancel [where c' = "0xF1DE83E19937733D", rotated]) simp
  then have "unat (of_nat i :: u64) = unat (of_nat j :: u64)" by (rule arg_cong)
  moreover have "unat (of_nat i :: u64) = i" "unat (of_nat j :: u64) = j"
    using assms by (simp_all add: unat_of_nat_small)
  ultimately show False using assms(1) by linarith
qed

lemma splitmix_no_repeat_witness:
  "fst (splitmix64 (((snd \<circ> splitmix64) ^^ 0) 1)) \<noteq> fst (splitmix64 (((snd \<circ> splitmix64) ^^ 5) 1))"
  using splitmix_no_repeat [of 0 5 1] by (simp del: funpow.simps)

lemma unit_exact: "0 \<le> k \<Longrightarrow> k < 2 ^ 53 \<Longrightarrow> rnd (of_int k * (1 / 2 ^ 53)) = of_int k * (1 / 2 ^ 53)"
  using rnd_representable [of k "- 53"] by (simp add: power_int_def power_one_over)

text \<open>A unit draw is a multiple of \<open>2^-53\<close> in \<open>[0, 1)\<close>, with no rounding.\<close>

lemma next_unit_range: "0 \<le> fst (next_unit e)" "fst (next_unit e) < 1"
  "snd (next_unit e) = e\<lparr>en_state := snd (splitmix64 (en_state e))\<rparr>"
proof -
  obtain z s where zs: "splitmix64 (en_state e) = (z, s)" by (cases "splitmix64 (en_state e)")
  let ?k = "uint (drop_bit 11 z)"
  have k: "0 \<le> ?k" "?k < 2 ^ 53"
  proof -
    have "unat (drop_bit 11 z) = unat z div 2 ^ 11"
      using unat_lt2p [of z] by (subst unsigned_drop_bit_eq) (simp add: drop_bit_eq_div take_bit_nat_eq_self)
    also have "\<dots> < 2 ^ 53" using unat_u64 [of z] by simp
    finally show "?k < 2 ^ 53" unfolding uint_nat by (simp only: of_nat_less_numeral_power_cancel_iff)
  qed simp
  have "d_of_u64 (drop_bit 11 z) = of_int ?k" using k by (simp only: d_of_u64_def d_of_int_exact)
  then have u: "fst (next_unit e) = of_int ?k * (1 / 2 ^ 53)"
    using unit_exact [OF k] by (simp only: next_unit_def next_bits_def zs d_mul_def Let_def prod.case fst_conv)
  show "0 \<le> fst (next_unit e)" unfolding u
  proof (rule mult_nonneg_nonneg)
    show "(0 :: rat) \<le> of_int ?k" using k(1) by (simp only: of_int_0_le_iff)
  qed simp
  have "(of_int ?k :: rat) < of_int (2 ^ 53)" using k(2) by (simp only: of_int_less_iff)
  then show "fst (next_unit e) < 1" unfolding u by simp
  show "snd (next_unit e) = e\<lparr>en_state := snd (splitmix64 (en_state e))\<rparr>"
    by (simp add: next_unit_def next_bits_def zs)
qed


section \<open>What a draw leaves unchanged\<close>

definition undrawn :: "engine \<Rightarrow> engine" where
  "undrawn e = e\<lparr>en_state := 0, en_spare_normal := 0, en_has_spare_normal := False\<rparr>"

lemma undrawn_fields:
  assumes "undrawn e' = undrawn e"
  shows "en_config e' = en_config e" "en_counters e' = en_counters e" "en_in_burst e' = en_in_burst e"
    "en_seed e' = en_seed e" "en_p_good_to_bad e' = en_p_good_to_bad e" "en_p_bad_to_good e' = en_p_bad_to_good e"
    "en_bucket_tokens e' = en_bucket_tokens e"
proof -
  have f: "h (undrawn e') = h (undrawn e)" for h :: "engine \<Rightarrow> 'x" using assms by simp
  show "en_config e' = en_config e" "en_counters e' = en_counters e" "en_in_burst e' = en_in_burst e"
    "en_seed e' = en_seed e" "en_p_good_to_bad e' = en_p_good_to_bad e" "en_p_bad_to_good e' = en_p_bad_to_good e"
    "en_bucket_tokens e' = en_bucket_tokens e"
    using f [of en_config] f [of en_counters] f [of en_in_burst] f [of en_seed] f [of en_p_good_to_bad]
      f [of en_p_bad_to_good] f [of en_bucket_tokens] by (simp_all add: undrawn_def)
qed

lemma undrawn_upd [simp]:
  "undrawn (e\<lparr>en_state := s\<rparr>) = undrawn e" "undrawn (e\<lparr>en_spare_normal := x\<rparr>) = undrawn e"
  "undrawn (e\<lparr>en_has_spare_normal := b\<rparr>) = undrawn e"
  by (simp_all add: undrawn_def)

lemma next_unit_undrawn: "next_unit e = (u, e') \<Longrightarrow> undrawn e' = undrawn e"
  using next_unit_range(3) [of e] by (metis snd_conv undrawn_upd(1))

lemma next_normal_undrawn: "next_normal m e = (u, e') \<Longrightarrow> undrawn e' = undrawn e"
  by (auto simp: next_normal_def Let_def split: if_splits prod.splits dest!: next_unit_undrawn)

lemma draw_offset_undrawn: "draw_offset m e = (x, e') \<Longrightarrow> undrawn e' = undrawn e"
  by (auto simp: draw_offset_def Let_def split: jitter_shape.splits prod.splits
      dest!: next_unit_undrawn next_normal_undrawn)

lemma draw_delay_undrawn: "draw_delay m e = Some (x, e') \<Longrightarrow> undrawn e' = undrawn e"
  by (auto simp: draw_delay_def draw_jitter_def Let_def split: if_splits prod.splits dest!: draw_offset_undrawn)

lemma percent_draw_undrawn: "percent_draw p e = (b, e') \<Longrightarrow> undrawn e' = undrawn e"
  by (auto simp: percent_draw_def Let_def split: if_splits prod.splits dest!: next_unit_undrawn)

lemma rate_limit_frame:
  assumes "rate_limit_allows e n now = (b, e')"
  shows "en_config e' = en_config e" "en_counters e' = en_counters e" "en_in_burst e' = en_in_burst e"
    "en_seed e' = en_seed e" "en_p_good_to_bad e' = en_p_good_to_bad e" "en_p_bad_to_good e' = en_p_bad_to_good e"
  using assms by (auto simp: rate_limit_allows_def Let_def split: if_splits)

lemma advance_burst_frame:
  "en_config (advance_burst_state e) = en_config e" "en_seed (advance_burst_state e) = en_seed e"
  "en_p_good_to_bad (advance_burst_state e) = en_p_good_to_bad e"
  "en_p_bad_to_good (advance_burst_state e) = en_p_bad_to_good e"
  "\<exists>b. en_counters (advance_burst_state e) = (en_counters e)\<lparr>ic_bursts_entered := b\<rparr>"
  "en_bucket_tokens (advance_burst_state e) = en_bucket_tokens e"
proof -
  have u: "snd (next_unit e) = e\<lparr>en_state := snd (splitmix64 (en_state e))\<rparr>" by (rule next_unit_range(3))
  show "en_config (advance_burst_state e) = en_config e" "en_seed (advance_burst_state e) = en_seed e"
    "en_p_good_to_bad (advance_burst_state e) = en_p_good_to_bad e"
    "en_p_bad_to_good (advance_burst_state e) = en_p_bad_to_good e"
    "en_bucket_tokens (advance_burst_state e) = en_bucket_tokens e"
    by (simp_all add: advance_burst_state_def Let_def case_prod_beta u)
  show "\<exists>b. en_counters (advance_burst_state e) = (en_counters e)\<lparr>ic_bursts_entered := b\<rparr>"
    by (simp add: advance_burst_state_def Let_def case_prod_beta u) (metis im_counters.surjective im_counters.update_convs(8))
qed

section \<open>The token bucket\<close>

definition bucket_ok :: "engine \<Rightarrow> bool" where
  "bucket_ok e \<longleftrightarrow> 0 \<le> en_bucket_tokens e \<and> en_bucket_tokens e \<le> d_of_int (uint (im_bucket_bytes (en_config e)))"

lemma bucket_capacity: "d_of_int (uint (im_bucket_bytes c)) = of_int (uint (im_bucket_bytes c))"
  using uint_bounded [of "im_bucket_bytes c"] by (intro d_of_int_exact) simp

lemma rate_limit_bucket:
  assumes "bucket_ok e" "rate_limit_allows e n now = (b, e')"
  shows "bucket_ok e'"
    "im_rate_bps (en_config e) \<noteq> 0 \<Longrightarrow> unat (im_bucket_bytes (en_config e)) < n \<Longrightarrow> n \<le> 2 ^ 53 \<Longrightarrow> \<not> b"
proof -
  let ?cap = "d_of_int (uint (im_bucket_bytes (en_config e)))"
  have cap0: "0 \<le> ?cap" by (rule d_of_int_nonneg) simp
  have rcap: "rnd ?cap = ?cap" unfolding bucket_capacity using uint_bounded [of "im_bucket_bytes (en_config e)"]
    by (intro rnd_of_int) simp
  show "bucket_ok e'"
  proof (cases "im_rate_bps (en_config e) = 0")
    case True
    then show ?thesis using assms by (simp add: rate_limit_allows_def)
  next
    case False
    define e1 where "e1 = (if \<not> en_bucket_started e then e\<lparr>en_bucket_updated_us := now, en_bucket_started := True\<rparr> else e)"
    define t where "t = d_add (en_bucket_tokens e1) (d_mul (d_of_u64 (if now > en_bucket_updated_us e1 then now - en_bucket_updated_us e1 else 0))
        (d_div (d_div (d_of_u64 (im_rate_bps (en_config e1))) 8) 1000000))"
    define t' where "t' = (if t > ?cap then ?cap else t)"
    have e1: "en_config e1 = en_config e" "en_bucket_tokens e1 = en_bucket_tokens e" by (simp_all add: e1_def)
    have "0 \<le> t" unfolding t_def d_add_def d_mul_def d_div_def
      using assms(1) e1 by (intro rnd_nonneg add_nonneg_nonneg mult_nonneg_nonneg divide_nonneg_pos)
        (simp_all add: bucket_ok_def)
    then have t': "0 \<le> t'" "t' \<le> ?cap" using cap0 by (simp_all add: t'_def)
    have "0 \<le> d_sub t' (d_of_int (int n))" "d_sub t' (d_of_int (int n)) \<le> ?cap" if "\<not> t' < d_of_int (int n)"
    proof -
      show "0 \<le> d_sub t' (d_of_int (int n))" using that by (simp add: d_sub_def rnd_nonneg)
      have "0 \<le> d_of_int (int n)" by (rule d_of_int_nonneg) simp
      then have "d_sub t' (d_of_int (int n)) \<le> rnd ?cap"
        unfolding d_sub_def using t' that by (intro rnd_mono_nonneg) simp_all
      then show "d_sub t' (d_of_int (int n)) \<le> ?cap" unfolding rcap .
    qed
    moreover have "(b, e') = (if t' < d_of_int (int n) then (False, e1\<lparr>en_bucket_updated_us := now, en_bucket_tokens := t'\<rparr>)
        else (True, e1\<lparr>en_bucket_updated_us := now, en_bucket_tokens := d_sub t' (d_of_int (int n))\<rparr>))"
      using assms(2) False unfolding rate_limit_allows_def Let_def e1_def [symmetric]
      unfolding t_def [symmetric] unfolding e1(1) unfolding t'_def [symmetric]
      by (simp split: if_splits)
    ultimately show ?thesis using t' e1 by (auto simp: bucket_ok_def split: if_splits)
  qed
  assume rate: "im_rate_bps (en_config e) \<noteq> 0" and n: "unat (im_bucket_bytes (en_config e)) < n" "n \<le> 2 ^ 53"
  have "d_of_int (int n) = of_nat n" using n(2) d_of_int_exact [of "int n"] by simp
  moreover have "?cap = of_nat (unat (im_bucket_bytes (en_config e)))" unfolding bucket_capacity by simp
  moreover have "(of_nat (unat (im_bucket_bytes (en_config e))) :: rat) < of_nat n" using n(1) by (simp only: of_nat_less_iff)
  ultimately have "?cap < d_of_int (int n)" by (simp only:)
  then show "\<not> b" using assms(2) rate
    by (auto simp: rate_limit_allows_def Let_def split: if_splits)
qed

lemma bucket_cong:
  "en_config e' = en_config e \<Longrightarrow> en_bucket_tokens e' = en_bucket_tokens e \<Longrightarrow> bucket_ok e' = bucket_ok e"
  by (simp add: bucket_ok_def)

lemma bucket_undrawn: "undrawn e' = undrawn e \<Longrightarrow> bucket_ok e' = bucket_ok e"
  using undrawn_fields [of e' e] by (intro bucket_cong)

section \<open>Counting\<close>

text \<open>The counters after a decision, read off the decision.\<close>

definition counted :: "im_counters \<Rightarrow> decision \<Rightarrow> im_counters \<Rightarrow> bool" where
  "counted c d c' \<longleftrightarrow>
     ic_considered c' = ic_considered c + 1 \<and>
     ic_forwarded c' = ic_forwarded c + (if dc_verdict d = Forward then 1 else 0) \<and>
     ic_dropped_independent c' = ic_dropped_independent c + (if dc_verdict d = DropIndependent then 1 else 0) \<and>
     ic_dropped_burst c' = ic_dropped_burst c + (if dc_verdict d = DropBurst then 1 else 0) \<and>
     ic_dropped_rate_limit c' = ic_dropped_rate_limit c + (if dc_verdict d = DropRateLimit then 1 else 0) \<and>
     ic_duplicated c' = ic_duplicated c + (if dc_duplicate d then 1 else 0) \<and>
     ic_reordered c' = ic_reordered c + (if dc_reorder_applied d then 1 else 0)"

definition fixed :: "engine \<Rightarrow> impairment \<times> u64 \<times> double \<times> double" where
  "fixed e = (en_config e, en_seed e, en_p_good_to_bad e, en_p_bad_to_good e)"

lemma fixed_undrawn: "undrawn e' = undrawn e \<Longrightarrow> fixed e' = fixed e"
  using undrawn_fields [of e' e] by (simp add: fixed_def)

lemma count_fields [simp]:
  "en_counters (count f e) = f (en_counters e)" "fixed (count f e) = fixed e" "en_config (count f e) = en_config e"
  "en_in_burst (count f e) = en_in_burst e"
  "en_bucket_tokens (count f e) = en_bucket_tokens e" "bucket_ok (count f e) = bucket_ok e"
  by (simp_all add: count_def fixed_def bucket_ok_def)

lemma next_unit_count: "next_unit (count f e) = (fst (next_unit e), count f (snd (next_unit e)))"
  by (simp add: next_unit_def next_bits_def count_def Let_def case_prod_beta)

lemma advance_count: "en_in_burst (advance_burst_state (count f e)) = en_in_burst (advance_burst_state e)"
  by (simp add: advance_burst_state_def next_unit_count Let_def case_prod_beta) (simp add: count_def next_unit_range(3))

text \<open>What a decision does: the counters, the constant fields, the burst state and the bucket.\<close>


lemma decide_counted:
  assumes "en_decide m e n now = Some (d, e')"
  shows "counted (en_counters e) d (en_counters e') \<and> fixed e' = fixed e \<and>
    (dc_verdict d \<noteq> Forward \<longrightarrow> d = default_decision\<lparr>dc_verdict := dc_verdict d\<rparr>) \<and>
    (dc_verdict d = DropBurst \<longleftrightarrow> en_in_burst (advance_burst_state e)) \<and>
    (en_in_burst e' \<longleftrightarrow> en_in_burst (advance_burst_state e)) \<and>
    (bucket_ok e \<longrightarrow> bucket_ok e') \<and>
    (bucket_ok e \<and> im_rate_bps (en_config e) \<noteq> 0 \<and> unat (im_bucket_bytes (en_config e)) < n \<and> n \<le> 2 ^ 53 \<longrightarrow>
       dc_verdict d \<noteq> Forward)"
proof -
  define e0 where "e0 = count (\<lambda>c. c\<lparr>ic_considered := ic_considered c + 1\<rparr>) e"
  define e1 where "e1 = advance_burst_state e0"
  have fx: "fixed e1 = fixed e" using advance_burst_frame [of e0] by (simp add: fixed_def e1_def) (simp add: e0_def count_def)
  obtain b where c1: "en_counters e1 = (en_counters e)\<lparr>ic_considered := ic_considered (en_counters e) + 1, ic_bursts_entered := b\<rparr>"
    using advance_burst_frame(5) [of e0] by (auto simp: e1_def e0_def)
  have b1: "bucket_ok e1 = bucket_ok e" using advance_burst_frame(1,6) [of e0] bucket_cong [of e1 e0]
    by (simp add: e1_def) (simp add: e0_def)
  have a1: "en_in_burst (advance_burst_state e) = en_in_burst e1" by (simp add: e1_def e0_def advance_count)
  note D = assms [unfolded en_decide_def Let_def, folded e0_def, folded e1_def]
  show ?thesis
  proof (cases "en_in_burst e1")
    case True
    then have "d = default_decision\<lparr>dc_verdict := DropBurst\<rparr>"
        "e' = count (\<lambda>c. c\<lparr>ic_dropped_burst := ic_dropped_burst c + 1\<rparr>) e1"
      using D [unfolded if_P [OF True]] by simp_all
    then show ?thesis using True by (simp add: counted_def default_decision_def fx c1 b1 a1)
  next
    case False
    obtain lost e2 where l: "percent_draw (im_loss_percent (en_config e1)) e1 = (lost, e2)" by fastforce
    note D1 = D [unfolded if_not_P [OF False] l prod.case]
    have 2: "en_counters e2 = en_counters e1" "fixed e2 = fixed e"
      using undrawn_fields(2) [OF percent_draw_undrawn [OF l]] fixed_undrawn [OF percent_draw_undrawn [OF l]] fx by simp_all
    have b2: "bucket_ok e2 = bucket_ok e" "\<not> en_in_burst e2"
      using bucket_undrawn [OF percent_draw_undrawn [OF l]] undrawn_fields(3) [OF percent_draw_undrawn [OF l]] b1 False by simp_all
    show ?thesis
    proof (cases lost)
      case True
      then have "d = default_decision\<lparr>dc_verdict := DropIndependent\<rparr>"
          "e' = count (\<lambda>c. c\<lparr>ic_dropped_independent := ic_dropped_independent c + 1\<rparr>) e2"
        using D1 [unfolded if_P [OF True]] by simp_all
      then show ?thesis using False by (simp add: counted_def default_decision_def 2 c1 b2 a1)
    next
      case kept: False
      obtain allowed e3 where r: "rate_limit_allows e2 n now = (allowed, e3)" by fastforce
      note D2 = D1 [unfolded if_not_P [OF kept] r prod.case]
      have 3: "en_counters e3 = en_counters e1" "fixed e3 = fixed e"
        using rate_limit_frame [OF r] 2 by (simp_all add: fixed_def)
      have b3: "bucket_ok e \<longrightarrow> bucket_ok e3" "\<not> en_in_burst e3"
        using rate_limit_bucket(1) [OF _ r] rate_limit_frame(3) [OF r] b2 by simp_all
      have big: "\<not> allowed" if "bucket_ok e" "im_rate_bps (en_config e) \<noteq> 0"
          "unat (im_bucket_bytes (en_config e)) < n" "n \<le> 2 ^ 53"
        using rate_limit_bucket(2) [OF _ r] that b2(1) 2(2) by (simp add: fixed_def)
      show ?thesis
      proof (cases allowed)
        case False
        then have "d = default_decision\<lparr>dc_verdict := DropRateLimit\<rparr>"
            "e' = count (\<lambda>c. c\<lparr>ic_dropped_rate_limit := ic_dropped_rate_limit c + 1\<rparr>) e3"
          using D2 by simp_all
        then show ?thesis using b3 \<open>\<not> en_in_burst e1\<close> by (simp add: counted_def default_decision_def 3 c1 a1)
      next
        case True
        then have "\<not> \<not> allowed" by simp
        note D3 = D2 [unfolded if_not_P [OF this]]
        obtain delay e4 where dl: "draw_delay m e3 = Some (delay, e4)"
          using D3 by (cases "draw_delay m e3") auto
        note D4 = D3 [unfolded dl bind.bind_lunit prod.case]
        obtain re e5 where ro: "percent_draw (im_reorder_percent (en_config e4)) e4 = (re, e5)" by fastforce
        have 5: "en_counters e5 = en_counters e1" "fixed e5 = fixed e"
          using undrawn_fields(2) [OF draw_delay_undrawn [OF dl]] undrawn_fields(2) [OF percent_draw_undrawn [OF ro]]
            fixed_undrawn [OF draw_delay_undrawn [OF dl]] fixed_undrawn [OF percent_draw_undrawn [OF ro]] 3 by simp_all
        have b5: "bucket_ok e5 = bucket_ok e3" "\<not> en_in_burst e5"
          using bucket_undrawn [OF draw_delay_undrawn [OF dl]] bucket_undrawn [OF percent_draw_undrawn [OF ro]]
            undrawn_fields(3) [OF draw_delay_undrawn [OF dl]] undrawn_fields(3) [OF percent_draw_undrawn [OF ro]] b3(2) by simp_all
        define e6 where "e6 = (if re then count (\<lambda>c. c\<lparr>ic_reordered := ic_reordered c + 1\<rparr>) e5 else e5)"
        define d6 where "d6 = (if re then default_decision\<lparr>dc_delay_us := delay + im_reorder_extra_us (en_config e5), dc_reorder_applied := True\<rparr>
          else default_decision\<lparr>dc_delay_us := delay\<rparr>)"
        obtain dup e7 where du: "percent_draw (im_duplicate_percent (en_config e6)) e6 = (dup, e7)" by fastforce
        have 7: "en_counters e7 = en_counters e6" "fixed e7 = fixed e"
          using undrawn_fields(2) [OF percent_draw_undrawn [OF du]] fixed_undrawn [OF percent_draw_undrawn [OF du]] 5(2)
          by (simp_all add: e6_def)
        have b7: "bucket_ok e7 = bucket_ok e3" "\<not> en_in_burst e7"
          using bucket_undrawn [OF percent_draw_undrawn [OF du]] undrawn_fields(3) [OF percent_draw_undrawn [OF du]] b5
          by (simp_all add: e6_def split: if_splits)
        have small: "\<not> (bucket_ok e \<and> im_rate_bps (en_config e) \<noteq> 0 \<and> unat (im_bucket_bytes (en_config e)) < n \<and> n \<le> 2 ^ 53)"
          using big True by blast
        have rest: "(if dup then do { (again, e) \<leftarrow> draw_delay m e7;
              Some (d6\<lparr>dc_duplicate := True, dc_duplicate_delay_us := again\<rparr>, count (\<lambda>c. c\<lparr>ic_duplicated := ic_duplicated c + 1\<rparr>) e) }
            else Some (d6, e7)) \<bind> (\<lambda>(d, e). Some (d, count (\<lambda>c. c\<lparr>ic_forwarded := ic_forwarded c + 1\<rparr>) e)) = Some (d, e')"
          using D4 ro du by (cases re; cases dup) (simp_all add: e6_def d6_def)
        have c6: "en_counters e6 = (en_counters e)\<lparr>ic_considered := ic_considered (en_counters e) + 1, ic_bursts_entered := b,
            ic_reordered := ic_reordered (en_counters e) + (if re then 1 else 0)\<rparr>"
          using 5(1) c1 by (simp add: e6_def)
        have v: "dc_verdict d6 = Forward" "dc_reorder_applied d6 = re" "\<not> dc_duplicate d6"
          by (simp_all add: d6_def default_decision_def)
        show ?thesis
        proof (cases dup)
          case True
          then obtain again e8 where a: "draw_delay m e7 = Some (again, e8)" using rest by (auto split: Option.bind_splits)
          have "en_counters e8 = en_counters e7" "fixed e8 = fixed e"
            using undrawn_fields(2) [OF draw_delay_undrawn [OF a]] fixed_undrawn [OF draw_delay_undrawn [OF a]] 7(2) by simp_all
          moreover have "d = d6\<lparr>dc_duplicate := True, dc_duplicate_delay_us := again\<rparr>"
              "e' = count (\<lambda>c. c\<lparr>ic_forwarded := ic_forwarded c + 1\<rparr>) (count (\<lambda>c. c\<lparr>ic_duplicated := ic_duplicated c + 1\<rparr>) e8)"
            using rest True a by simp_all
          moreover have "bucket_ok e8 = bucket_ok e3" "\<not> en_in_burst e8"
            using bucket_undrawn [OF draw_delay_undrawn [OF a]] undrawn_fields(3) [OF draw_delay_undrawn [OF a]] b7 by simp_all
          ultimately show ?thesis using v b3(1) small \<open>\<not> en_in_burst e1\<close> by (simp add: counted_def 7(1) c6 a1)
        next
          case False
          then have "d = d6" "e' = count (\<lambda>c. c\<lparr>ic_forwarded := ic_forwarded c + 1\<rparr>) e7" using rest by simp_all
          then show ?thesis using v 7 b7 b3(1) small \<open>\<not> en_in_burst e1\<close> by (simp add: counted_def c6 a1)
        qed
      qed
    qed
  qed
qed


section \<open>Runs\<close>

fun en_run :: "cmath \<Rightarrow> engine \<Rightarrow> (nat \<times> micros) list \<Rightarrow> (decision list \<times> engine) option" where
  "en_run m e [] = Some ([], e)"
| "en_run m e ((n, now) # ps) =
     do { (d, e) \<leftarrow> en_decide m e n now; (ds, e) \<leftarrow> en_run m e ps; Some (d # ds, e) }"

lemma en_run_ConsE:
  assumes "en_run m e ((n, now) # ps) = Some (ds, e')"
  obtains d e1 ds1 where "en_decide m e n now = Some (d, e1)" "en_run m e1 ps = Some (ds1, e')" "ds = d # ds1"
  using assms by (auto split: Option.bind_splits)

definition tally :: "(decision \<Rightarrow> bool) \<Rightarrow> decision list \<Rightarrow> u64" where
  "tally P ds = of_nat (length (filter P ds))"

lemma tally_Cons [simp]: "tally P (d # ds) = (if P d then 1 else 0) + tally P ds"
  by (simp add: tally_def)

lemma tally_Nil [simp]: "tally P [] = 0"
  by (simp add: tally_def)

lemma run_counted:
  "en_run m e ps = Some (ds, e') \<Longrightarrow>
   (let c = en_counters e; c' = en_counters e' in
     ic_considered c' = ic_considered c + of_nat (length ps) \<and>
     ic_forwarded c' = ic_forwarded c + tally dc_forwarded ds \<and>
     ic_dropped_independent c' = ic_dropped_independent c + tally (\<lambda>d. dc_verdict d = DropIndependent) ds \<and>
     ic_dropped_burst c' = ic_dropped_burst c + tally (\<lambda>d. dc_verdict d = DropBurst) ds \<and>
     ic_dropped_rate_limit c' = ic_dropped_rate_limit c + tally (\<lambda>d. dc_verdict d = DropRateLimit) ds \<and>
     ic_duplicated c' = ic_duplicated c + tally (\<lambda>d. dc_forwarded d \<and> dc_duplicate d) ds \<and>
     ic_reordered c' = ic_reordered c + tally (\<lambda>d. dc_forwarded d \<and> dc_reorder_applied d) ds) \<and>
   fixed e' = fixed e \<and> length ds = length ps"
proof (induction ps arbitrary: e ds)
  case (Cons p ps)
  obtain n now where p: "p = (n, now)" by (cases p)
  obtain d e1 ds1 where s: "en_decide m e n now = Some (d, e1)" "en_run m e1 ps = Some (ds1, e')" "ds = d # ds1"
    using Cons.prems unfolding p by (rule en_run_ConsE)
  have c: "counted (en_counters e) d (en_counters e1)" and f: "fixed e1 = fixed e"
    and plain: "dc_verdict d \<noteq> Forward \<Longrightarrow> d = default_decision\<lparr>dc_verdict := dc_verdict d\<rparr>"
    using decide_counted [OF s(1)] by blast+
  have "\<not> dc_duplicate d \<and> \<not> dc_reorder_applied d" if "dc_verdict d \<noteq> Forward"
    using arg_cong [OF plain [OF that], of dc_duplicate] arg_cong [OF plain [OF that], of dc_reorder_applied]
    by (simp add: default_decision_def)
  then have "(dc_forwarded d \<and> dc_duplicate d) = dc_duplicate d" "(dc_forwarded d \<and> dc_reorder_applied d) = dc_reorder_applied d"
    by (auto simp: dc_forwarded_def)
  then show ?case using Cons.IH [OF s(2)] c f
    by (simp add: s(3) counted_def Let_def dc_forwarded_def add.assoc)
qed simp

lemma make_is_reset: "en_reset (en_make config seed) = en_make config seed"
  by (simp add: en_make_def en_reset_def Let_def)

lemma reset_fixed: "fixed e' = fixed e \<Longrightarrow> en_reset e' = en_reset e"
  by (cases e; cases e') (simp add: fixed_def en_reset_def)

lemma make_counters: "en_counters (en_make config seed) = zero_counters"
  by (simp add: en_make_def en_reset_def Let_def)

text \<open>
  Every packet is counted once: after any run the counters are exactly the numbers of decisions
  of each kind, duplicates and reorderings are counted only on forwarded packets, and the packets
  considered are those forwarded plus \<open>dropped_total\<close>.
\<close>

lemma impairment_counts:
  assumes "en_run m (en_make config seed) ps = Some (ds, e)"
  shows "let c = en_counters e in
    length ds = length ps \<and> ic_considered c = of_nat (length ps) \<and>
    ic_considered c = ic_forwarded c + en_dropped_total e \<and>
    ic_forwarded c = tally dc_forwarded ds \<and>
    en_dropped_total e = tally (\<lambda>d. \<not> dc_forwarded d) ds \<and>
    ic_dropped_burst c = tally (\<lambda>d. dc_verdict d = DropBurst) ds \<and>
    ic_duplicated c = tally (\<lambda>d. dc_forwarded d \<and> dc_duplicate d) ds \<and>
    ic_reordered c = tally (\<lambda>d. dc_forwarded d \<and> dc_reorder_applied d) ds"
proof -
  have split: "tally (\<lambda>d. \<not> dc_forwarded d) ds = tally (\<lambda>d. dc_verdict d = DropIndependent) ds +
      tally (\<lambda>d. dc_verdict d = DropBurst) ds + tally (\<lambda>d. dc_verdict d = DropRateLimit) ds"
    by (induction ds) (auto simp: dc_forwarded_def, (metis im_verdict.exhaust)+)
  have total: "of_nat (length ds) = tally dc_forwarded ds + tally (\<lambda>d. \<not> dc_forwarded d) ds"
    by (induction ds) simp_all
  show ?thesis
    using run_counted [OF assms] split total
    by (simp add: Let_def make_counters zero_counters_def en_dropped_total_def)
qed

text \<open>
  A scenario replays exactly: whatever packets an engine has seen, \<open>reset\<close> makes it the engine
  its configuration and seed construct, so the same packets get the same decisions.
\<close>

lemma impairment_replays:
  assumes "en_run m (en_make config seed) ps = Some (ds, e)"
  shows "en_reset e = en_make config seed \<and> en_run m (en_reset e) ps = Some (ds, e)"
proof -
  have "en_reset e = en_make config seed"
    using reset_fixed [of e "en_make config seed"] run_counted [OF assms] make_is_reset by metis
  then show ?thesis using assms by simp
qed


text \<open>Library functions for the examples: any functions will do, the examples draw no normals.\<close>

definition flat_cmath :: cmath where
  "flat_cmath = \<lparr>cm_sqrt = id, cm_log = id, cm_sin = id, cm_cos = id, cm_pow = (\<lambda>x y. x)\<rparr>"

definition clean_run :: "engine \<Rightarrow> bool" where
  "clean_run e \<longleftrightarrow> en_run flat_cmath e [(80, 0), (80, 20000)] =
     Some ([default_decision, default_decision],
       e\<lparr>en_counters := zero_counters\<lparr>ic_considered := 2, ic_forwarded := 2\<rparr>\<rparr>)"

lemma clean_run: "clean_run (en_make default_impairment 1)"
  unfolding clean_run_def
  by (simp add: en_make_def en_reset_def en_zero_def default_impairment_def clamp_percent_def d_div_def Let_def
      en_decide_def count_def advance_burst_state_def percent_draw_def rate_limit_allows_def draw_delay_def
      draw_jitter_def default_decision_def zero_counters_def)

lemma impairment_counts_witness:
  "ic_considered (zero_counters\<lparr>ic_considered := 2, ic_forwarded := 2\<rparr>) = tally dc_forwarded [default_decision, default_decision]"
  using impairment_counts [OF clean_run [unfolded clean_run_def]]
  by (simp add: Let_def default_decision_def dc_forwarded_def)

lemma impairment_replays_witness:
  "en_reset ((en_make default_impairment 1)\<lparr>en_counters := zero_counters\<lparr>ic_considered := 2, ic_forwarded := 2\<rparr>\<rparr>) =
    en_make default_impairment 1"
  using impairment_replays [OF clean_run [unfolded clean_run_def]] by simp

text \<open>
  The token bucket never leaves its bounds in spite of the rounding, and a packet larger than the
  bucket is never forwarded by a limited link, at any rate and after any idle time.
\<close>

lemma bucket_bounds:
  assumes "en_run m (en_make config seed) ps = Some (ds, e)"
  shows "0 \<le> en_bucket_tokens e \<and> en_bucket_tokens e \<le> of_int (uint (im_bucket_bytes config)) \<and>
    (im_rate_bps config \<noteq> 0 \<longrightarrow> (\<forall>i<length ps. unat (im_bucket_bytes config) < fst (ps ! i) \<and> fst (ps ! i) \<le> 2 ^ 53 \<longrightarrow>
       \<not> dc_forwarded (ds ! i)))"
proof -
  have conf: "im_bucket_bytes (en_config (en_make config seed)) = im_bucket_bytes config"
    "im_rate_bps (en_config (en_make config seed)) = im_rate_bps config"
    by (simp_all add: en_make_def en_reset_def Let_def en_zero_def)
  have "bucket_ok e' \<and> en_config e' = en_config e \<and> (\<forall>i<length ps. im_rate_bps (en_config e) \<noteq> 0 \<longrightarrow>
      unat (im_bucket_bytes (en_config e)) < fst (ps ! i) \<and> fst (ps ! i) \<le> 2 ^ 53 \<longrightarrow> \<not> dc_forwarded (ds ! i))"
    if "en_run m e ps = Some (ds, e')" "bucket_ok e" for e e' ps ds
    using that
  proof (induction ps arbitrary: e ds)
    case (Cons p ps)
    obtain n now where p: "p = (n, now)" by (cases p)
    obtain d e1 ds1 where s: "en_decide m e n now = Some (d, e1)" "en_run m e1 ps = Some (ds1, e')" "ds = d # ds1"
      using Cons.prems(1) unfolding p by (rule en_run_ConsE)
    have b1: "bucket_ok e1" "en_config e1 = en_config e" using decide_counted [OF s(1)] Cons.prems(2) by (auto simp: fixed_def)
    have big: "\<not> dc_forwarded d" if "im_rate_bps (en_config e) \<noteq> 0" "unat (im_bucket_bytes (en_config e)) < n" "n \<le> 2 ^ 53"
      using decide_counted [OF s(1)] Cons.prems(2) that by (auto simp: dc_forwarded_def)
    show ?case using Cons.IH [OF s(2) b1(1)] b1(2) big by (auto simp: p s(3) nth_Cons split: nat.splits)
  qed simp
  moreover have "bucket_ok (en_make config seed)"
    by (simp add: bucket_ok_def en_make_def en_reset_def Let_def d_of_int_nonneg)
  ultimately have "bucket_ok e" "en_config e = en_config (en_make config seed)"
      "\<forall>i<length ps. im_rate_bps config \<noteq> 0 \<longrightarrow>
        unat (im_bucket_bytes config) < fst (ps ! i) \<and> fst (ps ! i) \<le> 2 ^ 53 \<longrightarrow> \<not> dc_forwarded (ds ! i)"
    using assms conf by metis+
  then show ?thesis using conf unfolding bucket_ok_def bucket_capacity by auto
qed

lemma bucket_bounds_witness:
  "0 \<le> en_bucket_tokens ((en_make default_impairment 1)\<lparr>en_counters := zero_counters\<lparr>ic_considered := 2, ic_forwarded := 2\<rparr>\<rparr>)"
  using bucket_bounds [OF clean_run [unfolded clean_run_def]] by simp

text \<open>
  With a mean burst length of 1 the burst chain never drops two packets in a row: a burst always
  ends at the next packet. It is therefore not the independent loss the configuration comment says it
  is equivalent to, under which two consecutive losses have positive probability; and no setting of
  the rate can make the chain lose more than every other packet.
\<close>

lemma burst_length_one_alternates:
  assumes "1 \<le> im_burst_loss_percent config" "im_burst_loss_percent config \<le> 99" "im_burst_mean_length config \<le> 1"
    and "en_run m (en_make config seed) ps = Some (ds, e)" "Suc i < length ds" "dc_verdict (ds ! i) = DropBurst"
  shows "dc_verdict (ds ! Suc i) \<noteq> DropBurst"
proof -
  have lf: "0 < d_div (im_burst_loss_percent config) 100" "d_div (im_burst_loss_percent config) 100 < 1"
  proof -
    have "rnd (1 / 128) = (1 / 128 :: rat)" using rnd_pow2 [of "- 7"] by (simp add: power_int_def power_one_over)
    moreover have "rnd (1 / 128) \<le> rnd (im_burst_loss_percent config / 100)" using assms(1) by (intro rnd_mono_nonneg) simp_all
    ultimately show "0 < d_div (im_burst_loss_percent config) 100" unfolding d_div_def by simp
    have "rnd (127 / 128) = (127 / 128 :: rat)" using rnd_representable [of 127 "- 7"] by (simp add: power_int_def power_one_over)
    moreover have "rnd (im_burst_loss_percent config / 100) \<le> rnd (127 / 128)" using assms(1,2) by (intro rnd_mono_nonneg) simp_all
    ultimately show "d_div (im_burst_loss_percent config) 100 < 1" unfolding d_div_def by simp
  qed
  have pbg: "en_p_bad_to_good (en_make config seed) = 1"
  proof -
    have "clamp_percent (im_burst_loss_percent config) = im_burst_loss_percent config"
      using assms(1,2) by (simp add: clamp_percent_def)
    then show ?thesis using assms(3) lf
      by (cases "im_burst_mean_length config < 1")
         (simp_all add: en_make_def en_reset_def Let_def, simp_all add: d_div_def)
  qed
  have "dc_verdict (ds ! Suc i) \<noteq> DropBurst"
    if "en_run m e ps = Some (ds, e')" "en_p_bad_to_good e = 1" "Suc i < length ds" "dc_verdict (ds ! i) = DropBurst" for e e' ps ds i
    using that
  proof (induction ps arbitrary: e ds i)
    case (Cons p ps)
    obtain n now where p: "p = (n, now)" by (cases p)
    obtain d e1 ds1 where s: "en_decide m e n now = Some (d, e1)" "en_run m e1 ps = Some (ds1, e')" "ds = d # ds1"
      using Cons.prems(1) unfolding p by (rule en_run_ConsE)
    have p1: "en_p_bad_to_good e1 = 1" using decide_counted [OF s(1)] Cons.prems(2) by (auto simp: fixed_def)
    show ?case
    proof (cases i)
      case (Suc j)
      then show ?thesis using Cons.IH [OF s(2) p1, of j] Cons.prems(3,4) s(3) by simp
    next
      case 0
      then have "dc_verdict d = DropBurst" using Cons.prems(4) s(3) by simp
      then have burst: "en_in_burst e1" using decide_counted [OF s(1)] by blast
      obtain p2 ps2 where ps: "ps = p2 # ps2" using Cons.prems(3) s(2,3) 0 by (cases ps) auto
      obtain n2 now2 where p2: "p2 = (n2, now2)" by (cases p2)
      obtain d2 e2 ds2 where t: "en_decide m e1 n2 now2 = Some (d2, e2)" "ds1 = d2 # ds2"
        using s(2) unfolding ps p2 by (rule en_run_ConsE)
      have "\<not> en_in_burst (advance_burst_state e1)"
        using burst p1 next_unit_range [of e1] by (simp add: advance_burst_state_def Let_def case_prod_beta)
      then have "dc_verdict d2 \<noteq> DropBurst" using decide_counted [OF t(1)] by blast
      then show ?thesis using 0 s(3) t(2) by simp
    qed
  qed simp
  from this [OF assms(4) pbg assms(5,6)] show ?thesis .
qed

definition half_burst :: impairment where
  "half_burst = default_impairment\<lparr>im_burst_loss_percent := 50, im_burst_mean_length := 1\<rparr>"

lemma half_burst_run:
  obtains ds e where "en_run flat_cmath (en_make half_burst 1) [(80, 0), (80, 20000)] = Some (ds, e)"
    "length ds = 2" "dc_verdict (ds ! 0) = DropBurst"
proof -
  have half: "rnd (1 / 2) = (1 / 2 :: rat)" using rnd_pow2 [of "- 1"] by (simp add: power_int_def)
  define e where "e = en_make half_burst 1"
  have e: "en_p_good_to_bad e = 1" "en_p_bad_to_good e = 1" "\<not> en_in_burst e" "im_loss_percent (en_config e) = 0"
    "im_duplicate_percent (en_config e) = 0" "im_reorder_percent (en_config e) = 0" "im_rate_bps (en_config e) = 0"
    "im_jitter_us (en_config e) = 0"
    by (simp_all add: e_def en_make_def half_burst_def default_impairment_def en_zero_def en_reset_def Let_def
        clamp_percent_def d_div_def d_mul_def d_sub_def half)
  define e1 where "e1 = snd (the (en_decide flat_cmath e 80 0))"
  have "en_in_burst (advance_burst_state e)"
    using e(1-3) next_unit_range [of e] by (simp add: advance_burst_state_def Let_def case_prod_beta)
  then have first: "en_decide flat_cmath e 80 0 = Some (default_decision\<lparr>dc_verdict := DropBurst\<rparr>, e1)"
    by (simp add: e1_def en_decide_def Let_def advance_count)
  have e1: "en_in_burst e1" "en_p_bad_to_good e1 = 1" "en_config e1 = en_config e"
    using decide_counted [OF first] \<open>en_in_burst (advance_burst_state e)\<close> e(2) by (simp_all add: fixed_def)
  have "\<not> en_in_burst (advance_burst_state e1)"
    using e1 next_unit_range [of e1] by (simp add: advance_burst_state_def Let_def case_prod_beta)
  moreover have "en_config (advance_burst_state (count f e1)) = en_config e" for f
    using e1(3) advance_burst_frame(1) [of "count f e1"] by simp
  ultimately obtain d e2 where "en_decide flat_cmath e1 80 20000 = Some (d, e2)"
    using e by (simp add: en_decide_def Let_def advance_count percent_draw_def rate_limit_allows_def
        draw_delay_def draw_jitter_def)
  then have "en_run flat_cmath e [(80, 0), (80, 20000)] = Some ([default_decision\<lparr>dc_verdict := DropBurst\<rparr>, d], e2)"
    using first by simp
  then show ?thesis unfolding e_def by (rule that) simp_all
qed

lemma burst_length_one_alternates_witness:
  "\<exists>ds e. en_run flat_cmath (en_make half_burst 1) [(80, 0), (80, 20000)] = Some (ds, e) \<and>
    dc_verdict (ds ! 0) = DropBurst \<and> dc_verdict (ds ! 1) \<noteq> DropBurst"
proof -
  obtain ds e where r: "en_run flat_cmath (en_make half_burst 1) [(80, 0), (80, 20000)] = Some (ds, e)"
    "length ds = 2" "dc_verdict (ds ! 0) = DropBurst" by (rule half_burst_run)
  have "dc_verdict (ds ! Suc 0) \<noteq> DropBurst"
    using burst_length_one_alternates [OF _ _ _ r(1), of 0] r(2,3) by (simp add: half_burst_def)
  then show ?thesis using r by auto
qed

text \<open>
  A draw of jitter that makes the total delay negative releases the packet after the whole base
  delay, not immediately: \<open>draw_jitter\<close> returns 0, where its comment says the total is clamped to
  zero, and \<open>draw_delay\<close> adds the base again. Otherwise the delay is the truncated total.
\<close>

lemma negative_total_keeps_base:
  assumes "im_jitter_us (en_config e) \<noteq> 0" "im_jitter_shape (en_config e) \<noteq> ShapeNone"
  shows "let total = d_add (d_of_u64 (im_base_delay_us (en_config e))) (fst (draw_offset m e)) in
    draw_delay m e =
      (if total \<le> 0 then Some (im_base_delay_us (en_config e), snd (draw_offset m e))
       else map_option (\<lambda>t. (t, snd (draw_offset m e))) (u64_of_d total))"
  using assms by (simp add: draw_delay_def draw_jitter_def Let_def case_prod_beta option.map_comp comp_def)

text \<open>The third seed draws the unit value 0.113: an offset of -773 microseconds on a base of 10.\<close>

definition early_engine :: engine where
  "early_engine = en_make (default_impairment\<lparr>im_base_delay_us := 10, im_jitter_us := 1000, im_jitter_shape := Uniform\<rparr>) 3"

lemma negative_total_keeps_base_witness:
  "d_add 10 (fst (draw_offset flat_cmath early_engine)) < 0 \<and>
   draw_delay flat_cmath early_engine = Some (10, snd (draw_offset flat_cmath early_engine))"
proof -
  have conf: "im_base_delay_us (en_config early_engine) = 10" "im_jitter_us (en_config early_engine) = 1000"
    "im_jitter_shape (en_config early_engine) = Uniform" "en_state early_engine = 3"
    by (simp_all add: early_engine_def en_make_def en_reset_def default_impairment_def en_zero_def Let_def)
  have bits: "fst (splitmix64 3) = 0x1d0b14e4db018fed" by (simp add: splitmix64_def splitmix_out_def Let_def)
  have u: "fst (next_unit early_engine) = rnd (d_of_int 1021869836427313 * (1 / 2 ^ 53))"
    using bits by (simp add: next_unit_def next_bits_def conf case_prod_beta Let_def d_mul_def d_of_u64_def)
  have "fst (next_unit early_engine) = 1021869836427313 / 2 ^ 53"
    unfolding u using unit_exact [of 1021869836427313] d_of_int_exact [of 1021869836427313] by simp
  then have u': "fst (next_unit early_engine) \<le> 1 / 4" "0 \<le> fst (next_unit early_engine)" by simp_all
  have "rnd (fst (next_unit early_engine) * 2) \<le> rnd (1 / 2)" using u' by (intro rnd_mono_nonneg) simp_all
  also have "rnd (1 / 2) = (1 / 2 :: rat)" using rnd_pow2 [of "- 1"] by (simp add: power_int_def)
  finally have "rnd (fst (next_unit early_engine) * 2) \<le> 1 / 2" .
  then have a: "1 / 2 \<le> 1 - rnd (fst (next_unit early_engine) * 2)" by simp
  let ?x = "rnd (rnd (fst (next_unit early_engine) * 2) - 1)"
  have x: "?x \<le> - (1 / 2)"
  proof -
    have "rnd (1 / 2) \<le> rnd (1 - rnd (fst (next_unit early_engine) * 2))" using a by (intro rnd_mono_nonneg) simp_all
    moreover have "?x = - rnd (1 - rnd (fst (next_unit early_engine) * 2))"
      using rnd_minus [of "1 - rnd (fst (next_unit early_engine) * 2)"] by simp
    ultimately show ?thesis using rnd_pow2 [of "- 1"] by (simp add: power_int_def)
  qed
  have y: "rnd (?x * 1000) \<le> - 500"
  proof -
    have "rnd (of_int 500) \<le> rnd (- ?x * 1000)" using x by (intro rnd_mono_nonneg) simp_all
    then show ?thesis using rnd_minus [of "?x * 1000"] rnd_of_int [of 500] by simp
  qed
  have off: "fst (draw_offset flat_cmath early_engine) = rnd (?x * 1000)"
    using d_of_int_exact [of 1000]
    by (simp add: draw_offset_def conf Let_def case_prod_beta d_mul_def d_sub_def d_of_u64_def)
  have "rnd (of_int 490) \<le> rnd (- (10 + rnd (?x * 1000)))" using y by (intro rnd_mono_nonneg) simp_all
  then have neg: "d_add 10 (fst (draw_offset flat_cmath early_engine)) < 0"
    unfolding d_add_def off using rnd_minus [of "10 + rnd (?x * 1000)"] rnd_of_int [of 490] by simp
  moreover have "d_of_u64 (im_base_delay_us (en_config early_engine)) = 10"
    using d_of_int_exact [of 10] by (simp add: conf d_of_u64_def)
  ultimately show ?thesis using negative_total_keeps_base [of early_engine flat_cmath] conf by (simp add: Let_def)
qed

end
