(* ===== verification/Wav.thy ===== *)
theory Wav
  imports Bytes Opus_Codec Double64
begin

text \<open>
  Reading and writing 16-bit PCM WAV files (core/include/radio/wav.hpp, core/src/audio/wav.cpp). The
  reader walks the chunks of an arbitrary file with unchecked pointer reads, so every read of the
  model is checked: the theory proves that none leaves the file, that the walk ends, that an accepted
  file has the shape its header says, and that what the writer reports as written reads back sample
  by sample. The C file functions are arguments of the definitions.
\<close>

section \<open>Results\<close>

record wav_info =
  wi_sample_rate_hz :: u32
  wi_channels :: u16
  wi_bits_per_sample :: u16
  wi_frames :: u64

definition zero_info :: wav_info where
  "zero_info = \<lparr>wi_sample_rate_hz = 0, wi_channels = 0, wi_bits_per_sample = 0, wi_frames = 0\<rparr>"

datatype wav_error = WavNone | CannotOpen | WavTooShort | NotRiff | NotWave | MissingFmtChunk | MissingDataChunk
  | MalformedChunk | UnsupportedEncoding | UnsupportedBitDepth | UnsupportedChannelCount | TruncatedData | WriteFailed

fun wav_error_to_string :: "wav_error \<Rightarrow> string" where
  "wav_error_to_string WavNone = ''none''"
| "wav_error_to_string CannotOpen = ''cannot open file''"
| "wav_error_to_string WavTooShort = ''file too short to be a WAV''"
| "wav_error_to_string NotRiff = ''not a RIFF file''"
| "wav_error_to_string NotWave = ''RIFF file is not WAVE''"
| "wav_error_to_string MissingFmtChunk = ''no fmt chunk''"
| "wav_error_to_string MissingDataChunk = ''no data chunk''"
| "wav_error_to_string MalformedChunk = ''malformed chunk header or size''"
| "wav_error_to_string UnsupportedEncoding = ''not uncompressed PCM''"
| "wav_error_to_string UnsupportedBitDepth = ''not 16-bit''"
| "wav_error_to_string UnsupportedChannelCount = ''unsupported channel count''"
| "wav_error_to_string TruncatedData = ''data chunk shorter than its declared size''"
| "wav_error_to_string WriteFailed = ''write failed''"

definition conversion_hint :: "wav_error \<Rightarrow> string" where
  "conversion_hint e =
     (case e of
        UnsupportedEncoding \<Rightarrow> ''convert it first:  ffmpeg -i in.wav -ar 48000 -ac 1 -c:a pcm_s16le out.wav''
      | UnsupportedBitDepth \<Rightarrow> ''convert it first:  ffmpeg -i in.wav -ar 48000 -ac 1 -c:a pcm_s16le out.wav''
      | UnsupportedChannelCount \<Rightarrow> ''convert it first:  ffmpeg -i in.wav -ar 48000 -ac 1 -c:a pcm_s16le out.wav''
      | NotRiff \<Rightarrow> ''the file is not a WAV; ffmpeg can convert most formats''
      | NotWave \<Rightarrow> ''the file is not a WAV; ffmpeg can convert most formats''
      | _ \<Rightarrow> [])"

record wav_result =
  wr_error :: wav_error
  wr_info :: wav_info
  wr_samples :: pcm

definition wav_ok :: "wav_result \<Rightarrow> bool" where "wav_ok r \<longleftrightarrow> wr_error r = WavNone"

definition wav_duration_seconds :: "wav_info \<Rightarrow> double" where
  "wav_duration_seconds i =
     (if wi_sample_rate_hz i = 0 then 0
      else d_div (d_of_u64 (wi_frames i)) (d_of_int (uint (wi_sample_rate_hz i))))"

section \<open>The reader\<close>

definition kFormatPcm :: u16 where "kFormatPcm = 0x0001"
definition kFormatExtensible :: u16 where "kFormatExtensible = 0xFFFE"
definition kRiffHeaderBytes :: nat where "kRiffHeaderBytes = 12"
definition kChunkHeaderBytes :: nat where "kChunkHeaderBytes = 8"
definition kMinFmtBytes :: nat where "kMinFmtBytes = 16"

fun tag_equals :: "bytes \<Rightarrow> nat \<Rightarrow> string \<Rightarrow> bool option" where
  "tag_equals f p [] = Some True"
| "tag_equals f p (c # cs) = do { b \<leftarrow> rd f p; if b \<noteq> of_char c then Some False else tag_equals f (p + 1) cs }"

text \<open>
  The file as the C library shows it: \<open>None\<close> when it cannot be opened, otherwise what \<open>ftell\<close>
  reports at its end and the bytes that \<open>fread\<close> can deliver.
\<close>

definition read_whole_file :: "(int \<times> bytes) option \<Rightarrow> bytes option" where
  "read_whole_file file = map_option (\<lambda>(size, content). if size > 0 then take (nat size) content else []) file"

record wav_walk =
  ww_have_fmt :: bool
  ww_encoding :: u16
  ww_info :: wav_info
  ww_data_start :: "nat option"
  ww_data_bytes :: nat

definition walk_init :: wav_walk where
  "walk_init = \<lparr>ww_have_fmt = False, ww_encoding = 0, ww_info = zero_info, ww_data_start = None, ww_data_bytes = 0\<rparr>"

text \<open>The body of a \<open>fmt\<close> chunk: an early return (\<open>Inl\<close>) keeps the fields read so far.\<close>

definition wav_fmt :: "bytes \<Rightarrow> nat \<Rightarrow> nat \<Rightarrow> wav_walk \<Rightarrow> ((wav_error \<times> wav_walk) + wav_walk) option" where
  "wav_fmt f body chunk_size w =
     (if chunk_size < kMinFmtBytes then Some (Inl (MalformedChunk, w))
      else do {
        encoding \<leftarrow> load_le16 f body;
        channels \<leftarrow> load_le16 f (body + 2);
        rate \<leftarrow> load_le32 f (body + 4);
        bits \<leftarrow> load_le16 f (body + 14);
        let w = w\<lparr>ww_encoding := encoding,
                  ww_info := (ww_info w)\<lparr>wi_channels := channels, wi_sample_rate_hz := rate, wi_bits_per_sample := bits\<rparr>\<rparr>;
        if encoding = kFormatExtensible then
          (if chunk_size < 40 then Some (Inl (MalformedChunk, w))
           else do { sub \<leftarrow> load_le16 f (body + 24); Some (Inr (w\<lparr>ww_encoding := sub, ww_have_fmt := True\<rparr>)) })
        else Some (Inr (w\<lparr>ww_have_fmt := True\<rparr>))
      })"

text \<open>One iteration: an error, or the next offset.\<close>

definition wav_chunk :: "bytes \<Rightarrow> nat \<Rightarrow> wav_walk \<Rightarrow> ((wav_error \<times> wav_walk) + (nat \<times> wav_walk)) option" where
  "wav_chunk f offset w = do {
     size \<leftarrow> load_le32 f (offset + 4);
     let chunk_size = unat size;
     let body = offset + kChunkHeaderBytes;
     if chunk_size > length f - body then do {
       is_data \<leftarrow> tag_equals f offset ''data'';
       Some (Inl (if is_data then TruncatedData else MalformedChunk, w))
     } else do {
       is_fmt \<leftarrow> tag_equals f offset ''fmt '';
       r \<leftarrow> (if is_fmt then wav_fmt f body chunk_size w
             else do {
               is_data \<leftarrow> tag_equals f offset ''data'';
               Some (Inr (if is_data then w\<lparr>ww_data_start := Some body, ww_data_bytes := chunk_size\<rparr> else w))
             });
       Some (case r of Inl e \<Rightarrow> Inl e | Inr w \<Rightarrow> Inr (body + chunk_size + chunk_size mod 2, w))
     }
   }"

lemma wav_chunk_progress: "wav_chunk f offset w = Some (Inr (offset', w')) \<Longrightarrow> offset < offset'"
  by (auto simp: wav_chunk_def kChunkHeaderBytes_def Let_def split: Option.bind_splits if_splits sum.splits)

text \<open>The chunk loop ends because every iteration moves past a chunk header.\<close>

function wav_walk_chunks :: "bytes \<Rightarrow> nat \<Rightarrow> wav_walk \<Rightarrow> ((wav_error \<times> wav_walk) + wav_walk) option" where
  "wav_walk_chunks f offset w =
     (if offset + kChunkHeaderBytes \<le> length f then
        (case wav_chunk f offset w of
           None \<Rightarrow> None
         | Some (Inl e) \<Rightarrow> Some (Inl e)
         | Some (Inr (offset', w')) \<Rightarrow> wav_walk_chunks f offset' w')
      else Some (Inr w))"
  by pat_completeness auto
termination
  by (relation "measure (\<lambda>(f, offset, w). length f - offset)")
     (auto simp: kChunkHeaderBytes_def dest!: wav_chunk_progress)

declare wav_walk_chunks.simps [simp del] tag_equals.simps [simp del]

definition wav_fail :: "wav_error \<Rightarrow> wav_info \<Rightarrow> wav_result" where
  "wav_fail e i = \<lparr>wr_error = e, wr_info = i, wr_samples = []\<rparr>"

definition wav_decode :: "bytes \<Rightarrow> wav_walk \<Rightarrow> wav_result option" where
  "wav_decode f w =
     (let i = ww_info w in
      if \<not> ww_have_fmt w then Some (wav_fail MissingFmtChunk i)
      else case ww_data_start w of
        None \<Rightarrow> Some (wav_fail MissingDataChunk i)
      | Some start \<Rightarrow>
          if ww_encoding w \<noteq> kFormatPcm then Some (wav_fail UnsupportedEncoding i)
          else if wi_bits_per_sample i \<noteq> 16 then Some (wav_fail UnsupportedBitDepth i)
          else if wi_channels i = 0 \<or> wi_channels i > 8 then Some (wav_fail UnsupportedChannelCount i)
          else
            let bytes_per_frame = unat (wi_channels i) * 2;
                whole = (ww_data_bytes w div bytes_per_frame) * bytes_per_frame in do {
              samples \<leftarrow> those (map (\<lambda>k. load_le16 f (start + k * 2)) [0..<whole div 2]);
              Some \<lparr>wr_error = WavNone, wr_info = i\<lparr>wi_frames := of_nat (whole div bytes_per_frame)\<rparr>, wr_samples = samples\<rparr>
            })"

definition read_wav :: "(int \<times> bytes) option \<Rightarrow> wav_result option" where
  "read_wav file =
     (case read_whole_file file of
        None \<Rightarrow> Some (wav_fail CannotOpen zero_info)
      | Some f \<Rightarrow>
          if length f < kRiffHeaderBytes then Some (wav_fail WavTooShort zero_info)
          else do {
            riff \<leftarrow> tag_equals f 0 ''RIFF'';
            if \<not> riff then Some (wav_fail NotRiff zero_info)
            else do {
              wave \<leftarrow> tag_equals f 8 ''WAVE'';
              if \<not> wave then Some (wav_fail NotWave zero_info)
              else do {
                r \<leftarrow> wav_walk_chunks f kRiffHeaderBytes walk_init;
                case r of Inl (e, w) \<Rightarrow> Some (wav_fail e (ww_info w)) | Inr w \<Rightarrow> wav_decode f w
              }
            }
          })"

section \<open>Downmix\<close>

text \<open>The sum is an \<open>int32_t\<close> (\<open>None\<close> on overflow), the division truncates.\<close>

definition downmix_frame :: "pcm \<Rightarrow> nat \<Rightarrow> nat \<Rightarrow> 16 word option" where
  "downmix_frame xs channels fr = do {
     total \<leftarrow> foldl (\<lambda>acc c. do {
       t \<leftarrow> acc;
       x \<leftarrow> rd xs (fr * channels + c);
       let t' = t + sint x;
       if - (2 ^ 31) \<le> t' \<and> t' < 2 ^ 31 then Some t' else None
     }) (Some 0) [0..<channels];
     Some (of_int (total sdiv int channels))
   }"

definition downmix_to_mono :: "pcm \<Rightarrow> u16 \<Rightarrow> pcm option" where
  "downmix_to_mono interleaved channels =
     (if channels = 0 then Some []
      else if channels = 1 then Some interleaved
      else those (map (downmix_frame interleaved (unat channels)) [0..<length interleaved div unat channels]))"

section \<open>The writer\<close>

definition tag_bytes :: "string \<Rightarrow> bytes" where "tag_bytes = map of_char"

definition wav_header :: "pcm \<Rightarrow> u32 \<Rightarrow> u16 \<Rightarrow> bytes option" where
  "wav_header interleaved rate channels =
     (let data_bytes = of_nat (length interleaved * 2) :: u32;
          block_align = channels * 2 :: u16 in do {
      p \<leftarrow> memcpy_at (replicate 44 0) 0 (tag_bytes ''RIFF'');
      p \<leftarrow> store_le32 p 4 (36 + data_bytes);
      p \<leftarrow> memcpy_at p 8 (tag_bytes ''WAVE'');
      p \<leftarrow> memcpy_at p 12 (tag_bytes ''fmt '');
      p \<leftarrow> store_le32 p 16 16;
      p \<leftarrow> store_le16 p 20 kFormatPcm;
      p \<leftarrow> store_le16 p 22 channels;
      p \<leftarrow> store_le32 p 24 rate;
      p \<leftarrow> store_le32 p 28 (rate * ucast block_align);
      p \<leftarrow> store_le16 p 32 block_align;
      p \<leftarrow> store_le16 p 34 16;
      p \<leftarrow> memcpy_at p 36 (tag_bytes ''data'');
      store_le32 p 40 data_bytes
     })"

text \<open>A file open for writing: \<open>fwrite\<close> returns how many bytes it took.\<close>

fun put_samples :: "('f \<Rightarrow> bytes \<Rightarrow> nat \<times> 'f) \<Rightarrow> bytes \<Rightarrow> 'f \<Rightarrow> pcm \<Rightarrow> (bool \<times> 'f) option" where
  "put_samples fwrite encoded f [] = Some (True, f)"
| "put_samples fwrite encoded f (x # xs) = do {
     encoded \<leftarrow> store_le16 encoded 0 x;
     let (n, f) = fwrite f encoded;
     if n = length encoded then put_samples fwrite encoded f xs else Some (False, f)
   }"

definition write_wav ::
  "'f option \<Rightarrow> ('f \<Rightarrow> bytes \<Rightarrow> nat \<times> 'f) \<Rightarrow> ('f \<Rightarrow> int \<times> 'f) \<Rightarrow> pcm \<Rightarrow> u32 \<Rightarrow> u16 \<Rightarrow> (wav_error \<times> 'f option) option" where
  "write_wav fopen fwrite fclose interleaved rate channels =
     (if channels = 0 \<or> channels > 8 then Some (UnsupportedChannelCount, None)
      else if rate = 0 then Some (WriteFailed, None)
      else if length interleaved mod unat channels \<noteq> 0 then Some (WriteFailed, None)
      else do {
        header \<leftarrow> wav_header interleaved rate channels;
        case fopen of
          None \<Rightarrow> Some (CannotOpen, None)
        | Some f \<Rightarrow> do {
            let (n, f) = fwrite f header;
            (ok, f) \<leftarrow> (if n = length header then put_samples fwrite [0, 0] f interleaved else Some (False, f));
            let (rc, f) = fclose f;
            let ok = (if rc \<noteq> 0 then False else ok);
            Some (if ok then WavNone else WriteFailed, Some f)
          }
      })"

section \<open>The reader is total\<close>

lemma tag_equals_slice:
  "off + length cs \<le> length f \<Longrightarrow> tag_equals f off cs = Some (take (length cs) (drop off f) = tag_bytes cs)"
proof (induction cs arbitrary: off)
  case (Cons c cs)
  have "take (length (c # cs)) (drop off f) = f ! off # take (length cs) (drop (off + 1) f)"
    using Cons.prems by (simp add: Cons_nth_drop_Suc [symmetric])
  then show ?case using Cons by (simp add: rd_def tag_bytes_def tag_equals.simps)
qed (simp add: tag_bytes_def tag_equals.simps)

lemma tag4: "off + 4 \<le> length f \<Longrightarrow> tag_equals f off [a, b, c, d] = Some (take 4 (drop off f) = tag_bytes [a, b, c, d])"
  using tag_equals_slice [of off "[a, b, c, d]" f] by (simp add: numeral_eq_Suc)

text \<open>Where a data chunk was found: behind its header, inside the file.\<close>

definition walk_ok :: "bytes \<Rightarrow> wav_walk \<Rightarrow> bool" where
  "walk_ok f w \<longleftrightarrow> (\<forall>s. ww_data_start w = Some s \<longrightarrow>
     8 \<le> s \<and> s + ww_data_bytes w \<le> length f \<and> ww_data_bytes w < 2 ^ 32 \<and> take 4 (drop (s - 8) f) = tag_bytes ''data'')"

text \<open>The result of a step: a proper error, or a walk that is still well-formed.\<close>

definition walk_step :: "bytes \<Rightarrow> ((wav_error \<times> wav_walk) + 'a) \<Rightarrow> ('a \<Rightarrow> wav_walk) \<Rightarrow> bool" where
  "walk_step f r walk \<longleftrightarrow> (\<forall>e w. r = Inl (e, w) \<longrightarrow> e \<noteq> WavNone) \<and> (\<forall>x. r = Inr x \<longrightarrow> walk_ok f (walk x))"

lemma walk_step_simps [simp]:
  "walk_step f (Inl (e, w)) g \<longleftrightarrow> e \<noteq> WavNone" "walk_step f (Inr x) g \<longleftrightarrow> walk_ok f (g x)"
  by (auto simp: walk_step_def)

lemma walk_ok_upd [simp]:
  "walk_ok f (w\<lparr>ww_info := i\<rparr>) = walk_ok f w" "walk_ok f (w\<lparr>ww_encoding := e\<rparr>) = walk_ok f w"
  "walk_ok f (w\<lparr>ww_have_fmt := h\<rparr>) = walk_ok f w"
  by (simp_all add: walk_ok_def)

lemma wav_fmt_total:
  assumes "body + chunk_size \<le> length f" "walk_ok f w"
  shows "\<exists>r. wav_fmt f body chunk_size w = Some r \<and> walk_step f r id"
proof (cases "chunk_size < kMinFmtBytes")
  case False
  then have n: "16 \<le> chunk_size" by (simp add: kMinFmtBytes_def)
  obtain e where e: "load_le16 f body = Some e" using load_le16_total [of body f] assms n by fastforce
  obtain c where c: "load_le16 f (body + 2) = Some c" using load_le16_total [of "body + 2" f] assms n by fastforce
  obtain r where r: "load_le32 f (body + 4) = Some r" using load_le32_total [of "body + 4" f] assms n by fastforce
  obtain b where b: "load_le16 f (body + 14) = Some b" using load_le16_total [of "body + 14" f] assms n by fastforce
  show ?thesis
  proof (cases "e = kFormatExtensible \<and> 40 \<le> chunk_size")
    case True
    then obtain u where "load_le16 f (body + 24) = Some u" using load_le16_total [of "body + 24" f] assms by fastforce
    then show ?thesis using True assms(2) by (simp add: wav_fmt_def e c r b Let_def kMinFmtBytes_def c [simplified])
  next
    case False
    then consider "e \<noteq> kFormatExtensible" | "chunk_size < 40" by linarith
    then show ?thesis using n assms(2)
      by cases (simp_all add: wav_fmt_def e c r b Let_def kMinFmtBytes_def c [simplified])
  qed
qed (simp add: wav_fmt_def)

lemma wav_chunk_total:
  assumes "offset + 8 \<le> length f" "walk_ok f w"
  shows "\<exists>r. wav_chunk f offset w = Some r \<and> walk_step f r snd"
proof -
  obtain size where s: "load_le32 f (offset + 4) = Some size" using load_le32_total [of "offset + 4" f] assms by fastforce
  have o4: "offset + 4 \<le> length f" using assms(1) by simp
  show ?thesis
  proof (cases "unat size > length f - (offset + 8)")
    case True
    then show ?thesis using s by (simp add: wav_chunk_def kChunkHeaderBytes_def Let_def tag4 [OF o4])
  next
    case False
    then have fit: "offset + 8 + unat size \<le> length f" using assms(1) by linarith
    obtain r where r: "wav_fmt f (offset + 8) (unat size) w = Some r" "walk_step f r id"
      using wav_fmt_total [OF fit assms(2)] by blast
    have d: "walk_ok f (w\<lparr>ww_data_start := Some (offset + 8), ww_data_bytes := unat size\<rparr>)"
      if "take 4 (drop offset f) = tag_bytes ''data''" using that fit unat_u32 [of size] by (simp add: walk_ok_def)
    show ?thesis
    proof (cases "take 4 (drop offset f) = tag_bytes ''fmt ''")
      case True
      then show ?thesis using s False r
        by (cases r) (auto simp: wav_chunk_def kChunkHeaderBytes_def Let_def tag4 [OF o4])
    next
      case nofmt: False
      then show ?thesis using s False d assms(2) by (auto simp: wav_chunk_def kChunkHeaderBytes_def Let_def tag4 [OF o4])
    qed
  qed
qed

lemma walk_total: "walk_ok f w \<Longrightarrow> \<exists>r. wav_walk_chunks f offset w = Some r \<and> walk_step f r id"
proof (induction f offset w rule: wav_walk_chunks.induct)
  case (1 f offset w)
  show ?case
  proof (cases "offset + kChunkHeaderBytes \<le> length f")
    case True
    then have "offset + 8 \<le> length f" by (simp add: kChunkHeaderBytes_def)
    then obtain r where r: "wav_chunk f offset w = Some r" "walk_step f r snd"
      using wav_chunk_total 1(2) by metis
    show ?thesis
    proof (cases r)
      case (Inl e)
      then show ?thesis using True r by (subst wav_walk_chunks.simps) (cases e, simp)
    next
      case (Inr q)
      obtain o' w' where q: "q = (o', w')" by (cases q)
      have "\<exists>r. wav_walk_chunks f o' w' = Some r \<and> walk_step f r id"
      proof (rule 1(1) [OF True _ refl refl])
        show "wav_chunk f offset w = Some (Inr (o', w'))" using r Inr q by simp
        show "walk_ok f w'" using r(2) Inr q by simp
      qed
      then show ?thesis using True r Inr q by (subst wav_walk_chunks.simps) simp
    qed
  next
    case False
    then show ?thesis using 1(2) by (subst wav_walk_chunks.simps) simp
  qed
qed

lemma those_map_Some: "(\<And>x. x \<in> set xs \<Longrightarrow> g x = Some (h x)) \<Longrightarrow> those (map g xs) = Some (map h xs)"
  by (induction xs) auto

text \<open>What an accepted file promises: the header fields and the samples of its last data chunk.\<close>

definition wav_result_ok :: "bytes \<Rightarrow> wav_result \<Rightarrow> bool" where
  "wav_result_ok f r \<longleftrightarrow>
     1 \<le> unat (wi_channels (wr_info r)) \<and> unat (wi_channels (wr_info r)) \<le> 8 \<and> wi_bits_per_sample (wr_info r) = 16 \<and>
     length (wr_samples r) = unat (wi_frames (wr_info r)) * unat (wi_channels (wr_info r)) \<and>
     (\<exists>s \<ge> 8. take 4 (drop (s - 8) f) = tag_bytes ''data'' \<and> s + 2 * length (wr_samples r) \<le> length f \<and>
        (\<forall>k < length (wr_samples r). take 2 (drop (s + 2 * k) f) = le16_bytes (wr_samples r ! k)))"

lemma wav_fail_simps: "wr_error (wav_fail e i) = e" "wr_info (wav_fail e i) = i" "wr_samples (wav_fail e i) = []"
  by (simp_all add: wav_fail_def)

lemma wav_decode_total:
  assumes "walk_ok f w"
  shows "\<exists>r. wav_decode f w = Some r \<and> (if wav_ok r then wav_result_ok f r else wr_samples r = [])"
proof (cases "\<exists>s. ww_data_start w = Some s \<and> ww_have_fmt w \<and> ww_encoding w = kFormatPcm \<and>
    wi_bits_per_sample (ww_info w) = 16 \<and> wi_channels (ww_info w) \<noteq> 0 \<and> wi_channels (ww_info w) \<le> 8")
  case False
  define i where "i = ww_info w"
  show ?thesis
  proof (cases "ww_have_fmt w \<and> ww_data_start w \<noteq> None")
    case miss: False
    then show ?thesis
      by (cases "ww_have_fmt w") (auto simp: wav_decode_def wav_fail_simps wav_ok_def Let_def)
  next
    case True
    then obtain s where s: "ww_data_start w = Some s" by blast
    consider "ww_encoding w \<noteq> kFormatPcm" | "ww_encoding w = kFormatPcm" "wi_bits_per_sample (ww_info w) \<noteq> 16"
      | "ww_encoding w = kFormatPcm" "wi_bits_per_sample (ww_info w) = 16" "wi_channels (ww_info w) = 0 \<or> wi_channels (ww_info w) > 8"
      using False True s by (auto simp: not_le)
    then show ?thesis
      using True by cases (simp_all add: wav_decode_def s wav_fail_simps wav_ok_def Let_def)
  qed
next
  case True
  then obtain s where s: "ww_data_start w = Some s" and fmt: "ww_have_fmt w" "ww_encoding w = kFormatPcm"
    "wi_bits_per_sample (ww_info w) = 16" "wi_channels (ww_info w) \<noteq> 0" "wi_channels (ww_info w) \<le> 8" by blast
  define c where "c = unat (wi_channels (ww_info w))"
  have c: "1 \<le> c" "c \<le> 8" using fmt by (auto simp: c_def word_le_nat_alt Suc_le_eq unat_gt_0)
  define n where "n = ww_data_bytes w div (c * 2)"
  have whole: "n * (c * 2) \<le> ww_data_bytes w" unfolding n_def by (rule div_times_less_eq_dividend)
  have in_file: "8 \<le> s" "s + ww_data_bytes w \<le> length f" "ww_data_bytes w < 2 ^ 32" "take 4 (drop (s - 8) f) = tag_bytes ''data''"
    using assms s by (simp_all add: walk_ok_def)
  have "\<exists>v. load_le16 f (s + k * 2) = Some v \<and> take 2 (drop (s + k * 2) f) = le16_bytes v" if "k < n * c" for k
  proof -
    have "s + k * 2 + 2 \<le> length f" using that whole in_file(2) by (simp add: mult.assoc [symmetric])
    then show ?thesis using load_le16_total by metis
  qed
  then obtain v where v: "k < n * c \<Longrightarrow> load_le16 f (s + k * 2) = Some (v k) \<and> take 2 (drop (s + k * 2) f) = le16_bytes (v k)" for k
    by metis
  have half: "n * (c * 2) div 2 = n * c" by (simp add: mult.assoc [symmetric])
  have samples: "those (map (\<lambda>k. load_le16 f (s + k * 2)) [0..<n * c]) = Some (map v [0..<n * c])"
    using v by (intro those_map_Some) simp
  have "n \<le> ww_data_bytes w" by (simp add: n_def)
  then have frames: "unat (of_nat n :: u64) = n" using in_file(3) by (intro unat_of_nat_small) simp
  have q: "n * (c * 2) div (c * 2) = n" using c by simp
  define r where "r = \<lparr>wr_error = WavNone, wr_info = (ww_info w)\<lparr>wi_frames := of_nat n\<rparr>, wr_samples = map v [0..<n * c]\<rparr>"
  have "wav_decode f w = Some r"
    using fmt samples unfolding wav_decode_def s r_def
    using c by (simp add: Let_def c_def [symmetric] n_def [symmetric] half q not_less)
  moreover have "wav_result_ok f r"
    using c in_file v whole frames fmt(3) unfolding wav_result_ok_def r_def
    by (auto intro!: exI [of _ s] simp: c_def [symmetric] mult.commute mult.left_commute)
  ultimately show ?thesis by (simp add: wav_ok_def r_def)
qed

text \<open>
  The reader is total and stays inside the file, whatever the file holds: every pointer read is in
  bounds, the chunk walk ends, and either an error is reported without samples or the result has 1 to
  8 channels of 16 bits, \<open>frames * channels\<close> samples, and they are the little-endian words behind a
  data chunk header of the file.
\<close>

lemma wav_read_total:
  "\<exists>r. read_wav file = Some r \<and>
     (if wav_ok r then \<exists>f. read_whole_file file = Some f \<and> wav_result_ok f r else wr_samples r = [])"
proof (cases "read_whole_file file")
  case None
  then show ?thesis by (simp add: read_wav_def wav_fail_def wav_ok_def)
next
  case (Some f)
  show ?thesis
  proof (cases "kRiffHeaderBytes \<le> length f \<and> take 4 f = tag_bytes ''RIFF'' \<and> take 4 (drop 8 f) = tag_bytes ''WAVE''")
    case True
    have "walk_ok f walk_init" by (simp add: walk_ok_def walk_init_def)
    then obtain r where r: "wav_walk_chunks f kRiffHeaderBytes walk_init = Some r" "\<And>w. r = Inr w \<Longrightarrow> walk_ok f w"
        "\<And>e w. r = Inl (e, w) \<Longrightarrow> e \<noteq> WavNone"
      using walk_total [of f walk_init kRiffHeaderBytes] by (auto simp: walk_step_def)
    have tags: "tag_equals f 0 ''RIFF'' = Some True" "tag_equals f 8 ''WAVE'' = Some True"
      using True by (simp_all add: tag4 kRiffHeaderBytes_def)
    show ?thesis
    proof (cases r)
      case (Inl e)
      then show ?thesis using True Some r(1) r(3) tags
        by (cases e) (simp add: read_wav_def wav_fail_def wav_ok_def)
    next
      case (Inr w)
      obtain q where "wav_decode f w = Some q" "if wav_ok q then wav_result_ok f q else wr_samples q = []"
        using wav_decode_total [OF r(2) [OF Inr]] by blast
      then show ?thesis using True Some r(1) Inr tags by (simp add: read_wav_def)
    qed
  next
    case False
    then show ?thesis using Some
      by (auto simp: read_wav_def tag4 kRiffHeaderBytes_def wav_fail_def wav_ok_def not_le)
  qed
qed

section \<open>Written files read back\<close>

text \<open>Filling a zeroed buffer from the front.\<close>

lemma fill_simps:
  "off = length xs \<Longrightarrow> length src \<le> n \<Longrightarrow>
   memcpy_at (xs @ replicate n z) off src = Some ((xs @ src) @ replicate (n - length src) z)"
  "off = length ys \<Longrightarrow> 2 \<le> n \<Longrightarrow> store_le16 (ys @ replicate n 0) off v2 = Some ((ys @ le16_bytes v2) @ replicate (n - 2) 0)"
  "off = length ys \<Longrightarrow> 4 \<le> n \<Longrightarrow> store_le32 (ys @ replicate n 0) off v4 = Some ((ys @ le32_bytes v4) @ replicate (n - 4) 0)"
  by (simp_all add: ub_simps)

definition wav_image :: "pcm \<Rightarrow> u32 \<Rightarrow> u16 \<Rightarrow> bytes" where
  "wav_image xs rate channels =
     tag_bytes ''RIFF'' @ le32_bytes (36 + of_nat (length xs * 2)) @ tag_bytes ''WAVE'' @ tag_bytes ''fmt '' @ le32_bytes 16 @
     le16_bytes 1 @ le16_bytes channels @ le32_bytes rate @ le32_bytes (rate * ucast (channels * 2)) @
     le16_bytes (channels * 2) @ le16_bytes 16 @ tag_bytes ''data'' @ le32_bytes (of_nat (length xs * 2))"

lemma tag_bytes_length [simp]: "length (tag_bytes cs) = length cs"
  by (simp add: tag_bytes_def)

lemma wav_header_image: "wav_header xs rate channels = Some (wav_image xs rate channels)"
proof -
  have first: "memcpy_at (replicate 44 (0 :: u8)) 0 (tag_bytes ''RIFF'') = Some (tag_bytes ''RIFF'' @ replicate 40 0)"
    using fill_simps(1) [of 0 "[]" "tag_bytes ''RIFF''" 44 0] by simp
  show ?thesis unfolding wav_header_def Let_def kFormatPcm_def first
    by (simp add: fill_simps del: of_nat_mult append_assoc) (simp add: wav_image_def)
qed

lemma wav_image_length [simp]: "length (wav_image xs rate channels) = 44"
  by (simp add: wav_image_def)

definition words_le :: "pcm \<Rightarrow> bytes" where "words_le xs = concat (map le16_bytes xs)"

lemma words_le_simps [simp]: "words_le [] = []" "words_le (x # xs) = le16_bytes x @ words_le xs" "length (words_le xs) = 2 * length xs"
proof -
  show "length (words_le xs) = 2 * length xs" by (induction xs) (simp_all add: words_le_def)
qed (simp_all add: words_le_def)

lemma words_le_slice: "k < length xs \<Longrightarrow> take 2 (drop (2 * k) (words_le xs)) = le16_bytes (xs ! k)"
proof (induction xs arbitrary: k)
  case (Cons x xs)
  then show ?case by (cases k) simp_all
qed simp

text \<open>What a file that reports the number of bytes it took holds at the end.\<close>

lemma put_samples_contents:
  assumes sink: "\<And>f b. contents (snd (fwrite f b)) = contents f @ take (fst (fwrite f b)) b"
    and "length encoded = 2" "put_samples fwrite encoded f xs = Some (True, f')"
  shows "contents f' = contents f @ words_le xs"
  using assms(2-)
proof (induction xs arbitrary: f encoded)
  case (Cons x xs)
  have enc: "store_le16 encoded 0 x = Some (le16_bytes x)" using Cons.prems(1) by (simp add: ub_simps)
  obtain n f1 where w: "fwrite f (le16_bytes x) = (n, f1)" by fastforce
  then have "n = 2" "put_samples fwrite (le16_bytes x) f1 xs = Some (True, f')"
    using Cons.prems(2) enc by (auto split: if_splits)
  then show ?case using Cons.IH [of "le16_bytes x" f1] sink [of f "le16_bytes x"] w by simp
qed simp

lemma write_wav_contents:
  assumes sink: "\<And>f b. contents (snd (fwrite f b)) = contents f @ take (fst (fwrite f b)) b"
    "\<And>f. contents (snd (fclose f)) = contents f" "contents f0 = []"
    and w: "write_wav (Some f0) fwrite fclose xs rate channels = Some (WavNone, Some f)"
  shows "contents f = wav_image xs rate channels @ words_le xs"
    "1 \<le> unat channels" "unat channels \<le> 8" "rate \<noteq> 0" "unat channels dvd length xs"
proof -
  show "rate \<noteq> 0" "unat channels dvd length xs" "unat channels \<le> 8" "1 \<le> unat channels"
    using w by (auto simp: write_wav_def word_le_nat_alt not_less Suc_le_eq unat_gt_0 split: if_splits)
  obtain n f1 where h: "fwrite f0 (wav_image xs rate channels) = (n, f1)" by fastforce
  obtain rc f2 where "n = 44" "put_samples fwrite [0, 0] f1 xs = Some (True, f2)" "fclose f2 = (rc, f)"
    using w h by (auto simp: write_wav_def wav_header_image Let_def split: if_splits Option.bind_splits prod.splits)
  then show "contents f = wav_image xs rate channels @ words_le xs"
    using put_samples_contents [of contents fwrite "[0, 0]" f1 xs f2, OF sink(1)] sink(1) [of f0 "wav_image xs rate channels"]
      sink(2) [of f2] sink(3) h by simp
qed

lemma read_image:
  fixes xs :: pcm and rate :: u32 and channels :: u16
  assumes c: "1 \<le> unat channels" "unat channels \<le> 8" "unat channels dvd length xs" and small: "length xs < 2 ^ 31"
  defines "f \<equiv> wav_image xs rate channels @ words_le xs"
  shows "read_wav (Some (int (length f), f)) =
    Some \<lparr>wr_error = WavNone, wr_info = \<lparr>wi_sample_rate_hz = rate, wi_channels = channels, wi_bits_per_sample = 16,
      wi_frames = of_nat (length xs div unat channels)\<rparr>, wr_samples = xs\<rparr>"
proof -
  let ?n = "length xs"
  have len: "length f = 44 + 2 * ?n" by (simp add: f_def)
  have tags: "take 4 f = tag_bytes ''RIFF''" "take 4 (drop 8 f) = tag_bytes ''WAVE''" "take 4 (drop 12 f) = tag_bytes ''fmt ''"
      "take 4 (drop 36 f) = tag_bytes ''data''"
    and fields: "take 4 (drop 16 f) = le32_bytes 16" "take 2 (drop 20 f) = le16_bytes 1" "take 2 (drop 22 f) = le16_bytes channels"
      "take 4 (drop 24 f) = le32_bytes rate" "take 2 (drop 34 f) = le16_bytes 16"
      "take 4 (drop 40 f) = le32_bytes (of_nat (?n * 2))"
    by (simp_all add: f_def wav_image_def)
  have loads: "load_le32 f 16 = Some 16" "load_le16 f 20 = Some 1" "load_le16 f 22 = Some channels" "load_le32 f 24 = Some rate"
      "load_le16 f 34 = Some 16" "load_le32 f 40 = Some (of_nat (?n * 2))"
    using fields by (simp_all only: load_slices)
  have distinct: "tag_bytes ''fmt '' \<noteq> tag_bytes ''data''" by (simp add: tag_bytes_def)
  have size: "unat (of_nat (?n * 2) :: u32) = ?n * 2" using small by (intro unat_of_nat_small) simp
  define w1 where "w1 = walk_init\<lparr>ww_encoding := 1,
      ww_info := zero_info\<lparr>wi_channels := channels, wi_sample_rate_hz := rate, wi_bits_per_sample := 16\<rparr>, ww_have_fmt := True\<rparr>"
  define w2 where "w2 = w1\<lparr>ww_data_start := Some 44, ww_data_bytes := ?n * 2\<rparr>"
  have "wav_chunk f 12 walk_init = Some (Inr (36, w1))"
    by (simp add: wav_chunk_def kChunkHeaderBytes_def Let_def loads tag4 len tags wav_fmt_def kMinFmtBytes_def
        kFormatExtensible_def w1_def walk_init_def)
  moreover have "wav_chunk f 36 w1 = Some (Inr (44 + ?n * 2, w2))"
    using size distinct by (simp add: wav_chunk_def kChunkHeaderBytes_def Let_def loads tag4 len tags w2_def)
  ultimately have walk: "wav_walk_chunks f 12 walk_init = Some (Inr w2)"
    by (subst wav_walk_chunks.simps, simp add: len kChunkHeaderBytes_def)
       (subst wav_walk_chunks.simps, simp add: len kChunkHeaderBytes_def,
        subst wav_walk_chunks.simps, simp add: len kChunkHeaderBytes_def)
  define cc where "cc = unat channels"
  have cc: "1 \<le> cc" "cc \<le> 8" "cc dvd ?n" using c by (simp_all add: cc_def)
  then obtain q where q: "?n = q * cc" by (metis dvd_def mult.commute)
  have q': "?n * 2 div (cc * 2) = q" "?n div cc = q" "q * (cc * 2) div 2 = ?n" "q * (cc * 2) div (cc * 2) = q"
    using cc(1) unfolding q by simp_all
  have "load_le16 f (44 + k * 2) = Some (xs ! k)" if "k < ?n" for k
  proof (rule load_le16_slice)
    have "drop (44 + k * 2) f = drop (2 * k) (words_le xs)" by (simp add: f_def mult.commute)
    then show "take 2 (drop (44 + k * 2) f) = le16_bytes (xs ! k)" using words_le_slice [OF that] by simp
  qed
  then have samples: "those (map (\<lambda>k. load_le16 f (44 + k * 2)) [0..<?n]) = Some xs"
    using those_map_Some [of "[0..<?n]" "\<lambda>k. load_le16 f (44 + k * 2)" "(!) xs"] by (simp add: map_nth)
  have "channels \<noteq> 0" "\<not> 8 < channels" using c by (auto simp: word_less_nat_alt)
  then have "wav_decode f w2 = Some \<lparr>wr_error = WavNone, wr_info = \<lparr>wi_sample_rate_hz = rate, wi_channels = channels,
      wi_bits_per_sample = 16, wi_frames = of_nat (?n div cc)\<rparr>, wr_samples = xs\<rparr>"
    using samples cc(1) unfolding wav_decode_def w2_def w1_def
    by (simp add: Let_def cc_def [symmetric] q' kFormatPcm_def zero_info_def walk_init_def)
  then show ?thesis using walk
    by (simp add: read_wav_def read_whole_file_def len kRiffHeaderBytes_def tag4 tags cc_def)
qed

text \<open>
  C36. A recording that was reported as written reads back: on any file that says truthfully how many
  bytes it took, after \<open>write_wav\<close> returns success the reader accepts the file and returns the same
  samples, sample rate and channel count, for every recording whose size fits the 32-bit field.
\<close>

lemma wav_roundtrip:
  assumes "\<And>f b. contents (snd (fwrite f b)) = contents f @ take (fst (fwrite f b)) b"
    and "\<And>f. contents (snd (fclose f)) = contents f" "contents f0 = []"
    and "write_wav (Some f0) fwrite fclose xs rate channels = Some (WavNone, Some f)" "length xs < 2 ^ 31"
  shows "read_wav (Some (int (length (contents f)), contents f)) =
    Some \<lparr>wr_error = WavNone, wr_info = \<lparr>wi_sample_rate_hz = rate, wi_channels = channels, wi_bits_per_sample = 16,
      wi_frames = of_nat (length xs div unat channels)\<rparr>, wr_samples = xs\<rparr>"
  using write_wav_contents [of contents fwrite fclose f0, OF assms(1-4)] read_image [OF _ _ _ assms(5)] by simp

text \<open>A file in memory that takes everything.\<close>

definition mem_write :: "bytes \<Rightarrow> bytes \<Rightarrow> nat \<times> bytes" where "mem_write f b = (length b, f @ b)"
definition mem_close :: "bytes \<Rightarrow> int \<times> bytes" where "mem_close f = (0, f)"

lemma write_stereo: "write_wav (Some []) mem_write mem_close [1, 2, 3, 4] 48000 2 =
    Some (WavNone, Some (wav_image [1, 2, 3, 4] 48000 2 @ words_le [1, 2, 3, 4]))"
  by (simp add: write_wav_def wav_header_image mem_write_def mem_close_def ub_simps Let_def)

lemma wav_roundtrip_witness:
  "let f = wav_image [1, 2, 3, 4] 48000 2 @ words_le [1, 2, 3, 4] in
   map_option wr_samples (read_wav (Some (int (length f), f))) = Some [1, 2, 3, 4]"
  using wav_roundtrip [of id mem_write mem_close "[]" "[1, 2, 3, 4]" 48000 2, OF _ _ _ write_stereo]
  by (simp add: mem_write_def mem_close_def Let_def del: words_le_simps)

section \<open>The downmix\<close>

text \<open>
  Averaging never overflows the accumulator, whatever the channel count, gives one sample per frame,
  and each lies between the smallest and the largest sample of its frame.
\<close>

lemma sint16: "- 32768 \<le> sint x" "sint x \<le> 32767" for x :: "16 word"
  using sint_greater_eq [of x] sint_lt [of x] by simp_all

lemma downmix_sum:
  fixes xs :: pcm
  assumes "fr * n + k \<le> length xs" "k \<le> 65535"
  shows "foldl (\<lambda>acc c. do { t \<leftarrow> acc; x \<leftarrow> rd xs (fr * n + c); let t' = t + sint x;
      if - (2 ^ 31) \<le> t' \<and> t' < 2 ^ 31 then Some t' else None }) (Some 0) [0..<k] =
    Some (\<Sum>c<k. sint (xs ! (fr * n + c)))"
    "- 32768 * int k \<le> (\<Sum>c<k. sint (xs ! (fr * n + c)))" "(\<Sum>c<k. sint (xs ! (fr * n + c))) \<le> 32767 * int k"
  using assms
proof (induction k)
  case (Suc k)
  {
    case 1
    have s: "- 32768 * int (Suc k) \<le> (\<Sum>c<Suc k. sint (xs ! (fr * n + c)))" "(\<Sum>c<Suc k. sint (xs ! (fr * n + c))) \<le> 32767 * int (Suc k)"
      using Suc.IH(2,3) 1 sint16 [of "xs ! (fr * n + k)"] by (simp_all add: algebra_simps)
    show ?case using Suc.IH(1) 1 s by (simp add: ub_simps Let_def)
  }
  {
    case 2
    then show ?case using Suc.IH(2) sint16 [of "xs ! (fr * n + k)"] by (simp add: algebra_simps)
  }
  {
    case 3
    then show ?case using Suc.IH(3) sint16 [of "xs ! (fr * n + k)"] by (simp add: algebra_simps)
  }
qed simp_all

lemma truncated_mean:
  fixes n lo hi t :: int
  assumes "1 \<le> n" "n * lo \<le> t" "t \<le> n * hi"
  shows "lo \<le> t sdiv n" "t sdiv n \<le> hi"
proof -
  have "lo \<le> t sdiv n \<and> t sdiv n \<le> hi"
  proof (cases "0 \<le> t")
    case True
    then have q: "t sdiv n = t div n" using assms(1) by (cases "t = 0") (simp_all add: signed_divide_int_def)
    have "n * lo div n \<le> t div n" "t div n \<le> n * hi div n" using assms by (intro zdiv_mono1; simp)+
    then show ?thesis using q assms(1) by simp
  next
    case False
    then have q: "t sdiv n = - (- t div n)" using assms(1) by (simp add: signed_divide_int_def)
    have "n * (- hi) div n \<le> - t div n" "- t div n \<le> n * (- lo) div n" using assms by (intro zdiv_mono1; simp)+
    moreover have "n * (- hi) div n = - hi" "n * (- lo) div n = - lo"
      using assms(1) nonzero_mult_div_cancel_left [of n "- hi"] nonzero_mult_div_cancel_left [of n "- lo"] by auto
    ultimately show ?thesis using q by linarith
  qed
  then show "lo \<le> t sdiv n" "t sdiv n \<le> hi" by blast+
qed

lemma downmix_frame_mean:
  fixes xs :: pcm
  assumes "(fr + 1) * n \<le> length xs" "1 \<le> n" "n \<le> 65535"
  obtains y where "downmix_frame xs n fr = Some y"
    "\<And>lo hi. \<forall>c<n. lo \<le> sint (xs ! (fr * n + c)) \<and> sint (xs ! (fr * n + c)) \<le> hi \<Longrightarrow> lo \<le> sint y \<and> sint y \<le> hi"
proof -
  let ?t = "\<Sum>c<n. sint (xs ! (fr * n + c))"
  have fit: "fr * n + n \<le> length xs" using assms(1) by (simp add: algebra_simps)
  have "- 32768 \<le> ?t sdiv int n" "?t sdiv int n \<le> 32767"
    using truncated_mean [of "int n" "- 32768" ?t 32767] downmix_sum(2,3) [OF fit assms(3)] assms(2)
    by (simp_all add: mult.commute)
  then have y: "sint (of_int (?t sdiv int n) :: 16 word) = ?t sdiv int n"
    by (simp add: signed_of_int signed_take_bit_int_eq_self)
  show ?thesis
  proof (rule that)
    show "downmix_frame xs n fr = Some (of_int (?t sdiv int n))"
      using downmix_sum(1) [OF fit assms(3)] by (simp add: downmix_frame_def)
    fix lo hi assume b: "\<forall>c<n. lo \<le> sint (xs ! (fr * n + c)) \<and> sint (xs ! (fr * n + c)) \<le> hi"
    have "int n * lo \<le> ?t" "?t \<le> int n * hi"
      using b sum_mono [of "{..<n}" "\<lambda>_. lo" "\<lambda>c. sint (xs ! (fr * n + c))"]
        sum_mono [of "{..<n}" "\<lambda>c. sint (xs ! (fr * n + c))" "\<lambda>_. hi"] by simp_all
    then show "lo \<le> sint (of_int (?t sdiv int n) :: 16 word) \<and> sint (of_int (?t sdiv int n) :: 16 word) \<le> hi"
      unfolding y using truncated_mean [of "int n" lo ?t hi] assms(2) by simp
  qed
qed

lemma downmix_bounded:
  fixes xs :: pcm
  assumes "channels \<noteq> 0"
  shows "\<exists>ys. downmix_to_mono xs channels = Some ys \<and> length ys = length xs div unat channels \<and>
    (\<forall>fr < length ys. \<forall>lo hi. (\<forall>c < unat channels. lo \<le> sint (xs ! (fr * unat channels + c)) \<and>
        sint (xs ! (fr * unat channels + c)) \<le> hi) \<longrightarrow> lo \<le> sint (ys ! fr) \<and> sint (ys ! fr) \<le> hi)"
proof (cases "channels = 1")
  case True
  then show ?thesis by (auto simp: downmix_to_mono_def)
next
  case False
  define n where "n = unat channels"
  have n: "1 \<le> n" "n \<le> 65535" using assms unat_lt2p [of channels] by (auto simp: n_def Suc_le_eq unat_gt_0)
  have "\<exists>y. downmix_frame xs n fr = Some y \<and> (\<forall>lo hi. (\<forall>c<n. lo \<le> sint (xs ! (fr * n + c)) \<and> sint (xs ! (fr * n + c)) \<le> hi) \<longrightarrow>
      lo \<le> sint y \<and> sint y \<le> hi)" if "fr < length xs div n" for fr
  proof -
    have "(fr + 1) * n \<le> length xs div n * n" using that by (intro mult_le_mono1) simp
    also have "\<dots> \<le> length xs" by (rule div_times_less_eq_dividend)
    finally show ?thesis using downmix_frame_mean n by metis
  qed
  then obtain g where g: "\<And>fr. fr < length xs div n \<Longrightarrow> downmix_frame xs n fr = Some (g fr) \<and>
      (\<forall>lo hi. (\<forall>c<n. lo \<le> sint (xs ! (fr * n + c)) \<and> sint (xs ! (fr * n + c)) \<le> hi) \<longrightarrow>
      lo \<le> sint (g fr) \<and> sint (g fr) \<le> hi)" by metis
  have "downmix_to_mono xs channels = Some (map g [0..<length xs div n])"
    using assms False g those_map_Some [of "[0..<length xs div n]" "downmix_frame xs n" g]
    by (simp add: downmix_to_mono_def n_def)
  then show ?thesis using g by (auto simp: n_def)
qed

end
