(* ===== verification/Endpoint.thy ===== *)
theory Endpoint
  imports Text
begin

text \<open>
  Addresses (core/include/radio/endpoint.hpp, core/src/net/endpoint.cpp). The conversions of the
  operating system (\<open>inet_pton\<close>, \<open>inet_ntop\<close>, the interface names) are an argument with their documented
  contract. The theory characterises the texts \<open>parse_with_port\<close> accepts and proves that the text of a
  valid endpoint parses back to it.
\<close>

section \<open>Endpoints\<close>

datatype family = Unspecified | V4 | V6

record endpoint =
  ep_address :: bytes
  ep_scope_id :: u32
  ep_port :: u16
  ep_family :: family

definition no_endpoint :: endpoint where
  "no_endpoint = \<lparr>ep_address = replicate 16 0, ep_scope_id = 0, ep_port = 0, ep_family = Unspecified\<rparr>"

definition ep_valid :: "endpoint \<Rightarrow> bool" where "ep_valid e \<longleftrightarrow> ep_family e \<noteq> Unspecified"

definition kV4Bytes :: nat where "kV4Bytes = 4"
definition kV6Bytes :: nat where "kV6Bytes = 16"

text \<open>\<open>INET6_ADDRSTRLEN\<close> of the socket headers, and the parse buffer.\<close>

definition inet6_addrstrlen :: nat where "inet6_addrstrlen = 46"
definition parse_buffer_size :: nat where "parse_buffer_size = inet6_addrstrlen + 32"

record inet =
  in_pton4 :: "string \<Rightarrow> bytes option"
  in_pton6 :: "string \<Rightarrow> bytes option"
  in_ntop4 :: "bytes \<Rightarrow> string option"
  in_ntop6 :: "bytes \<Rightarrow> string option"
  in_nametoindex :: "string \<Rightarrow> u32"
  in_indextoname :: "u32 \<Rightarrow> string option"

definition ep_v4 :: "bytes \<Rightarrow> u16 \<Rightarrow> endpoint option" where
  "ep_v4 address port =
     map_option (\<lambda>a. no_endpoint\<lparr>ep_address := a, ep_port := port, ep_family := V4\<rparr>)
       (memcpy_at (ep_address no_endpoint) 0 (take kV4Bytes address))"

definition ep_v6 :: "bytes \<Rightarrow> u16 \<Rightarrow> u32 \<Rightarrow> endpoint" where
  "ep_v6 address port scope_id =
     no_endpoint\<lparr>ep_address := address, ep_port := port, ep_scope_id := scope_id, ep_family := V6\<rparr>"

text \<open>The C string in a buffer: everything before the first NUL.\<close>

definition c_string :: "string \<Rightarrow> string" where "c_string s = takeWhile (\<lambda>c. c \<noteq> CHR 0x00) s"

definition ep_parse :: "inet \<Rightarrow> string \<Rightarrow> u16 \<Rightarrow> endpoint option" where
  "ep_parse net address port =
     (if address = [] \<or> length address \<ge> parse_buffer_size then None
      else
        let buffer = c_string address;
            (host, scope) = (case find_char (CHR ''%'') buffer of
                Some k \<Rightarrow> (take k buffer, Some (in_nametoindex net (drop (k + 1) buffer)))
              | None \<Rightarrow> (buffer, None)) in
        if scope = Some 0 then None
        else case in_pton4 net host of
          Some a \<Rightarrow> ep_v4 a port
        | None \<Rightarrow>
            (case in_pton6 net host of
               Some a \<Rightarrow> Some (ep_v6 a port (case scope of Some i \<Rightarrow> i | None \<Rightarrow> 0))
             | None \<Rightarrow> None))"

text \<open>The host and port texts, or a refusal.\<close>

definition split_host_port :: "string \<Rightarrow> (string \<times> string) option" where
  "split_host_port text =
     (if text = [] then None
      else if hd text = CHR ''['' then
        (case find_char (CHR '']'') text of
           None \<Rightarrow> None
         | Some close \<Rightarrow>
             let host = take (close - 1) (drop 1 text); rest = drop (close + 1) text in
             if length rest < 2 \<or> hd rest \<noteq> CHR '':'' then None else Some (host, drop 1 rest))
      else
        (case rfind_char (CHR '':'') text of
           None \<Rightarrow> None
         | Some colon \<Rightarrow>
             let host = take colon text; port_text = drop (colon + 1) text in
             if find_char (CHR '':'') host \<noteq> None then None else Some (host, port_text)))"

definition parse_port :: "string \<Rightarrow> u16 option" where
  "parse_port s =
     (case from_chars (2 ^ 16) s of
        (ErrcOk, Some n, k) \<Rightarrow> if k = length s then Some (of_nat n) else None
      | _ \<Rightarrow> None)"

definition ep_parse_with_port :: "inet \<Rightarrow> string \<Rightarrow> endpoint option" where
  "ep_parse_with_port net text =
     do { (host, port_text) \<leftarrow> split_host_port text; port \<leftarrow> parse_port port_text; ep_parse net host port }"

fun ep_bytes :: "endpoint \<Rightarrow> bytes" where
  "ep_bytes e = (case ep_family e of V4 \<Rightarrow> take kV4Bytes (ep_address e) | V6 \<Rightarrow> take kV6Bytes (ep_address e) | Unspecified \<Rightarrow> [])"

definition ep_to_string :: "inet \<Rightarrow> endpoint \<Rightarrow> string" where
  "ep_to_string net e =
     (case ep_family e of
        V4 \<Rightarrow> (case in_ntop4 net (take kV4Bytes (ep_address e)) of
                 None \<Rightarrow> ''<invalid>''
               | Some text \<Rightarrow> text @ '':'' @ decimal (unat (ep_port e)))
      | V6 \<Rightarrow> (case in_ntop6 net (take kV6Bytes (ep_address e)) of
                 None \<Rightarrow> ''<invalid>''
               | Some text \<Rightarrow>
                   ''['' @ text @
                   (if ep_scope_id e \<noteq> 0
                    then (case in_indextoname net (ep_scope_id e) of Some name \<Rightarrow> ''%'' @ name | None \<Rightarrow> []) else []) @
                   '']:'' @ decimal (unat (ep_port e)))
      | Unspecified \<Rightarrow> ''<unspecified>'')"

section \<open>Well-formed endpoints\<close>

text \<open>What the constructors produce: 16 bytes, with a zero tail and no scope in the V4 case.\<close>

definition ep_ok :: "endpoint \<Rightarrow> bool" where
  "ep_ok e \<longleftrightarrow> length (ep_address e) = 16 \<and>
     (ep_family e = V4 \<longrightarrow> drop 4 (ep_address e) = replicate 12 0 \<and> ep_scope_id e = 0)"

text \<open>
  The documented behaviour of the system functions: \<open>inet_pton\<close> fills 4 or 16 bytes and inverts
  \<open>inet_ntop\<close>, whose texts are short, not empty and made of digits, letters, dots and colons (no colon
  for IPv4), no text is an address of both families, and interface names and indices are inverse.
\<close>

definition plain :: "string \<Rightarrow> bool" where
  "plain s \<longleftrightarrow> (\<forall>c \<in> set s. c \<noteq> CHR 0x00 \<and> c \<noteq> CHR ''%'' \<and> c \<noteq> CHR ''['' \<and> c \<noteq> CHR '']'')"

definition inet_contract :: "inet \<Rightarrow> bool" where
  "inet_contract net \<longleftrightarrow>
     (\<forall>s a. in_pton4 net s = Some a \<longrightarrow> length a = 4) \<and> (\<forall>s a. in_pton6 net s = Some a \<longrightarrow> length a = 16) \<and>
     (\<forall>a s. in_ntop4 net a = Some s \<longrightarrow> length a = 4 \<and> in_pton4 net s = Some a \<and> s \<noteq> [] \<and> length s < 46 \<and> plain s \<and> CHR '':'' \<notin> set s) \<and>
     (\<forall>a s. in_ntop6 net a = Some s \<longrightarrow> length a = 16 \<and> in_pton6 net s = Some a \<and> in_pton4 net s = None \<and> s \<noteq> [] \<and> length s < 46 \<and> plain s) \<and>
     (\<forall>i n. in_indextoname net i = Some n \<longrightarrow> in_nametoindex net n = i \<and> length n < 16 \<and> plain n)"

lemma ep_parse_ok:
  assumes "inet_contract net" "ep_parse net s p = Some e"
  shows "ep_ok e \<and> ep_valid e \<and> ep_port e = p"
proof -
  have v4: "ep_ok e \<and> ep_valid e \<and> ep_port e = p" if "in_pton4 net h = Some a" "ep_v4 a p = Some e" for h a
  proof -
    have "length a = 4" using assms(1) that(1) by (simp add: inet_contract_def)
    then show ?thesis using that(2)
      by (auto simp: ep_v4_def no_endpoint_def memcpy_at_def ep_ok_def ep_valid_def kV4Bytes_def)
  qed
  have v6: "ep_ok (ep_v6 a p i) \<and> ep_valid (ep_v6 a p i) \<and> ep_port (ep_v6 a p i) = p" if "in_pton6 net h = Some a" for h a i
    using assms(1) that by (auto simp: inet_contract_def ep_v6_def ep_ok_def ep_valid_def)
  show ?thesis using assms(2) v4 v6
    by (auto simp: ep_parse_def Let_def split: if_splits option.splits prod.splits)
qed

section \<open>The accepted texts\<close>

lemma parse_port_iff:
  "parse_port s = Some p \<longleftrightarrow> s \<noteq> [] \<and> (\<forall>c \<in> set s. is_digit c) \<and> read_decimal s < 65536 \<and> p = of_nat (read_decimal s)"
proof -
  have "parse_port s = Some p \<longleftrightarrow> (\<exists>n. from_chars (2 ^ 16) s = (ErrcOk, Some n, length s) \<and> p = of_nat n)"
    by (auto simp: parse_port_def split: prod.splits errc.splits option.splits if_splits)
  then show ?thesis unfolding from_chars_whole by auto
qed

lemma split_host_port_iff:
  "split_host_port text = Some (host, port) \<longleftrightarrow>
     (text = ''['' @ host @ '']:'' @ port \<and> CHR '']'' \<notin> set host \<and> port \<noteq> []) \<or>
     (text = host @ '':'' @ port \<and> CHR '':'' \<notin> set host \<and> CHR '':'' \<notin> set port \<and> \<not> starts_with text ''['')"
    (is "_ \<longleftrightarrow> ?b \<or> ?p")
proof (cases "text \<noteq> [] \<and> hd text = CHR ''[''")
  case True
  then obtain t where t: "text = CHR ''['' # t" by (cases "text") auto
  have "\<not> ?p" using t by (auto simp: starts_with_def)
  moreover have "split_host_port text = Some (host, port) \<longleftrightarrow> ?b"
  proof
    assume s: "split_host_port text = Some (host, port)"
    then obtain close where c: "find_char (CHR '']'') text = Some close" by (auto simp: split_host_port_def t split: option.splits)
    then obtain a b where ab: "text = a @ CHR '']'' # b" "CHR '']'' \<notin> set a" "close = length a"
      unfolding find_char_Some by blast
    then obtain a' where a: "a = CHR ''['' # a'" using t by (cases a) auto
    then have hb: "host = a'" "\<not> length b < 2" "hd b = CHR '':''" "port = drop 1 b"
      using s c ab t by (auto simp: split_host_port_def Let_def split: if_splits)
    then obtain b0 b1 b' where "b = b0 # b1 # b'" by (cases b; cases "tl b") auto
    then show ?b using ab a hb by simp
  next
    assume b: ?b
    have "find_char (CHR '']'') text = Some (Suc (length host))"
      using b find_char_append [of "CHR '']''" "CHR ''['' # host" "CHR '':'' # port"] by simp
    then show "split_host_port text = Some (host, port)" using b by (cases port) (simp_all add: split_host_port_def Let_def)
  qed
  ultimately show ?thesis by blast
next
  case False
  have "\<not> ?b" using False by auto
  moreover have "split_host_port text = Some (host, port) \<longleftrightarrow> ?p"
  proof
    assume s: "split_host_port text = Some (host, port)"
    then have h: "text \<noteq> []" "hd text \<noteq> CHR ''[''" using False by (auto simp: split_host_port_def)
    then obtain colon where c: "rfind_char (CHR '':'') text = Some colon"
      using s by (auto simp: split_host_port_def split: option.splits)
    then obtain a b where ab: "text = a @ CHR '':'' # b" "CHR '':'' \<notin> set b" "colon = length a" unfolding rfind_char_Some by blast
    have "split_host_port text = (if find_char (CHR '':'') a \<noteq> None then None else Some (a, b))"
      using h c ab(1,3) by (simp add: split_host_port_def Let_def)
    then have "host = a" "port = b" "CHR '':'' \<notin> set a" using s by (simp_all add: find_char_None split: if_splits)
    moreover have "\<not> starts_with text ''[''" using h by (cases "text") (simp_all add: starts_with_def)
    ultimately show ?p using ab by simp
  next
    assume p: ?p
    then have h: "text \<noteq> []" "hd text \<noteq> CHR ''[''" using False by auto
    have "rfind_char (CHR '':'') text = Some (length host)" using p rfind_char_append [of "CHR '':''" port host] by simp
    moreover have "find_char (CHR '':'') host = None" using p by (simp add: find_char_None)
    ultimately show "split_host_port text = Some (host, port)" using p h by (simp add: split_host_port_def Let_def)
  qed
  ultimately show ?thesis by blast
qed

text \<open>
  The accepted texts: \<open>parse_with_port\<close> returns an endpoint exactly for \<open>[host]:port\<close> with no bracket
  in the host, or \<open>host:port\<close> with no colon in either part and no leading bracket, where the port is a
  non-empty run of digits below 65536 and \<open>parse\<close> accepts the host; it then returns what \<open>parse\<close> does.
\<close>

lemma endpoint_text_iff:
  "ep_parse_with_port net s = Some e \<longleftrightarrow>
     (\<exists>host port.
        (s = ''['' @ host @ '']:'' @ port \<and> CHR '']'' \<notin> set host \<or>
         s = host @ '':'' @ port \<and> CHR '':'' \<notin> set host \<and> \<not> starts_with s ''['') \<and>
        port \<noteq> [] \<and> (\<forall>c \<in> set port. is_digit c) \<and> read_decimal port < 65536 \<and>
        ep_parse net host (of_nat (read_decimal port)) = Some e)" (is "_ \<longleftrightarrow> ?r")
proof
  assume "ep_parse_with_port net s = Some e"
  then obtain host port p where "split_host_port s = Some (host, port)" "parse_port port = Some p" "ep_parse net host p = Some e"
    by (auto simp: ep_parse_with_port_def split: Option.bind_splits)
  then show ?r unfolding split_host_port_iff parse_port_iff by blast
next
  assume ?r
  then obtain host port where s: "s = ''['' @ host @ '']:'' @ port \<and> CHR '']'' \<notin> set host \<or>
         s = host @ '':'' @ port \<and> CHR '':'' \<notin> set host \<and> \<not> starts_with s ''[''"
    and d: "port \<noteq> []" "\<forall>c \<in> set port. is_digit c" "read_decimal port < 65536"
    and e: "ep_parse net host (of_nat (read_decimal port)) = Some e" by blast
  have "CHR '':'' \<notin> set port" using d(2) by (auto simp: is_digit_def)
  then have "split_host_port s = Some (host, port)" using s d(1) unfolding split_host_port_iff by blast
  moreover have "parse_port port = Some (of_nat (read_decimal port))" using d by (simp add: parse_port_iff)
  ultimately show "ep_parse_with_port net s = Some e" using e by (simp add: ep_parse_with_port_def)
qed

section \<open>The round trip\<close>

lemma c_string_plain: "plain s \<Longrightarrow> c_string s = s" "plain s \<Longrightarrow> find_char (CHR ''%'') s = None"
  by (auto simp: plain_def c_string_def find_char_None)

lemma plain_append [simp]: "plain (a @ b) = (plain a \<and> plain b)"
  by (auto simp: plain_def)

lemma parse_v4_text:
  assumes net: "inet_contract net" and ok: "ep_ok e" "ep_family e = V4" and t: "in_ntop4 net (take 4 (ep_address e)) = Some t"
  shows "ep_parse net t (ep_port e) = Some e"
proof -
  have c: "in_pton4 net t = Some (take 4 (ep_address e))" "t \<noteq> []" "length t < 46" "plain t"
    using net t by (auto simp: inet_contract_def)
  have "ep_v4 (take 4 (ep_address e)) (ep_port e) = Some e"
  proof -
    have "take 4 (ep_address e) @ replicate 12 0 = ep_address e" using ok by (metis append_take_drop_id ep_ok_def)
    then show ?thesis using ok
      by (cases e) (simp add: ep_v4_def no_endpoint_def memcpy_at_def ep_ok_def kV4Bytes_def min_def)
  qed
  then show ?thesis using c by (simp add: ep_parse_def parse_buffer_size_def inet6_addrstrlen_def c_string_plain)
qed

lemma parse_v6_text:
  assumes net: "inet_contract net" and ok: "ep_ok e" "ep_family e = V6" and t: "in_ntop6 net (ep_address e) = Some t"
    and scope: "ep_scope_id e = 0 \<and> sfx = [] \<or> (\<exists>n. in_indextoname net (ep_scope_id e) = Some n \<and> ep_scope_id e \<noteq> 0 \<and> sfx = ''%'' @ n)"
  shows "ep_parse net (t @ sfx) (ep_port e) = Some e"
proof -
  have c: "in_pton4 net t = None" "in_pton6 net t = Some (ep_address e)" "t \<noteq> []" "length t < 46" "plain t"
    using net t by (auto simp: inet_contract_def)
  have e: "ep_v6 (ep_address e) (ep_port e) (ep_scope_id e) = e"
    using ok by (cases e) (simp add: ep_v6_def no_endpoint_def)
  from scope show ?thesis
  proof (elim disjE exE conjE)
    assume "ep_scope_id e = 0" "sfx = []"
    then show ?thesis using c e by (simp add: ep_parse_def parse_buffer_size_def inet6_addrstrlen_def c_string_plain)
  next
    fix n assume n: "in_indextoname net (ep_scope_id e) = Some n" "ep_scope_id e \<noteq> 0" "sfx = ''%'' @ n"
    then have i: "in_nametoindex net n = ep_scope_id e" "length n < 16" "plain n" using net by (auto simp: inet_contract_def)
    have "c_string (t @ sfx) = t @ sfx" using c(5) i(3) n(3) by (auto simp: c_string_def plain_def)
    moreover have "find_char (CHR ''%'') (t @ sfx) = Some (length t)"
      using c(5) n(3) find_char_append [of "CHR ''%''" t n] by (auto simp: plain_def)
    ultimately show ?thesis using c e i n by (simp add: ep_parse_def parse_buffer_size_def inet6_addrstrlen_def Let_def)
  qed
qed

text \<open>
  C37. The text of a valid endpoint parses back to it, IPv4 and IPv6, with its port and with its scope
  when the interface still has a name.
\<close>

lemma endpoint_roundtrip:
  assumes net: "inet_contract net" and ok: "ep_ok e" "ep_valid e"
    and named: "ep_family e = V4 \<Longrightarrow> in_ntop4 net (take 4 (ep_address e)) \<noteq> None"
      "ep_family e = V6 \<Longrightarrow> in_ntop6 net (ep_address e) \<noteq> None"
      "ep_scope_id e \<noteq> 0 \<Longrightarrow> in_indextoname net (ep_scope_id e) \<noteq> None"
  shows "ep_parse_with_port net (ep_to_string net e) = Some e"
proof -
  let ?p = "decimal (unat (ep_port e))"
  have port: "?p \<noteq> []" "\<forall>c \<in> set ?p. is_digit c" "read_decimal ?p < 65536" "(of_nat (read_decimal ?p) :: u16) = ep_port e"
    using decimal_digits [of "unat (ep_port e)"] unat_lt2p [of "ep_port e"] by (simp_all add: read_decimal_decimal)
  have all: "take 16 (ep_address e) = ep_address e" using ok(1) by (simp add: ep_ok_def)
  show ?thesis
  proof (cases "ep_family e")
    case V4
    then obtain t where t: "in_ntop4 net (take 4 (ep_address e)) = Some t" using named(1) by auto
    then have c: "t \<noteq> []" "plain t" "CHR '':'' \<notin> set t" using net by (auto simp: inet_contract_def)
    have s: "ep_to_string net e = t @ '':'' @ ?p" using V4 t by (simp add: ep_to_string_def kV4Bytes_def)
    have free: "\<not> starts_with (t @ '':'' @ ?p) ''[''" using c by (cases t) (auto simp: starts_with_def plain_def)
    show ?thesis unfolding s endpoint_text_iff
      by (rule exI [of _ t], rule exI [of _ ?p]) (use parse_v4_text [OF net ok(1) V4 t] c port free in simp)
  next
    case V6
    then obtain t where t: "in_ntop6 net (ep_address e) = Some t" using named(2) by auto
    then have c: "plain t" using net by (auto simp: inet_contract_def)
    obtain sfx where sfx: "ep_to_string net e = ''['' @ (t @ sfx) @ '']:'' @ ?p" "plain (tl sfx)" "sfx = [] \<or> hd sfx = CHR ''%''"
      "ep_scope_id e = 0 \<and> sfx = [] \<or> (\<exists>n. in_indextoname net (ep_scope_id e) = Some n \<and> ep_scope_id e \<noteq> 0 \<and> sfx = ''%'' @ n)"
    proof (cases "ep_scope_id e = 0")
      case True
      then show ?thesis using that [of "[]"] V6 t all by (simp add: ep_to_string_def kV6Bytes_def plain_def)
    next
      case False
      then obtain n where n: "in_indextoname net (ep_scope_id e) = Some n" using named(3) by auto
      then have "plain n" using net by (auto simp: inet_contract_def)
      then show ?thesis using that [of "''%'' @ n"] False V6 t all n by (simp add: ep_to_string_def kV6Bytes_def)
    qed
    have free: "CHR '']'' \<notin> set (t @ sfx)" using c sfx(2,3) by (cases sfx) (auto simp: plain_def)
    show ?thesis unfolding sfx(1) endpoint_text_iff
      by (rule exI [of _ "t @ sfx"], rule exI [of _ ?p]) (use parse_v6_text [OF net ok(1) V6 t sfx(4)] port free in simp)
  qed (use ok(2) in \<open>simp add: ep_valid_def\<close>)
qed

text \<open>A host that knows one loopback address, one link-local address and one interface.\<close>

definition link_local :: bytes where "link_local = 0xFE # 0x80 # replicate 13 0 @ [1]"

definition demo_inet :: inet where
  "demo_inet = \<lparr>
     in_pton4 = (\<lambda>s. if s = ''127.0.0.1'' then Some [127, 0, 0, 1] else None),
     in_pton6 = (\<lambda>s. if s = ''fe80::1'' then Some link_local else None),
     in_ntop4 = (\<lambda>a. if a = [127, 0, 0, 1] then Some ''127.0.0.1'' else None),
     in_ntop6 = (\<lambda>a. if a = link_local then Some ''fe80::1'' else None),
     in_nametoindex = (\<lambda>s. if s = ''en0'' then 4 else 0),
     in_indextoname = (\<lambda>i. if i = 4 then Some ''en0'' else None)\<rparr>"

lemma demo_inet_contract: "inet_contract demo_inet"
  by (simp add: inet_contract_def demo_inet_def link_local_def plain_def)

definition link_endpoint :: endpoint where "link_endpoint = ep_v6 link_local 47000 4"

lemma endpoint_roundtrip_witness:
  "ep_parse_with_port demo_inet (ep_to_string demo_inet link_endpoint) = Some link_endpoint \<and>
   take 14 (ep_to_string demo_inet link_endpoint) = ''[fe80::1%en0]:''"
proof -
  have "ep_parse_with_port demo_inet (ep_to_string demo_inet link_endpoint) = Some link_endpoint"
    by (rule endpoint_roundtrip [OF demo_inet_contract])
       (simp_all add: link_endpoint_def ep_v6_def no_endpoint_def ep_ok_def ep_valid_def demo_inet_def link_local_def)
  then show ?thesis
    by (simp add: link_endpoint_def ep_v6_def no_endpoint_def ep_to_string_def demo_inet_def link_local_def kV6Bytes_def)
qed

end
