(* ===== verification/Scenario.thy ===== *)
theory Scenario
  imports Impairment Endpoint
begin

text \<open>
  Scenario files and the command line of the impairment proxy (tools/impair/scenario.hpp,
  tools/impair/scenario.cpp). \<open>std::strtod\<close>, whose result depends on the locale, and the contents of
  files are arguments; messages on stderr are not modelled. The theory proves what a loaded file
  means for the two directions, that later settings win, which keys are accepted, and that a
  negative delay is accepted and then converted without definition.
\<close>

section \<open>State\<close>

record scenario =
  sc_name :: string
  sc_upstream :: impairment
  sc_downstream :: impairment
  sc_listen :: endpoint
  sc_forward :: endpoint
  sc_seed :: u64
  sc_duration_s :: double
  sc_log_path :: string
  sc_json :: bool
  sc_help :: bool

definition default_scenario :: scenario where
  "default_scenario = \<lparr>sc_name = ''unnamed'', sc_upstream = default_impairment, sc_downstream = default_impairment,
     sc_listen = no_endpoint, sc_forward = no_endpoint, sc_seed = 1, sc_duration_s = 0, sc_log_path = [],
     sc_json = False, sc_help = False\<rparr>"

text \<open>
  The library: \<open>strtod\<close> returns the value and how many characters it used (values of the model are
  finite), a file is its contents or cannot be opened, and the address functions.
\<close>

record env =
  ev_strtod :: "string \<Rightarrow> double \<times> nat"
  ev_file :: "string \<Rightarrow> string option"
  ev_inet :: inet

section \<open>Values\<close>

definition front_space :: "char \<Rightarrow> bool" where "front_space c \<longleftrightarrow> c = CHR '' '' \<or> c = CHR 0x09"
definition back_space :: "char \<Rightarrow> bool" where "back_space c \<longleftrightarrow> c = CHR '' '' \<or> c = CHR 0x09 \<or> c = CHR 0x0D"

definition trim :: "string \<Rightarrow> string" where
  "trim s = rev (dropWhile back_space (rev (dropWhile front_space s)))"

text \<open>The string is copied first, so \<open>strtod\<close> sees it up to an embedded NUL.\<close>

definition parse_double :: "env \<Rightarrow> string \<Rightarrow> double option" where
  "parse_double ev s =
     (let (value, used) = ev_strtod ev (c_string s) in
      if used \<noteq> length s \<or> s = [] then None else Some value)"

text \<open>\<open>from_chars\<close> stores its value even when characters are left over and the result is a failure.\<close>

definition parse_integer :: "nat \<Rightarrow> string \<Rightarrow> nat \<Rightarrow> bool \<times> nat" where
  "parse_integer bound s out =
     (let (ec, v, k) = from_chars bound s in
      (ec = ErrcOk \<and> k = length s, case v of Some n \<Rightarrow> n | None \<Rightarrow> out))"

definition parse_shape :: "string \<Rightarrow> jitter_shape option" where
  "parse_shape s =
     (if s = ''none'' then Some ShapeNone
      else if s = ''uniform'' then Some Uniform
      else if s = ''normal'' then Some Normal
      else if s = ''pareto'' then Some Pareto
      else None)"

text \<open>A value in milliseconds or kilobits, scaled and truncated; the conversion can be undefined.\<close>

definition scaled :: "env \<Rightarrow> string \<Rightarrow> (u64 \<Rightarrow> impairment) \<Rightarrow> impairment \<Rightarrow> (bool \<times> impairment) option" where
  "scaled ev value put target =
     (case parse_double ev value of
        None \<Rightarrow> Some (False, target)
      | Some number \<Rightarrow> map_option (\<lambda>n. (True, put n)) (u64_of_d (d_mul number 1000)))"

definition plain_double :: "env \<Rightarrow> string \<Rightarrow> (double \<Rightarrow> impairment) \<Rightarrow> impairment \<Rightarrow> (bool \<times> impairment) option" where
  "plain_double ev value put target =
     (case parse_double ev value of None \<Rightarrow> Some (False, target) | Some number \<Rightarrow> Some (True, put number))"

definition apply_impairment_key :: "env \<Rightarrow> impairment \<Rightarrow> string \<Rightarrow> string \<Rightarrow> (bool \<times> impairment) option" where
  "apply_impairment_key ev t key value =
     (if key = ''base_delay_ms'' then scaled ev value (\<lambda>n. t\<lparr>im_base_delay_us := n\<rparr>) t
      else if key = ''jitter_ms'' then scaled ev value (\<lambda>n. t\<lparr>im_jitter_us := n\<rparr>) t
      else if key = ''jitter_shape'' then
        (case parse_shape value of None \<Rightarrow> Some (False, t) | Some s \<Rightarrow> Some (True, t\<lparr>im_jitter_shape := s\<rparr>))
      else if key = ''loss_percent'' then plain_double ev value (\<lambda>x. t\<lparr>im_loss_percent := x\<rparr>) t
      else if key = ''burst_loss_percent'' then plain_double ev value (\<lambda>x. t\<lparr>im_burst_loss_percent := x\<rparr>) t
      else if key = ''burst_mean_length'' then plain_double ev value (\<lambda>x. t\<lparr>im_burst_mean_length := x\<rparr>) t
      else if key = ''duplicate_percent'' then plain_double ev value (\<lambda>x. t\<lparr>im_duplicate_percent := x\<rparr>) t
      else if key = ''reorder_percent'' then plain_double ev value (\<lambda>x. t\<lparr>im_reorder_percent := x\<rparr>) t
      else if key = ''reorder_extra_ms'' then scaled ev value (\<lambda>n. t\<lparr>im_reorder_extra_us := n\<rparr>) t
      else if key = ''rate_kbps'' then scaled ev value (\<lambda>n. t\<lparr>im_rate_bps := n\<rparr>) t
      else if key = ''bucket_bytes'' then
        (let (ok, n) = parse_integer (2 ^ 32) value (unat (im_bucket_bytes t)) in
         Some (ok, t\<lparr>im_bucket_bytes := of_nat n\<rparr>))
      else Some (False, t))"

text \<open>The direction prefixes; an unprefixed key is applied to both, stopping at the first failure.\<close>

definition apply_directed :: "env \<Rightarrow> scenario \<Rightarrow> string \<Rightarrow> string \<Rightarrow> (bool \<times> scenario) option" where
  "apply_directed ev sc key value =
     (if starts_with key ''up.'' then do {
        (ok, t) \<leftarrow> apply_impairment_key ev (sc_upstream sc) (drop 3 key) value;
        Some (ok, sc\<lparr>sc_upstream := t\<rparr>)
      }
      else if starts_with key ''down.'' then do {
        (ok, t) \<leftarrow> apply_impairment_key ev (sc_downstream sc) (drop 5 key) value;
        Some (ok, sc\<lparr>sc_downstream := t\<rparr>)
      }
      else do {
        (ok, t) \<leftarrow> apply_impairment_key ev (sc_upstream sc) key value;
        let sc = sc\<lparr>sc_upstream := t\<rparr>;
        if \<not> ok then Some (False, sc)
        else do {
          (ok, t) \<leftarrow> apply_impairment_key ev (sc_downstream sc) key value;
          Some (ok, sc\<lparr>sc_downstream := t\<rparr>)
        }
      })"

section \<open>Files\<close>

text \<open>\<open>std::getline\<close>: the lines of a file, the last one with or without its newline.\<close>

fun split_lines :: "string \<Rightarrow> string list" where
  "split_lines [] = [[]]"
| "split_lines (c # s) =
     (if c = CHR 0x0A then [] # split_lines s
      else case split_lines s of [] \<Rightarrow> [[c]] | l # ls \<Rightarrow> (c # l) # ls)"

definition getlines :: "string \<Rightarrow> string list" where
  "getlines s = (let ls = split_lines s in if last ls = [] then butlast ls else ls)"

definition scenario_line :: "env \<Rightarrow> scenario \<Rightarrow> string \<Rightarrow> (bool \<times> scenario) option" where
  "scenario_line ev sc line =
     (let s = trim line in
      if s = [] \<or> hd s = CHR ''#'' then Some (True, sc)
      else case find_char (CHR ''='') s of
        None \<Rightarrow> Some (False, sc)
      | Some equals \<Rightarrow>
          let key = trim (take equals s); value = trim (drop (equals + 1) s) in
          if key = ''name'' then Some (True, sc\<lparr>sc_name := value\<rparr>)
          else apply_directed ev sc key value)"

fun load_lines :: "env \<Rightarrow> scenario \<Rightarrow> string list \<Rightarrow> (bool \<times> scenario) option" where
  "load_lines ev sc [] = Some (True, sc)"
| "load_lines ev sc (line # lines) =
     do { (ok, sc) \<leftarrow> scenario_line ev sc line; if ok then load_lines ev sc lines else Some (False, sc) }"

definition load_scenario_file :: "env \<Rightarrow> string \<Rightarrow> scenario \<Rightarrow> (bool \<times> scenario) option" where
  "load_scenario_file ev path sc =
     (case ev_file ev path of
        None \<Rightarrow> Some (False, sc)
      | Some content \<Rightarrow> load_lines ev sc (getlines content))"

section \<open>The command line\<close>

text \<open>The first pass: every \<open>--scenario\<close> with an argument after it is loaded.\<close>

fun load_scenarios :: "env \<Rightarrow> scenario \<Rightarrow> string list \<Rightarrow> (bool \<times> scenario) option" where
  "load_scenarios ev sc [] = Some (True, sc)"
| "load_scenarios ev sc (a # rest) =
     (if a = ''--scenario'' \<and> rest \<noteq> [] then do {
        (ok, sc) \<leftarrow> load_scenario_file ev (hd rest) sc;
        if ok then load_scenarios ev sc rest else Some (False, sc)
      }
      else load_scenarios ev sc rest)"

datatype args_result = ArgsFail | ArgsHelp scenario | ArgsDone scenario nat

text \<open>
  The second pass: the body of the option loop stops or continues with a new scenario, listen port and
  remaining arguments.
\<close>

datatype arg_outcome = Stop args_result | Next scenario nat "string list"

definition arg_step :: "env \<Rightarrow> scenario \<Rightarrow> nat \<Rightarrow> string \<Rightarrow> string list \<Rightarrow> arg_outcome option" where
  "arg_step ev sc listen_port flag rest =
     (if flag = ''-h'' \<or> flag = ''--help'' then Some (Stop (ArgsHelp (sc\<lparr>sc_help := True\<rparr>)))
      else if flag = ''--json'' then Some (Next (sc\<lparr>sc_json := True\<rparr>) listen_port rest)
      else if flag = ''--scenario'' then Some (Next sc listen_port (drop 1 rest))
      else if flag = ''--listen'' then
        (case rest of [] \<Rightarrow> Some (Stop ArgsFail)
         | value # rest \<Rightarrow>
             let (ok, p) = parse_integer (2 ^ 16) value listen_port in
             Some (if ok then Next sc p rest else Stop ArgsFail))
      else if flag = ''--forward'' then
        (case rest of [] \<Rightarrow> Some (Stop ArgsFail)
         | value # rest \<Rightarrow>
             (case ep_parse_with_port (ev_inet ev) value of
                None \<Rightarrow> Some (Stop ArgsFail)
              | Some e \<Rightarrow> Some (Next (sc\<lparr>sc_forward := e\<rparr>) listen_port rest)))
      else if flag = ''--seed'' then
        (case rest of [] \<Rightarrow> Some (Stop ArgsFail)
         | value # rest \<Rightarrow>
             let (ok, n) = parse_integer (2 ^ 64) value (unat (sc_seed sc)) in
             Some (if ok then Next (sc\<lparr>sc_seed := of_nat n\<rparr>) listen_port rest else Stop ArgsFail))
      else if flag = ''--log'' then
        (case rest of [] \<Rightarrow> Some (Stop ArgsFail)
         | value # rest \<Rightarrow> Some (Next (sc\<lparr>sc_log_path := value\<rparr>) listen_port rest))
      else if flag = ''--duration'' then
        (case rest of [] \<Rightarrow> Some (Stop ArgsFail)
         | value # rest \<Rightarrow>
             (case parse_double ev value of
                None \<Rightarrow> Some (Stop ArgsFail)
              | Some x \<Rightarrow> Some (Next (sc\<lparr>sc_duration_s := x\<rparr>) listen_port rest)))
      else case find_char (CHR ''='') flag of
        None \<Rightarrow> Some (Stop ArgsFail)
      | Some equals \<Rightarrow>
          if starts_with flag ''--'' then Some (Stop ArgsFail)
          else do {
            (ok, sc) \<leftarrow> apply_directed ev sc (take equals flag) (drop (equals + 1) flag);
            Some (if ok then Next sc listen_port rest else Stop ArgsFail)
          })"

lemma arg_step_shorter: "arg_step ev sc port flag rest = Some (Next sc' port' rest') \<Longrightarrow> length rest' \<le> length rest"
  unfolding arg_step_def Let_def
  by (split if_split_asm list.split_asm option.split_asm prod.split_asm; auto split: if_split_asm list.split_asm option.split_asm prod.split_asm Option.bind_split_asm)

function scan_args :: "env \<Rightarrow> scenario \<Rightarrow> nat \<Rightarrow> string list \<Rightarrow> args_result option" where
  "scan_args ev sc listen_port [] = Some (ArgsDone sc listen_port)"
| "scan_args ev sc listen_port (flag # rest) =
     (case arg_step ev sc listen_port flag rest of
        None \<Rightarrow> None
      | Some (Stop r) \<Rightarrow> Some r
      | Some (Next sc' port' rest') \<Rightarrow> scan_args ev sc' port' rest')"
  by pat_completeness auto
termination
  by (relation "measure (\<lambda>(ev, sc, port, args). length args)") (auto dest!: arg_step_shorter)

text \<open>
  \<open>parse_arguments\<close> on the arguments after the program name: \<open>None\<close> is undefined behaviour (a conversion,
  or the dereference of the wildcard address when it does not parse), \<open>Some None\<close> the refusal.
\<close>

definition parse_arguments :: "env \<Rightarrow> string list \<Rightarrow> scenario option option" where
  "parse_arguments ev args = do {
     (ok, sc) \<leftarrow> load_scenarios ev default_scenario args;
     if \<not> ok then Some None
     else do {
       r \<leftarrow> scan_args ev sc 0 args;
       case r of
         ArgsFail \<Rightarrow> Some None
       | ArgsHelp sc \<Rightarrow> Some (Some sc)
       | ArgsDone sc port \<Rightarrow>
           if port = 0 then Some None
           else if \<not> ep_valid (sc_forward sc) then Some None
           else do {
             e \<leftarrow> ep_parse (ev_inet ev) (if ep_family (sc_forward sc) = V6 then ''::'' else ''0.0.0.0'') (of_nat port);
             Some (Some (sc\<lparr>sc_listen := e\<rparr>))
           }
     }
   }"

section \<open>What a file means\<close>

lemma apply_directed_frame:
  "apply_directed ev sc key value = Some (ok, sc') \<Longrightarrow>
   sc_forward sc' = sc_forward sc \<and> sc_listen sc' = sc_listen sc \<and> sc_help sc' = sc_help sc"
  by (auto simp: apply_directed_def Let_def split: Option.bind_splits if_splits)

text \<open>Settings applied one after the other, all of them successfully.\<close>

fun apply_all :: "env \<Rightarrow> impairment \<Rightarrow> (string \<times> string) list \<Rightarrow> impairment option" where
  "apply_all ev t [] = Some t"
| "apply_all ev t ((key, value) # kvs) =
     (case apply_impairment_key ev t key value of Some (True, t') \<Rightarrow> apply_all ev t' kvs | _ \<Rightarrow> None)"

lemma apply_all_append: "apply_all ev t (xs @ ys) = Option.bind (apply_all ev t xs) (\<lambda>t. apply_all ev t ys)"
  by (induction ev t xs rule: apply_all.induct) (auto split: option.splits bool.splits)

text \<open>A line is empty or a comment, a name, a setting, or malformed.\<close>

datatype line_kind = Blank | Name string | Setting string string | Malformed

definition classify_line :: "string \<Rightarrow> line_kind" where
  "classify_line line =
     (let s = trim line in
      if s = [] \<or> hd s = CHR ''#'' then Blank
      else case find_char (CHR ''='') s of
        None \<Rightarrow> Malformed
      | Some k \<Rightarrow>
          if trim (take k s) = ''name'' then Name (trim (drop (k + 1) s))
          else Setting (trim (take k s)) (trim (drop (k + 1) s)))"

definition up_setting :: "string \<Rightarrow> (string \<times> string) list" where
  "up_setting line =
     (case classify_line line of
        Setting key value \<Rightarrow>
          if starts_with key ''up.'' then [(drop 3 key, value)]
          else if starts_with key ''down.'' then [] else [(key, value)]
      | _ \<Rightarrow> [])"

definition down_setting :: "string \<Rightarrow> (string \<times> string) list" where
  "down_setting line =
     (case classify_line line of
        Setting key value \<Rightarrow>
          if starts_with key ''up.'' then []
          else if starts_with key ''down.'' then [(drop 5 key, value)] else [(key, value)]
      | _ \<Rightarrow> [])"

definition name_of :: "string \<Rightarrow> string \<Rightarrow> string" where
  "name_of name line = (case classify_line line of Name n \<Rightarrow> n | _ \<Rightarrow> name)"

lemma scenario_line_classify:
  "scenario_line ev sc line =
     (case classify_line line of
        Blank \<Rightarrow> Some (True, sc) | Malformed \<Rightarrow> Some (False, sc) | Name n \<Rightarrow> Some (True, sc\<lparr>sc_name := n\<rparr>)
      | Setting key value \<Rightarrow> apply_directed ev sc key value)"
  by (simp add: scenario_line_def classify_line_def Let_def split: option.split)

lemma apply_directed_ok:
  "apply_directed ev sc key value = Some (True, sc') \<longleftrightarrow>
     (\<exists>u d. apply_all ev (sc_upstream sc) (if starts_with key ''up.'' then [(drop 3 key, value)]
          else if starts_with key ''down.'' then [] else [(key, value)]) = Some u \<and>
        apply_all ev (sc_downstream sc) (if starts_with key ''up.'' then []
          else if starts_with key ''down.'' then [(drop 5 key, value)] else [(key, value)]) = Some d \<and>
        sc' = sc\<lparr>sc_upstream := u, sc_downstream := d\<rparr>)"
proof -
  have upd: "sc\<lparr>sc_upstream := u\<rparr> = sc\<lparr>sc_upstream := u, sc_downstream := sc_downstream sc\<rparr>"
    "sc\<lparr>sc_downstream := d\<rparr> = sc\<lparr>sc_upstream := sc_upstream sc, sc_downstream := d\<rparr>" for u d by simp_all
  show ?thesis
    by (auto simp: apply_directed_def Let_def upd [symmetric] split: Option.bind_splits if_splits option.splits bool.splits)
qed

lemma scenario_line_ok:
  "scenario_line ev sc line = Some (True, sc') \<longleftrightarrow>
     classify_line line \<noteq> Malformed \<and>
     (\<exists>u d. apply_all ev (sc_upstream sc) (up_setting line) = Some u \<and> apply_all ev (sc_downstream sc) (down_setting line) = Some d \<and>
        sc' = sc\<lparr>sc_name := name_of (sc_name sc) line, sc_upstream := u, sc_downstream := d\<rparr>)"
proof (cases "classify_line line")
  case (Setting key val)
  then show ?thesis
    by (simp add: scenario_line_classify apply_directed_ok up_setting_def down_setting_def name_of_def)
qed (auto simp: scenario_line_classify up_setting_def down_setting_def name_of_def)

text \<open>
  A scenario file is two independent lists of settings: loading succeeds exactly when every line is
  well-formed and both lists apply, and then the upstream model is the one reached by the unprefixed
  and \<open>up.\<close> settings alone, in order (so the last one wins), the downstream model by the unprefixed and
  \<open>down.\<close> settings, the name is the last one given, and nothing else changes.
\<close>

lemma scenario_directions:
  "load_lines ev sc lines = Some (True, sc') \<longleftrightarrow>
     (\<forall>line \<in> set lines. classify_line line \<noteq> Malformed) \<and>
     (\<exists>u d. apply_all ev (sc_upstream sc) (concat (map up_setting lines)) = Some u \<and>
        apply_all ev (sc_downstream sc) (concat (map down_setting lines)) = Some d \<and>
        sc' = sc\<lparr>sc_name := foldl name_of (sc_name sc) lines, sc_upstream := u, sc_downstream := d\<rparr>)"
proof (induction lines arbitrary: sc)
  case (Cons line lines)
  have "load_lines ev sc (line # lines) = Some (True, sc') \<longleftrightarrow>
      (\<exists>sc1. scenario_line ev sc line = Some (True, sc1) \<and> load_lines ev sc1 lines = Some (True, sc'))"
    by (auto split: Option.bind_splits if_splits)
  also have "\<dots> \<longleftrightarrow> classify_line line \<noteq> Malformed \<and>
      (\<exists>u1 d1. apply_all ev (sc_upstream sc) (up_setting line) = Some u1 \<and> apply_all ev (sc_downstream sc) (down_setting line) = Some d1 \<and>
        load_lines ev (sc\<lparr>sc_name := name_of (sc_name sc) line, sc_upstream := u1, sc_downstream := d1\<rparr>) lines = Some (True, sc'))"
    unfolding scenario_line_ok by blast
  finally show ?case unfolding Cons.IH by (auto simp: apply_all_append split: Option.bind_splits)
qed auto

section \<open>Keys and values\<close>

text \<open>A key that is not one of the eleven is refused and changes nothing.\<close>

lemma unknown_key_refused:
  assumes "key \<notin> {''base_delay_ms'', ''jitter_ms'', ''jitter_shape'', ''loss_percent'', ''burst_loss_percent'', ''burst_mean_length'',
     ''duplicate_percent'', ''reorder_percent'', ''reorder_extra_ms'', ''rate_kbps'', ''bucket_bytes''}"
  shows "apply_impairment_key ev t key value = Some (False, t)"
  using assms unfolding apply_impairment_key_def by simp

text \<open>
  A negative delay is accepted by the parser and then converted to an unsigned integer, which is
  undefined: no check stands between the two.
\<close>

lemma negative_delay_undefined:
  assumes "parse_double ev value = Some x" "x \<le> - 1"
  shows "apply_impairment_key ev t ''base_delay_ms'' value = None"
proof -
  have "rnd (of_int 1000) \<le> rnd (- x * 1000)" using assms(2) by (intro rnd_mono_nonneg) simp_all
  then have "d_mul x 1000 \<le> - 1000" using rnd_minus [of "x * 1000"] rnd_of_int [of 1000] by (simp add: d_mul_def)
  then have "1000 \<le> \<lfloor>- d_mul x 1000\<rfloor>" "\<not> 0 \<le> d_mul x 1000" by (simp_all add: le_floor_iff)
  then have "u64_of_d (d_mul x 1000) = None" by (simp add: u64_of_d_def d_trunc_def)
  then show ?thesis by (simp add: apply_impairment_key_def scaled_def assms(1))
qed

section \<open>What the command line accepts\<close>

lemma load_lines_frame:
  "load_lines ev sc lines = Some (ok, sc') \<Longrightarrow> sc_forward sc' = sc_forward sc \<and> sc_listen sc' = sc_listen sc \<and> sc_help sc' = sc_help sc"
proof (induction lines arbitrary: sc)
  case (Cons line lines)
  obtain ok1 sc1 where l: "scenario_line ev sc line = Some (ok1, sc1)" "if ok1 then load_lines ev sc1 lines = Some (ok, sc') else sc' = sc1"
    using Cons.prems by (auto split: Option.bind_splits if_splits)
  have "sc_forward sc1 = sc_forward sc \<and> sc_listen sc1 = sc_listen sc \<and> sc_help sc1 = sc_help sc"
    using l(1) apply_directed_frame by (auto simp: scenario_line_classify split: line_kind.splits)
  then show ?case using Cons.IH l(2) by (cases ok1) auto
qed simp

lemma load_scenarios_frame:
  "load_scenarios ev sc args = Some (ok, sc') \<Longrightarrow> sc_forward sc' = sc_forward sc \<and> sc_help sc' = sc_help sc"
proof (induction args arbitrary: sc)
  case (Cons a rest)
  have from_file: "sc_forward sc1 = sc_forward sc \<and> sc_help sc1 = sc_help sc" if "load_scenario_file ev path sc = Some (b, sc1)" for path b sc1
    using that load_lines_frame by (auto simp: load_scenario_file_def split: option.splits)
  show ?case
  proof (cases "a = ''--scenario'' \<and> rest \<noteq> []")
    case True
    then obtain ok1 sc1 where l: "load_scenario_file ev (hd rest) sc = Some (ok1, sc1)"
        "if ok1 then load_scenarios ev sc1 rest = Some (ok, sc') else sc' = sc1"
      using Cons.prems by (auto split: Option.bind_splits if_splits)
    then show ?thesis using from_file [OF l(1)] Cons.IH by (cases ok1) auto
  qed (use Cons in auto)
qed simp

lemma parse_integer_below: "parse_integer bound s out = (ok, n) \<Longrightarrow> out < bound \<Longrightarrow> n < bound"
  by (auto simp: parse_integer_def from_chars_def Let_def split: if_splits)

definition args_ok :: "args_result \<Rightarrow> bool" where
  "args_ok r \<longleftrightarrow> (case r of ArgsFail \<Rightarrow> True | ArgsHelp sc \<Rightarrow> sc_help sc
     | ArgsDone sc port \<Rightarrow> port < 2 ^ 16 \<and> ep_ok (sc_forward sc))"

lemma parse_with_port_ok: "inet_contract net \<Longrightarrow> ep_parse_with_port net s = Some e \<Longrightarrow> ep_ok e"
  by (auto simp: ep_parse_with_port_def dest: ep_parse_ok split: Option.bind_splits)

lemma arg_step_ok:
  assumes "inet_contract (ev_inet ev)" "arg_step ev sc port flag rest = Some r" "port < 2 ^ 16" "ep_ok (sc_forward sc)"
  shows "case r of Stop a \<Rightarrow> args_ok a | Next sc' port' _ \<Rightarrow> port' < 2 ^ 16 \<and> ep_ok (sc_forward sc')"
proof -
  have stop: "args_ok ArgsFail" "args_ok (ArgsHelp (sc\<lparr>sc_help := True\<rparr>))" by (simp_all add: args_ok_def)
  note frame = apply_directed_frame [THEN conjunct1]
  have port: "port < 65536" "2 ^ 16 = (65536 :: nat)" using assms(3) by simp_all
  have listen: "p < 65536" if "parse_integer 65536 v port = (ok, p)" for v ok p
    using parse_integer_below [OF that] port by simp
  show ?thesis
    using assms(2) unfolding arg_step_def Let_def port(2)
    by (split if_split_asm list.split_asm option.split_asm prod.split_asm;
        auto simp: stop port assms(4) frame listen parse_with_port_ok [OF assms(1)]
          split: if_split_asm list.split_asm option.split_asm prod.split_asm Option.bind_split_asm)
qed

lemma scan_args_ok:
  assumes "inet_contract (ev_inet ev)"
  shows "scan_args ev sc port args = Some r \<Longrightarrow> port < 2 ^ 16 \<Longrightarrow> ep_ok (sc_forward sc) \<Longrightarrow> args_ok r"
  using assms
proof (induction ev sc port args rule: scan_args.induct)
  case (1 ev sc port)
  then show ?case by (auto simp: args_ok_def)
next
  case (2 ev sc port flag rest)
  obtain a where a: "arg_step ev sc port flag rest = Some a" using "2.prems"(1) by (auto split: option.splits)
  note ok = arg_step_ok [OF "2.prems"(4) a "2.prems"(2,3)]
  show ?case
  proof (cases a)
    case (Stop x)
    then show ?thesis using "2.prems"(1) a ok by simp
  next
    case (Next sc' port' rest')
    then show ?thesis using "2.IH" [OF a Next] "2.prems" a ok by simp
  qed
qed

text \<open>
  What a command line that is accepted gives: unless help was asked for, the listen endpoint is a
  well-formed address with the port asked for, which is not zero, and the forward endpoint is a
  well-formed address.
\<close>

lemma accepted_scenario:
  assumes net: "inet_contract (ev_inet ev)" and p: "parse_arguments ev args = Some (Some sc)"
  shows "sc_help sc \<or>
    (ep_ok (sc_listen sc) \<and> ep_valid (sc_listen sc) \<and> ep_port (sc_listen sc) \<noteq> 0 \<and> ep_ok (sc_forward sc) \<and> ep_valid (sc_forward sc))"
proof -
  obtain sc0 where l: "load_scenarios ev default_scenario args = Some (True, sc0)"
    using p by (auto simp: parse_arguments_def split: Option.bind_splits if_splits)
  have "sc_forward sc0 = no_endpoint" using load_scenarios_frame [OF l] by (simp add: default_scenario_def)
  then have f: "ep_ok (sc_forward sc0)" by (simp add: ep_ok_def no_endpoint_def)
  obtain r where r: "scan_args ev sc0 0 args = Some r" using p l by (auto simp: parse_arguments_def split: Option.bind_splits)
  have ok: "args_ok r" by (rule scan_args_ok [OF net r _ f]) simp
  show ?thesis
  proof (cases r)
    case (ArgsDone sc1 port)
    then obtain h e where e: "port \<noteq> 0" "ep_valid (sc_forward sc1)" "ep_parse (ev_inet ev) h (of_nat port) = Some e"
        "sc = sc1\<lparr>sc_listen := e\<rparr>"
      using p l r by (auto simp: parse_arguments_def split: if_splits Option.bind_splits)
    have "port < 65536" "ep_ok (sc_forward sc1)" using ok ArgsDone by (simp_all add: args_ok_def)
    moreover have "(of_nat port :: u16) \<noteq> 0"
    proof
      assume z: "(of_nat port :: u16) = 0"
      have "unat (of_nat port :: u16) = port" using \<open>port < 65536\<close> by (intro unat_of_nat_small) simp
      then show False using z e(1) by simp
    qed
    ultimately show ?thesis using ep_parse_ok [OF net e(3)] e by simp
  qed (use p l r ok in \<open>auto simp: parse_arguments_def args_ok_def\<close>)
qed

section \<open>Examples\<close>

definition demo_env :: env where
  "demo_env = \<lparr>
     ev_strtod = (\<lambda>s. if s = ''5'' then (5, 1) else if s = ''0'' then (0, 1) else (0, 0)),
     ev_file = (\<lambda>_. None),
     ev_inet = demo_inet\<lparr>in_pton4 := (\<lambda>s. if s = ''0.0.0.0'' then Some [0, 0, 0, 0] else in_pton4 demo_inet s)\<rparr>\<rparr>"

lemma demo_env_contract: "inet_contract (ev_inet demo_env)"
  using demo_inet_contract by (auto simp: inet_contract_def demo_env_def demo_inet_def)

text \<open>Five percent of loss upstream, none downstream.\<close>

definition asymmetric :: "string list" where
  "asymmetric = [''# asymmetric'', ''name = half'', ''loss_percent = 5'', ''down.loss_percent = 0'']"

lemma classify_asymmetric:
  "map classify_line asymmetric = [Blank, Name ''half'', Setting ''loss_percent'' ''5'', Setting ''down.loss_percent'' ''0'']"
  by (simp add: asymmetric_def classify_line_def trim_def front_space_def back_space_def find_char_def Let_def)

lemma scenario_directions_witness:
  "load_lines demo_env default_scenario asymmetric = Some (True,
     default_scenario\<lparr>sc_name := ''half'', sc_upstream := default_impairment\<lparr>im_loss_percent := 5\<rparr>\<rparr>)"
proof -
  have c: "classify_line ''# asymmetric'' = Blank" "classify_line ''name = half'' = Name ''half''"
    "classify_line ''loss_percent = 5'' = Setting ''loss_percent'' ''5''"
    "classify_line ''down.loss_percent = 0'' = Setting ''down.loss_percent'' ''0''"
    using classify_asymmetric by (simp_all add: asymmetric_def)
  have pd: "parse_double demo_env ''5'' = Some 5" "parse_double demo_env ''0'' = Some 0"
    by (simp_all add: parse_double_def demo_env_def c_string_def)
  have up: "apply_all demo_env default_impairment (concat (map up_setting asymmetric)) = Some (default_impairment\<lparr>im_loss_percent := 5\<rparr>)"
    by (simp add: asymmetric_def up_setting_def c starts_with_def apply_impairment_key_def plain_double_def pd)
  have down: "apply_all demo_env default_impairment (concat (map down_setting asymmetric)) = Some default_impairment"
    by (simp add: asymmetric_def down_setting_def c starts_with_def apply_impairment_key_def plain_double_def pd)
       (simp add: default_impairment_def)
  have name: "foldl name_of ''unnamed'' asymmetric = ''half''" by (simp add: asymmetric_def name_of_def c)
  have "\<forall>line \<in> set asymmetric. classify_line line \<noteq> Malformed" by (simp add: asymmetric_def c)
  then show ?thesis unfolding scenario_directions using up down name by (simp add: default_scenario_def)
qed

lemma demo_command_line:
  "\<exists>sc. parse_arguments demo_env [''--listen'', ''47000'', ''--forward'', ''127.0.0.1:47001'', ''up.loss_percent=5''] = Some (Some sc) \<and>
     \<not> sc_help sc"
proof -
  have port: "from_chars 65536 ''47000'' = (ErrcOk, Some 47000, 5)" "from_chars 65536 ''47001'' = (ErrcOk, Some 47001, 5)"
    by (simp_all add: from_chars_def is_digit_def read_decimal_def)
  have net: "in_pton4 (ev_inet demo_env) ''127.0.0.1'' = Some [127, 0, 0, 1]" "in_pton4 (ev_inet demo_env) ''0.0.0.0'' = Some [0, 0, 0, 0]"
    by (simp_all add: demo_env_def demo_inet_def)
  obtain fwd where fwd: "ep_parse_with_port (ev_inet demo_env) ''127.0.0.1:47001'' = Some fwd" "ep_family fwd = V4"
    using net by (simp add: ep_parse_with_port_def split_host_port_def rfind_char_def find_char_def parse_port_def port
        ep_parse_def parse_buffer_size_def inet6_addrstrlen_def c_string_def ep_v4_def no_endpoint_def memcpy_at_def kV4Bytes_def Let_def)
  obtain any where any: "ep_parse (ev_inet demo_env) ''0.0.0.0'' 47000 = Some any"
    using net by (simp add: ep_parse_def parse_buffer_size_def inet6_addrstrlen_def c_string_def find_char_def ep_v4_def
        no_endpoint_def memcpy_at_def kV4Bytes_def Let_def)
  have pd: "parse_double demo_env ''5'' = Some 5" by (simp add: parse_double_def demo_env_def c_string_def)
  have eq: "find_char (CHR ''='') ''up.loss_percent=5'' = Some 15" by (simp add: find_char_def)
  have step1: "arg_step demo_env sc 0 ''--listen'' (''47000'' # r) = Some (Next sc 47000 r)" for sc r
    by (simp add: arg_step_def parse_integer_def port)
  have step2: "arg_step demo_env sc 47000 ''--forward'' (''127.0.0.1:47001'' # r) = Some (Next (sc\<lparr>sc_forward := fwd\<rparr>) 47000 r)" for sc r
    by (simp add: arg_step_def fwd)
  have step3: "arg_step demo_env sc 47000 ''up.loss_percent=5'' [] =
      Some (Next (sc\<lparr>sc_upstream := (sc_upstream sc)\<lparr>im_loss_percent := 5\<rparr>\<rparr>) 47000 [])" for sc
    by (simp add: arg_step_def eq starts_with_def apply_directed_def apply_impairment_key_def plain_double_def pd)
  show ?thesis using any fwd(2)
    by (simp add: parse_arguments_def step1 step2 step3 ep_valid_def) (simp add: default_scenario_def)
qed

lemma accepted_scenario_witness:
  "\<exists>sc. parse_arguments demo_env [''--listen'', ''47000'', ''--forward'', ''127.0.0.1:47001'', ''up.loss_percent=5''] = Some (Some sc) \<and>
     ep_valid (sc_listen sc) \<and> ep_port (sc_listen sc) \<noteq> 0 \<and> ep_valid (sc_forward sc)"
proof -
  obtain sc where sc: "parse_arguments demo_env [''--listen'', ''47000'', ''--forward'', ''127.0.0.1:47001'', ''up.loss_percent=5''] = Some (Some sc)"
    "\<not> sc_help sc" using demo_command_line by blast
  show ?thesis using accepted_scenario [OF demo_env_contract sc(1)] sc by blast
qed

end
