(* ===== verification/Relay.thy ===== *)
theory Relay
  imports Proto Impairment Endpoint
begin

text \<open>
  The impairment proxy (tools/impair/main.cpp): the release queue, the handling of a received
  datagram, the sweep that releases what is due, the drain at the end and the ground-truth log. The
  sockets and the clock are arguments: a run is a sequence of sweeps and received datagrams. The
  theory proves that no packet is lost between the impairment model and the sockets without being
  counted, that the drain ends with an empty queue, and that the relay reorders packets the model did
  not reorder.
\<close>

section \<open>State\<close>

record pending =
  pd_release_us :: micros
  pd_length :: nat
  pd_to_forward :: bool
  pd_occupied :: bool
  pd_serial :: u64
  pd_data :: bytes

definition no_pending :: pending where
  "no_pending = \<lparr>pd_release_us = 0, pd_length = 0, pd_to_forward = False, pd_occupied = False, pd_serial = 0,
     pd_data = replicate kMaxDatagram 0\<rparr>"

definition kQueueCapacity :: nat where "kQueueCapacity = 1024"

record log_row =
  lr_serial :: u64
  lr_to_forward :: bool
  lr_verdict :: im_verdict
  lr_arrival_us :: micros
  lr_release_us :: micros
  lr_delay_us :: micros
  lr_bytes :: nat
  lr_packet_type :: string
  lr_has_media :: bool
  lr_stream_id :: u32
  lr_sequence :: u32
  lr_duplicate :: bool
  lr_reordered :: bool

definition default_row :: log_row where
  "default_row = \<lparr>lr_serial = 0, lr_to_forward = False, lr_verdict = Forward, lr_arrival_us = 0, lr_release_us = 0,
     lr_delay_us = 0, lr_bytes = 0, lr_packet_type = ''other'', lr_has_media = False, lr_stream_id = 0,
     lr_sequence = 0, lr_duplicate = False, lr_reordered = False\<rparr>"

record direction =
  di_engine :: engine
  di_received :: u64
  di_emitted :: u64
  di_queue_full :: u64
  di_send_errors :: u64

definition make_direction :: "impairment \<Rightarrow> u64 \<Rightarrow> direction" where
  "make_direction config seed =
     \<lparr>di_engine = en_make config seed, di_received = 0, di_emitted = 0, di_queue_full = 0, di_send_errors = 0\<rparr>"

text \<open>The locals of \<open>main\<close>; \<open>rl_forward\<close> and \<open>rl_logging\<close> are fixed by the scenario.\<close>

record relay =
  rl_forward :: endpoint
  rl_logging :: bool
  rl_upstream :: direction
  rl_downstream :: direction
  rl_queue :: "pending list"
  rl_log :: "log_row list"
  rl_client :: endpoint
  rl_serial :: u64

definition relay_start :: "endpoint \<Rightarrow> bool \<Rightarrow> impairment \<Rightarrow> impairment \<Rightarrow> u64 \<Rightarrow> relay" where
  "relay_start forward logging up down seed =
     \<lparr>rl_forward = forward, rl_logging = logging, rl_upstream = make_direction up seed,
       rl_downstream = make_direction down (seed XOR 0x9E3779B97F4A7C15),
       rl_queue = replicate kQueueCapacity no_pending, rl_log = [], rl_client = no_endpoint, rl_serial = 0\<rparr>"

text \<open>\<open>to_forward ? upstream : downstream\<close>\<close>

definition rl_dir :: "relay \<Rightarrow> bool \<Rightarrow> direction" where
  "rl_dir rl up = (if up then rl_upstream rl else rl_downstream rl)"

definition on_dir :: "bool \<Rightarrow> (direction \<Rightarrow> direction) \<Rightarrow> relay \<Rightarrow> relay" where
  "on_dir up f rl = (if up then rl\<lparr>rl_upstream := f (rl_upstream rl)\<rparr> else rl\<lparr>rl_downstream := f (rl_downstream rl)\<rparr>)"

section \<open>Receiving\<close>

fun claim_slot :: "pending list \<Rightarrow> nat option" where
  "claim_slot [] = None"
| "claim_slot (s # q) = (if \<not> pd_occupied s then Some 0 else map_option Suc (claim_slot q))"

text \<open>The parsers stay inside the datagram, so the result is always \<open>Some\<close> (lemma \<open>classify_total\<close>).\<close>

definition classify :: "bytes \<Rightarrow> log_row \<Rightarrow> log_row option" where
  "classify datagram row = do {
     ty \<leftarrow> peek_type datagram;
     case ty of
       Inl _ \<Rightarrow> Some (row\<lparr>lr_packet_type := ''unparsed''\<rparr>)
     | Inr Audio \<Rightarrow> do {
         media \<leftarrow> parse_media datagram;
         let row = row\<lparr>lr_packet_type := ''audio''\<rparr>;
         Some (case media of
           Inl _ \<Rightarrow> row
         | Inr m \<Rightarrow> row\<lparr>lr_has_media := True, lr_stream_id := mh_stream_id (mp_header m),
                       lr_sequence := mh_sequence (mp_header m)\<rparr>)
       }
     | Inr Ping \<Rightarrow> Some (row\<lparr>lr_packet_type := ''ping''\<rparr>)
     | Inr Pong \<Rightarrow> Some (row\<lparr>lr_packet_type := ''pong''\<rparr>)
     | Inr _ \<Rightarrow> Some (row\<lparr>lr_packet_type := ''control''\<rparr>)
   }"

definition enqueue :: "relay \<Rightarrow> bool \<Rightarrow> bytes \<Rightarrow> micros \<Rightarrow> u64 \<Rightarrow> (bool \<times> relay) option" where
  "enqueue rl to_forward datagram release_us serial =
     (case claim_slot (rl_queue rl) of
        None \<Rightarrow> Some (False, on_dir to_forward (\<lambda>d. d\<lparr>di_queue_full := di_queue_full d + 1\<rparr>) rl)
      | Some i \<Rightarrow> do {
          data \<leftarrow> memcpy_at (pd_data (rl_queue rl ! i)) 0 datagram;
          Some (True, rl\<lparr>rl_queue := (rl_queue rl)[i := \<lparr>pd_release_us = release_us, pd_length = length datagram,
             pd_to_forward = to_forward, pd_occupied = True, pd_serial = serial, pd_data = data\<rparr>]\<rparr>)
        })"

text \<open>The body of the receive loop: one datagram from the client or from the forward side.\<close>

definition relay_packet :: "cmath \<Rightarrow> relay \<Rightarrow> bool \<Rightarrow> endpoint \<Rightarrow> bytes \<Rightarrow> micros \<Rightarrow> relay option" where
  "relay_packet m rl from_client sender datagram arrival_us = do {
     let rl = (if from_client then rl\<lparr>rl_client := sender\<rparr> else rl);
     let rl = on_dir from_client (\<lambda>d. d\<lparr>di_received := di_received d + 1\<rparr>) rl;
     (decision, engine) \<leftarrow> en_decide m (di_engine (rl_dir rl from_client)) (length datagram) arrival_us;
     let rl = on_dir from_client (\<lambda>d. d\<lparr>di_engine := engine\<rparr>) rl;
     let row = default_row\<lparr>lr_serial := rl_serial rl, lr_to_forward := from_client, lr_verdict := dc_verdict decision,
               lr_arrival_us := arrival_us, lr_bytes := length datagram, lr_duplicate := dc_duplicate decision,
               lr_reordered := dc_reorder_applied decision\<rparr>;
     let rl = rl\<lparr>rl_serial := rl_serial rl + 1\<rparr>;
     row \<leftarrow> classify datagram row;
     (row, rl) \<leftarrow> (if dc_forwarded decision then do {
         let row = row\<lparr>lr_delay_us := dc_delay_us decision, lr_release_us := arrival_us + dc_delay_us decision\<rparr>;
         (queued, rl) \<leftarrow> enqueue rl from_client datagram (lr_release_us row) (lr_serial row);
         let row = (if \<not> queued then row\<lparr>lr_verdict := DropRateLimit\<rparr> else row);
         if dc_duplicate decision then do {
           (_, rl) \<leftarrow> enqueue rl from_client datagram (arrival_us + dc_duplicate_delay_us decision) (lr_serial row);
           Some (row, rl)
         } else Some (row, rl)
       } else Some (row, rl));
     Some (if rl_logging rl then rl\<lparr>rl_log := rl_log rl @ [row]\<rparr> else rl)
   }"

section \<open>Releasing\<close>

text \<open>
  The network: a state and what a send does to it, with the side, the target and the bytes; false is
  a send error.
\<close>

type_synonym 'w send = "'w \<Rightarrow> bool \<Rightarrow> endpoint \<Rightarrow> bytes \<Rightarrow> bool \<times> 'w"

record 'w sweep =
  sw_relay :: relay
  sw_world :: 'w
  sw_next_release :: micros
  sw_still_held :: nat

text \<open>One slot of the walk: the slot afterwards, and the rest of the state.\<close>

definition sweep_slot :: "'w send \<Rightarrow> micros \<Rightarrow> pending \<Rightarrow> 'w sweep \<Rightarrow> pending \<times> 'w sweep" where
  "sweep_slot send now slot st =
     (if \<not> pd_occupied slot then (slot, st)
      else if pd_release_us slot \<le> now then
        let up = pd_to_forward slot; rl = sw_relay st;
            target = (if up then rl_forward rl else rl_client rl);
            st = (if ep_valid target then
                    let (sent, w) = send (sw_world st) up target (take (pd_length slot) (pd_data slot)) in
                    st\<lparr>sw_world := w, sw_relay := on_dir up (\<lambda>d. if sent then d\<lparr>di_emitted := di_emitted d + 1\<rparr>
                        else d\<lparr>di_send_errors := di_send_errors d + 1\<rparr>) rl\<rparr>
                  else st) in
        (slot\<lparr>pd_occupied := False\<rparr>, st)
      else
        (slot, st\<lparr>sw_still_held := sw_still_held st + 1,
                  sw_next_release := (if sw_next_release st = 0 \<or> pd_release_us slot < sw_next_release st
                                      then pd_release_us slot else sw_next_release st)\<rparr>))"

fun sweep_slots :: "'w send \<Rightarrow> micros \<Rightarrow> pending list \<Rightarrow> 'w sweep \<Rightarrow> pending list \<times> 'w sweep" where
  "sweep_slots send now [] st = ([], st)"
| "sweep_slots send now (s # q) st =
     (let (s, st) = sweep_slot send now s st; (q, st) = sweep_slots send now q st in (s # q, st))"

definition relay_sweep :: "'w send \<Rightarrow> micros \<Rightarrow> relay \<Rightarrow> 'w \<Rightarrow> 'w sweep" where
  "relay_sweep send now rl w =
     (let (q, st) = sweep_slots send now (rl_queue rl) \<lparr>sw_relay = rl, sw_world = w, sw_next_release = 0, sw_still_held = 0\<rparr> in
      st\<lparr>sw_relay := (sw_relay st)\<lparr>rl_queue := q\<rparr>\<rparr>)"

definition poll_timeout_ms :: "micros \<Rightarrow> micros \<Rightarrow> int" where
  "poll_timeout_ms next_release now =
     (if next_release \<noteq> 0 then
        let wait = (if next_release > now then next_release - now else 0);
            t = sint (ucast ((wait + 999) div 1000) :: 32 word);
            t = (if t > 20 then 20 else t) in
        if t < 1 then 1 else t
      else 20)"

section \<open>The drain\<close>

definition kMaxDrainUs :: micros where "kMaxDrainUs = 5000000"

definition discard_all :: "relay \<Rightarrow> u64 \<times> relay" where
  "discard_all rl =
     (of_nat (length (filter pd_occupied (rl_queue rl))),
      rl\<lparr>rl_queue := map (\<lambda>s. if pd_occupied s then s\<lparr>pd_occupied := False\<rparr> else s) (rl_queue rl)\<rparr>)"

text \<open>The drain loop over the clock readings of its iterations: \<open>None\<close> is a loop that goes on.\<close>

fun relay_drain :: "'w send \<Rightarrow> micros \<Rightarrow> micros list \<Rightarrow> relay \<Rightarrow> 'w \<Rightarrow> (u64 \<times> relay \<times> 'w) option" where
  "relay_drain send drain_started [] rl w = None"
| "relay_drain send drain_started (now # clock) rl w =
     (let st = relay_sweep send now rl w in
      if sw_still_held st = 0 then Some (0, sw_relay st, sw_world st)
      else if now - drain_started > kMaxDrainUs then
        let (n, rl) = discard_all (sw_relay st) in Some (n, rl, sw_world st)
      else relay_drain send drain_started clock (sw_relay st) (sw_world st))"

section \<open>The log\<close>

definition log_header :: string where
  "log_header = ''serial,direction,verdict,arrival_us,release_us,delay_us,bytes,type,stream_id,sequence,duplicate,reordered'' @ [CHR 0x0A]"

definition log_line :: "log_row \<Rightarrow> string list" where
  "log_line r =
     [decimal (unat (lr_serial r)) @ '','' @ (if lr_to_forward r then ''upstream'' else ''downstream'') @ '','' @
        im_verdict_to_string (lr_verdict r) @ '','' @ decimal (unat (lr_arrival_us r)) @ '','' @
        decimal (unat (lr_release_us r)) @ '','' @ decimal (unat (lr_delay_us r)) @ '','' @ decimal (lr_bytes r) @ '','' @
        lr_packet_type r @ '','',
      (if lr_has_media r then decimal (unat (lr_stream_id r)) @ '','' @ decimal (unat (lr_sequence r)) @ '','' else '',,''),
      (if lr_duplicate r then ''1'' else ''0'') @ '','' @ (if lr_reordered r then ''1'' else ''0'') @ [CHR 0x0A]]"

text \<open>The results of the \<open>fprintf\<close> calls are ignored.\<close>

definition write_log :: "'f option \<Rightarrow> ('f \<Rightarrow> string \<Rightarrow> 'f) \<Rightarrow> log_row list \<Rightarrow> 'f option" where
  "write_log out put rows = map_option (\<lambda>f. foldl put f (log_header # concat (map log_line rows))) out"

section \<open>Runs\<close>

datatype relay_event = RlSweep micros | RlPacket bool endpoint bytes micros

fun relay_step :: "cmath \<Rightarrow> 'w send \<Rightarrow> relay \<times> 'w \<Rightarrow> relay_event \<Rightarrow> (relay \<times> 'w) option" where
  "relay_step m send (rl, w) (RlSweep now) = (let st = relay_sweep send now rl w in Some (sw_relay st, sw_world st))"
| "relay_step m send (rl, w) (RlPacket from_client sender datagram arrival) =
     map_option (\<lambda>rl. (rl, w)) (relay_packet m rl from_client sender datagram arrival)"

fun relay_run :: "cmath \<Rightarrow> 'w send \<Rightarrow> relay \<times> 'w \<Rightarrow> relay_event list \<Rightarrow> (relay \<times> 'w) option" where
  "relay_run m send s [] = Some s"
| "relay_run m send s (e # es) = do { s \<leftarrow> relay_step m send s e; relay_run m send s es }"

section \<open>What is held and what is accounted for\<close>

definition held :: "pending list \<Rightarrow> bool \<Rightarrow> nat" where
  "held q up = length (filter (\<lambda>s. pd_occupied s \<and> pd_to_forward s = up) q)"

text \<open>The copies a direction was asked to send, and those that are settled.\<close>

definition owed :: "direction \<Rightarrow> u64" where
  "owed d = ic_forwarded (en_counters (di_engine d)) + ic_duplicated (en_counters (di_engine d))"

definition settled :: "direction \<Rightarrow> u64" where
  "settled d = di_emitted d + di_send_errors d + di_queue_full d"

definition balanced :: "relay \<Rightarrow> bool \<Rightarrow> bool" where
  "balanced rl up \<longleftrightarrow> owed (rl_dir rl up) = settled (rl_dir rl up) + of_nat (held (rl_queue rl) up)"

lemma rl_dir_upd [simp]:
  "rl_dir (on_dir up f rl) b = (if b = up then f (rl_dir rl b) else rl_dir rl b)"
  "rl_dir (rl\<lparr>rl_queue := q\<rparr>) b = rl_dir rl b" "rl_dir (rl\<lparr>rl_client := e\<rparr>) b = rl_dir rl b"
  "rl_dir (rl\<lparr>rl_serial := n\<rparr>) b = rl_dir rl b" "rl_dir (rl\<lparr>rl_log := l\<rparr>) b = rl_dir rl b"
  by (auto simp: rl_dir_def on_dir_def)

lemma on_dir_fields [simp]:
  "rl_queue (on_dir up f rl) = rl_queue rl" "rl_client (on_dir up f rl) = rl_client rl"
  "rl_forward (on_dir up f rl) = rl_forward rl" "rl_serial (on_dir up f rl) = rl_serial rl"
  "rl_log (on_dir up f rl) = rl_log rl" "rl_logging (on_dir up f rl) = rl_logging rl"
  by (simp_all add: on_dir_def)

lemma held_simps [simp]:
  "held [] up = 0"
  "held (s # q) up = (if pd_occupied s \<and> pd_to_forward s = up then 1 else 0) + held q up"
  by (simp_all add: held_def)

lemma held_total: "length (filter pd_occupied q) = held q True + held q False"
  by (induction q) auto

text \<open>What a sweep leaves of the relay: everything but the two send counters.\<close>

definition sent_only :: "relay \<Rightarrow> relay \<Rightarrow> bool" where
  "sent_only rl rl' \<longleftrightarrow> rl_forward rl' = rl_forward rl \<and> rl_client rl' = rl_client rl \<and> rl_serial rl' = rl_serial rl \<and>
     rl_log rl' = rl_log rl \<and> rl_logging rl' = rl_logging rl \<and>
     (\<forall>up. di_engine (rl_dir rl' up) = di_engine (rl_dir rl up) \<and> di_received (rl_dir rl' up) = di_received (rl_dir rl up) \<and>
       di_queue_full (rl_dir rl' up) = di_queue_full (rl_dir rl up))"

lemma sent_only_refl [simp]: "sent_only rl rl" and sent_only_trans: "sent_only a b \<Longrightarrow> sent_only b c \<Longrightarrow> sent_only a c"
  by (auto simp: sent_only_def)

definition target_known :: "relay \<Rightarrow> pending \<Rightarrow> bool" where
  "target_known rl s \<longleftrightarrow> \<not> pd_occupied s \<or> ep_valid (if pd_to_forward s then rl_forward rl else rl_client rl)"

lemma sweep_slot_settles:
  assumes "sweep_slot send now s st = (s', st')" "target_known (sw_relay st) s"
  shows "sent_only (sw_relay st) (sw_relay st') \<and>
    settled (rl_dir (sw_relay st') up) + of_nat (held [s'] up) = settled (rl_dir (sw_relay st) up) + of_nat (held [s] up) \<and>
    sw_still_held st' = sw_still_held st + (if pd_occupied s' then 1 else 0) \<and>
    (pd_occupied s' \<longrightarrow> now < pd_release_us s') \<and> pd_data s' = pd_data s \<and> (\<not> pd_occupied s \<longrightarrow> \<not> pd_occupied s') \<and>
    pd_to_forward s' = pd_to_forward s"
proof (cases "pd_occupied s \<and> pd_release_us s \<le> now")
  case True
  obtain ok w where w: "send (sw_world st) (pd_to_forward s) (if pd_to_forward s then rl_forward (sw_relay st) else rl_client (sw_relay st))
      (take (pd_length s) (pd_data s)) = (ok, w)" by fastforce
  have "s' = s\<lparr>pd_occupied := False\<rparr>"
    "st' = st\<lparr>sw_world := w, sw_relay := on_dir (pd_to_forward s) (\<lambda>d. if ok then d\<lparr>di_emitted := di_emitted d + 1\<rparr>
       else d\<lparr>di_send_errors := di_send_errors d + 1\<rparr>) (sw_relay st)\<rparr>"
    using assms True w by (simp_all add: sweep_slot_def target_known_def Let_def)
  then show ?thesis using True by (simp add: sent_only_def settled_def)
next
  case False
  then show ?thesis using assms(1) by (auto simp: sweep_slot_def split: if_splits)
qed

lemma target_known_sent: "sent_only rl rl' \<Longrightarrow> target_known rl' s = target_known rl s"
  by (simp add: target_known_def sent_only_def)

lemma settle_trans: "x + b = y + c \<Longrightarrow> y + a = z + e \<Longrightarrow> x + (a + b) = z + (e + c)" for a :: "'n::comm_monoid_add"
proof -
  assume 1: "x + b = y + c" and 2: "y + a = z + e"
  have "x + (a + b) = (x + b) + a" by (simp add: ac_simps)
  also have "\<dots> = (y + a) + c" unfolding 1 by (simp add: ac_simps)
  also have "\<dots> = z + (e + c)" unfolding 2 by (simp add: ac_simps)
  finally show ?thesis .
qed

lemma sweep_slots_settles:
  assumes "sweep_slots send now q st = (q', st')" "\<forall>s \<in> set q. target_known (sw_relay st) s"
  shows "sent_only (sw_relay st) (sw_relay st') \<and>
    settled (rl_dir (sw_relay st') up) + of_nat (held q' up) = settled (rl_dir (sw_relay st) up) + of_nat (held q up) \<and>
    sw_still_held st' = sw_still_held st + length (filter pd_occupied q') \<and>
    (\<forall>s \<in> set q'. pd_occupied s \<longrightarrow> now < pd_release_us s) \<and> map pd_data q' = map pd_data q \<and> held q' up \<le> held q up"
  using assms
proof (induction q arbitrary: st q')
  case (Cons s q)
  obtain s1 st1 where 1: "sweep_slot send now s st = (s1, st1)" by fastforce
  obtain q2 where 2: "sweep_slots send now q st1 = (q2, st')" "q' = s1 # q2" using Cons.prems(1) 1 by (auto split: prod.splits)
  have k: "target_known (sw_relay st) s" using Cons.prems(2) by simp
  note a = sweep_slot_settles [OF 1 k, of up]
  have "\<forall>s \<in> set q. target_known (sw_relay st1) s" using Cons.prems(2) a target_known_sent by auto
  note b = Cons.IH [OF 2(1) this]
  have sent: "sent_only (sw_relay st) (sw_relay st')" using a b sent_only_trans by blast
  have h: "held q' up = held [s1] up + held q2 up" "held (s # q) up = held [s] up + held q up" by (simp_all add: 2(2))
  have "settled (rl_dir (sw_relay st') up) + of_nat (held q2 up) = settled (rl_dir (sw_relay st1) up) + of_nat (held q up)"
    "settled (rl_dir (sw_relay st1) up) + of_nat (held [s1] up) = settled (rl_dir (sw_relay st) up) + of_nat (held [s] up)"
    using a b by blast+
  then have "settled (rl_dir (sw_relay st') up) + of_nat (held q' up) =
      settled (rl_dir (sw_relay st) up) + of_nat (held (s # q) up)"
    unfolding h of_nat_add by (rule settle_trans)
  moreover have "held q' up \<le> held (s # q) up"
  proof -
    have "held [s1] up \<le> held [s] up" "held q2 up \<le> held q up" using a b by auto
    then show ?thesis unfolding h by simp
  qed
  moreover have "sw_still_held st' = sw_still_held st + length (filter pd_occupied q')"
    using a [THEN conjunct2, THEN conjunct2, THEN conjunct1] b [THEN conjunct2, THEN conjunct2, THEN conjunct1] by (simp add: 2(2))
  moreover have "\<forall>s \<in> set q'. pd_occupied s \<longrightarrow> now < pd_release_us s" "map pd_data q' = map pd_data (s # q)"
    using a b by (simp_all add: 2(2))
  ultimately show ?case using sent by blast
qed simp

lemma sweep_slots_data: "sweep_slots send now q st = (q', st') \<Longrightarrow> map pd_data q' = map pd_data q"
  by (induction q arbitrary: st q') (auto simp: sweep_slot_def Let_def split: prod.splits if_splits)

lemma relay_sweep_settles:
  fixes send :: "'w send" and w :: 'w and now :: micros
  assumes "\<forall>s \<in> set (rl_queue rl). target_known rl s"
  defines "st \<equiv> relay_sweep send now rl w"
  shows "sent_only rl (sw_relay st)" "balanced rl up \<Longrightarrow> balanced (sw_relay st) up"
    "sw_still_held st = length (filter pd_occupied (rl_queue (sw_relay st)))"
    "\<forall>s \<in> set (rl_queue (sw_relay st)). pd_occupied s \<longrightarrow> now < pd_release_us s"
    "map pd_data (rl_queue (sw_relay st)) = map pd_data (rl_queue rl)" "held (rl_queue (sw_relay st)) up \<le> held (rl_queue rl) up"
proof -
  obtain q st1 where 1: "sweep_slots send now (rl_queue rl) \<lparr>sw_relay = rl, sw_world = w, sw_next_release = 0, sw_still_held = 0\<rparr> = (q, st1)"
    by fastforce
  have st: "st = st1\<lparr>sw_relay := (sw_relay st1)\<lparr>rl_queue := q\<rparr>\<rparr>" using 1 by (simp add: st_def relay_sweep_def)
  note a = sweep_slots_settles [OF 1, of up, simplified]
  have k: "\<forall>s \<in> set (rl_queue rl). target_known rl s" by (rule assms(1))
  show "sent_only rl (sw_relay st)" using a k by (simp add: st sent_only_def)
  show "balanced (sw_relay st) up" if "balanced rl up"
    using that a k by (simp add: st balanced_def owed_def sent_only_def)
  show "sw_still_held st = length (filter pd_occupied (rl_queue (sw_relay st)))"
    "\<forall>s \<in> set (rl_queue (sw_relay st)). pd_occupied s \<longrightarrow> now < pd_release_us s"
    "map pd_data (rl_queue (sw_relay st)) = map pd_data (rl_queue rl)" "held (rl_queue (sw_relay st)) up \<le> held (rl_queue rl) up"
    using a k by (simp_all add: st)
qed

section \<open>Receiving keeps the balance\<close>

lemma claim_slot_free: "claim_slot q = Some i \<Longrightarrow> i < length q \<and> \<not> pd_occupied (q ! i)"
  by (induction q arbitrary: i) (auto split: if_splits)

lemma held_update:
  "i < length q \<Longrightarrow> \<not> pd_occupied (q ! i) \<Longrightarrow> pd_occupied s \<Longrightarrow>
   held (q[i := s]) up = held q up + (if pd_to_forward s = up then 1 else 0)"
  by (induction q arbitrary: i) (auto split: nat.splits)

definition slots_ok :: "pending list \<Rightarrow> bool" where
  "slots_ok q \<longleftrightarrow> (\<forall>s \<in> set q. length (pd_data s) = kMaxDatagram)"

lemma slots_ok_data: "map pd_data q' = map pd_data q \<Longrightarrow> slots_ok q' = slots_ok q"
proof -
  have "slots_ok q \<longleftrightarrow> (\<forall>d \<in> set (map pd_data q). length d = kMaxDatagram)" for q by (simp add: slots_ok_def)
  then show "map pd_data q' = map pd_data q \<Longrightarrow> slots_ok q' = slots_ok q" by presburger
qed

text \<open>A copy is queued or counted as an overflow of its direction.\<close>

lemma enqueue_settles:
  assumes "enqueue rl up datagram release serial = Some (ok, rl')" "slots_ok (rl_queue rl)"
  shows "slots_ok (rl_queue rl') \<and>
    settled (rl_dir rl' b) + of_nat (held (rl_queue rl') b) =
      settled (rl_dir rl b) + of_nat (held (rl_queue rl) b) + (if b = up then 1 else 0) \<and>
    di_engine (rl_dir rl' b) = di_engine (rl_dir rl b) \<and> rl_client rl' = rl_client rl \<and> rl_forward rl' = rl_forward rl \<and>
    (b \<noteq> up \<longrightarrow> held (rl_queue rl') b = held (rl_queue rl) b) \<and> rl_log rl' = rl_log rl \<and> rl_logging rl' = rl_logging rl \<and>
    rl_serial rl' = rl_serial rl \<and> di_received (rl_dir rl' b) = di_received (rl_dir rl b)"
proof (cases "claim_slot (rl_queue rl)")
  case None
  then have "rl' = on_dir up (\<lambda>d. d\<lparr>di_queue_full := di_queue_full d + 1\<rparr>) rl" using assms(1) by (simp add: enqueue_def)
  then show ?thesis using assms(2) by (simp add: settled_def)
next
  case (Some i)
  then have i: "i < length (rl_queue rl)" "\<not> pd_occupied (rl_queue rl ! i)" using claim_slot_free by blast+
  obtain data where d: "memcpy_at (pd_data (rl_queue rl ! i)) 0 datagram = Some data"
    "rl' = rl\<lparr>rl_queue := (rl_queue rl)[i := \<lparr>pd_release_us = release, pd_length = length datagram, pd_to_forward = up,
       pd_occupied = True, pd_serial = serial, pd_data = data\<rparr>]\<rparr>"
    using assms(1) Some by (auto simp: enqueue_def split: Option.bind_splits)
  have "length (pd_data (rl_queue rl ! i)) = kMaxDatagram" using assms(2) i(1) by (simp add: slots_ok_def)
  then have "length data = kMaxDatagram" using d(1) by (auto simp: memcpy_at_def split: if_splits)
  then have "slots_ok (rl_queue rl')" using assms(2) set_update_subset_insert by (fastforce simp: d(2) slots_ok_def)
  then show ?thesis using i by (simp add: d(2) held_update) 
qed

lemma enqueue_total: "slots_ok (rl_queue rl) \<Longrightarrow> length datagram \<le> kMaxDatagram \<Longrightarrow>
    \<exists>ok rl'. enqueue rl up datagram release serial = Some (ok, rl')"
proof (cases "claim_slot (rl_queue rl)")
  case (Some i)
  assume "slots_ok (rl_queue rl)" "length datagram \<le> kMaxDatagram"
  moreover have "i < length (rl_queue rl)" using claim_slot_free [OF Some] by blast
  ultimately have "length datagram \<le> length (pd_data (rl_queue rl ! i))" by (simp add: slots_ok_def)
  then show ?thesis using Some by (auto simp: enqueue_def ub_simps intro: exI [of _ True])
qed (auto simp: enqueue_def)

lemma classify_total: "\<exists>row'. classify d row = Some row' \<and> lr_serial row' = lr_serial row"
proof -
  obtain r where "validate_prefix d = Some r" using validate_prefix_total by blast
  then obtain t where t: "peek_type d = Some t" by (cases r) (simp_all add: peek_type_def)
  show ?thesis
  proof (cases t)
    case (Inr ty)
    obtain md where "parse_media d = Some md" using media_class_parse [of d] by blast
    then show ?thesis using t Inr by (cases ty; cases md) (auto simp: classify_def Let_def)
  qed (use t in \<open>simp add: classify_def\<close>)
qed

text \<open>What the handling of a datagram does with its copies: \<open>n\<close> calls of \<open>enqueue\<close> in a row.\<close>

inductive enqueues :: "bool \<Rightarrow> bytes \<Rightarrow> nat \<Rightarrow> relay \<Rightarrow> relay \<Rightarrow> bool" for up d where
  none: "enqueues up d 0 rl rl"
| copy: "enqueue rl up d release serial = Some (ok, rl1) \<Longrightarrow> enqueues up d n rl1 rl2 \<Longrightarrow> enqueues up d (Suc n) rl rl2"

lemma enqueues_settles:
  assumes "enqueues up d n rl rl'" "slots_ok (rl_queue rl)"
  shows "slots_ok (rl_queue rl') \<and>
    settled (rl_dir rl' b) + of_nat (held (rl_queue rl') b) =
      settled (rl_dir rl b) + of_nat (held (rl_queue rl) b) + (if b = up then of_nat n else 0) \<and>
    di_engine (rl_dir rl' b) = di_engine (rl_dir rl b) \<and> rl_client rl' = rl_client rl \<and> rl_forward rl' = rl_forward rl \<and>
    (b \<noteq> up \<longrightarrow> held (rl_queue rl') b = held (rl_queue rl) b)"
  using assms
proof (induction rule: enqueues.induct)
  case (copy rl release serial ok rl1 n rl2)
  note 1 = enqueue_settles [OF copy.hyps(1) copy.prems, of b]
  have "slots_ok (rl_queue rl1)" using 1 by blast
  note 2 = copy.IH [OF this]
  have "settled (rl_dir rl2 b) + of_nat (held (rl_queue rl2) b) =
      (settled (rl_dir rl1 b) + of_nat (held (rl_queue rl1) b)) + (if b = up then of_nat n else 0)" using 2 by blast
  also have "settled (rl_dir rl1 b) + of_nat (held (rl_queue rl1) b) =
      settled (rl_dir rl b) + of_nat (held (rl_queue rl) b) + (if b = up then 1 else 0)" using 1 by blast
  also have "\<dots> + (if b = up then of_nat n else 0) =
      settled (rl_dir rl b) + of_nat (held (rl_queue rl) b) + (if b = up then of_nat (Suc n) else 0)" by simp
  finally show ?case using 1 2 by metis
qed simp

definition count_received :: "bool \<Rightarrow> endpoint \<Rightarrow> relay \<Rightarrow> relay" where
  "count_received up sender rl =
     on_dir up (\<lambda>d. d\<lparr>di_received := di_received d + 1\<rparr>) (if up then rl\<lparr>rl_client := sender\<rparr> else rl)"

definition copies :: "decision \<Rightarrow> nat" where
  "copies d = (if dc_forwarded d then if dc_duplicate d then 2 else 1 else 0)"

lemma packet_cases:
  assumes "relay_packet m rl up sender datagram arrival = Some rl'"
  obtains decision engine rlx row where
    "en_decide m (di_engine (rl_dir rl up)) (length datagram) arrival = Some (decision, engine)"
    "enqueues up datagram (copies decision)
       ((on_dir up (\<lambda>d. d\<lparr>di_engine := engine\<rparr>) (count_received up sender rl))\<lparr>rl_serial := rl_serial rl + 1\<rparr>) rlx"
    "rl' = (if rl_logging rlx then rlx\<lparr>rl_log := rl_log rlx @ [row]\<rparr> else rlx)"
proof -
  define rl1 where "rl1 = count_received up sender rl"
  have 1: "di_engine (rl_dir rl1 up) = di_engine (rl_dir rl up)" "rl_serial rl1 = rl_serial rl"
    by (simp_all add: rl1_def count_received_def)
  note run = assms [unfolded relay_packet_def Let_def, folded count_received_def, folded rl1_def]
  obtain decision engine where dec: "en_decide m (di_engine (rl_dir rl1 up)) (length datagram) arrival = Some (decision, engine)"
    using run by (auto split: Option.bind_splits)
  define rl2 where "rl2 = (on_dir up (\<lambda>d. d\<lparr>di_engine := engine\<rparr>) rl1)
      \<lparr>rl_serial := rl_serial (on_dir up (\<lambda>d. d\<lparr>di_engine := engine\<rparr>) rl1) + 1\<rparr>"
  have 2: "rl2 = (on_dir up (\<lambda>d. d\<lparr>di_engine := engine\<rparr>) rl1)\<lparr>rl_serial := rl_serial rl + 1\<rparr>"
    by (simp add: rl2_def 1)
  note run0 = run [unfolded dec bind.bind_lunit prod.case, folded rl2_def]
  obtain row1 where cl: "classify datagram (default_row\<lparr>lr_serial := rl_serial (on_dir up (\<lambda>d. d\<lparr>di_engine := engine\<rparr>) rl1), lr_to_forward := up,
      lr_verdict := dc_verdict decision, lr_arrival_us := arrival, lr_bytes := length datagram,
      lr_duplicate := dc_duplicate decision, lr_reordered := dc_reorder_applied decision\<rparr>) = Some row1"
    using classify_total by blast
  note run1 = run0 [unfolded cl bind.bind_lunit]
  define logged :: "relay \<Rightarrow> relay \<Rightarrow> bool" where "logged rl' = (\<lambda>rlx. \<exists>row. rl' = (if rl_logging rlx then rlx\<lparr>rl_log := rl_log rlx @ [row]\<rparr> else rlx))" for rl'
  have "\<exists>rlx. enqueues up datagram (copies decision) rl2 rlx \<and> logged rl' rlx"
  proof (cases "dc_forwarded decision")
    case False
    then have "logged rl' rl2" using run1 by (auto simp: logged_def split: Option.bind_splits)
    then show ?thesis using False by (auto simp: copies_def intro: enqueues.none)
  next
    case True
    obtain q rl3 where e1: "enqueue rl2 up datagram (arrival + dc_delay_us decision) (lr_serial row1) = Some (q, rl3)"
      using run1 True by (auto simp: Let_def split: Option.bind_splits)
    show ?thesis
    proof (cases "dc_duplicate decision")
      case False
      then have "logged rl' rl3" using run1 True False e1 by (auto simp: logged_def Let_def split: if_splits)
      then show ?thesis using True False e1 by (auto simp: copies_def intro: enqueues.intros)
    next
      case dup: True
      obtain q' rl4 where e2: "enqueue rl3 up datagram (arrival + dc_duplicate_delay_us decision) (lr_serial row1) = Some (q', rl4)"
        using run1 True dup e1 by (auto simp: Let_def split: Option.bind_splits if_splits)
      have "logged rl' rl4" using run1 True dup e1 e2 by (auto simp: logged_def Let_def split: if_splits)
      moreover have "enqueues up datagram (Suc (Suc 0)) rl2 rl4" by (rule enqueues.copy [OF e1 enqueues.copy [OF e2 enqueues.none]])
      ultimately show ?thesis using True dup by (auto simp: copies_def numeral_2_eq_2)
    qed
  qed
  then show ?thesis using that dec [unfolded 1] unfolding 2 rl1_def logged_def by blast
qed

section \<open>Conservation\<close>

text \<open>
  The event sequences considered: datagrams fit the receive buffer, senders have an address, and the
  forward side answers only after a client has spoken.
\<close>

fun events_ok :: "bool \<Rightarrow> relay_event list \<Rightarrow> bool" where
  "events_ok known [] = True"
| "events_ok known (RlSweep now # es) = events_ok known es"
| "events_ok known (RlPacket from_client sender datagram arrival # es) =
     (length datagram \<le> kMaxDatagram \<and> ep_valid sender \<and> (from_client \<or> known) \<and> events_ok (known \<or> from_client) es)"

definition relay_inv :: "bool \<Rightarrow> relay \<Rightarrow> bool" where
  "relay_inv known rl \<longleftrightarrow> balanced rl True \<and> balanced rl False \<and> slots_ok (rl_queue rl) \<and> ep_valid (rl_forward rl) \<and>
     (if known then ep_valid (rl_client rl) else held (rl_queue rl) False = 0)"

lemma held_zero_iff: "held q up = 0 \<longleftrightarrow> (\<forall>s \<in> set q. pd_occupied s \<longrightarrow> pd_to_forward s \<noteq> up)"
  by (induction q) auto

lemma inv_targets: "relay_inv known rl \<Longrightarrow> \<forall>s \<in> set (rl_queue rl). target_known rl s"
  by (auto simp: relay_inv_def target_known_def held_zero_iff split: if_splits)

lemma sweep_inv: "relay_inv known rl \<Longrightarrow> relay_inv known (sw_relay (relay_sweep send now rl w))"
proof -
  assume inv: "relay_inv known rl"
  note s = relay_sweep_settles [OF inv_targets [OF inv], where send = send and now = now and w = w]
  have "rl_forward (sw_relay (relay_sweep send now rl w)) = rl_forward rl" "rl_client (sw_relay (relay_sweep send now rl w)) = rl_client rl"
    using s(1) by (simp_all add: sent_only_def)
  moreover have "held (rl_queue (sw_relay (relay_sweep send now rl w))) False = 0" if "held (rl_queue rl) False = 0"
    using s(6) [where up = False] that by simp
  ultimately show ?thesis using inv s(2) slots_ok_data [OF s(5)] by (simp add: relay_inv_def)
qed

text \<open>What one received datagram does to the balance.\<close>

lemma duplicate_forwarded:
  assumes "en_decide m e n now = Some (d, e')"
  shows "ic_forwarded (en_counters e') + ic_duplicated (en_counters e') =
    ic_forwarded (en_counters e) + ic_duplicated (en_counters e) + of_nat (copies d)"
proof -
  have "dc_forwarded d" if "dc_duplicate d"
  proof (rule ccontr)
    assume "\<not> dc_forwarded d"
    then have "d = default_decision\<lparr>dc_verdict := dc_verdict d\<rparr>"
      using decide_counted [OF assms] by (simp add: dc_forwarded_def)
    then have "dc_duplicate d = dc_duplicate (default_decision\<lparr>dc_verdict := dc_verdict d\<rparr>)" by simp
    then show False using that by (simp add: default_decision_def)
  qed
  then show ?thesis using decide_counted [OF assms] by (simp add: counted_def copies_def dc_forwarded_def)
qed

lemma packet_inv:
  assumes "relay_packet m rl up sender datagram arrival = Some rl'" "relay_inv known rl"
    "ep_valid sender" "up \<or> known"
  shows "relay_inv (known \<or> up) rl'"
proof -
  obtain decision engine rlx row where p:
    "en_decide m (di_engine (rl_dir rl up)) (length datagram) arrival = Some (decision, engine)"
    "enqueues up datagram (copies decision)
       ((on_dir up (\<lambda>d. d\<lparr>di_engine := engine\<rparr>) (count_received up sender rl))\<lparr>rl_serial := rl_serial rl + 1\<rparr>) rlx"
    "rl' = (if rl_logging rlx then rlx\<lparr>rl_log := rl_log rlx @ [row]\<rparr> else rlx)"
    by (rule packet_cases [OF assms(1)])
  define rl2 where "rl2 = (on_dir up (\<lambda>d. d\<lparr>di_engine := engine\<rparr>) (count_received up sender rl))\<lparr>rl_serial := rl_serial rl + 1\<rparr>"
  have 2: "rl_queue rl2 = rl_queue rl" "rl_client rl2 = (if up then sender else rl_client rl)" "rl_forward rl2 = rl_forward rl"
    "settled (rl_dir rl2 b) = settled (rl_dir rl b)" "di_engine (rl_dir rl2 b) = (if b = up then engine else di_engine (rl_dir rl b))"
    for b by (simp_all add: rl2_def count_received_def settled_def)
  have "slots_ok (rl_queue rl2)" using assms(2) by (simp add: relay_inv_def 2)
  note e = enqueues_settles [OF p(2) [folded rl2_def] this, unfolded 2]
  have bal: "balanced rlx b" for b
  proof -
    have "balanced rl b" using assms(2) by (cases b) (simp_all add: relay_inv_def)
    moreover have "owed (rl_dir rlx b) = owed (rl_dir rl b) + (if b = up then of_nat (copies decision) else 0)"
      using e [of b] duplicate_forwarded [OF p(1)] by (simp add: owed_def)
    ultimately show ?thesis using e [of b] by (simp add: balanced_def)
  qed
  have f: "rl_client rlx = (if up then sender else rl_client rl)" "rl_forward rlx = rl_forward rl" "slots_ok (rl_queue rlx)"
    "\<not> up \<or> held (rl_queue rlx) False = held (rl_queue rl) False"
    using e [of False] by auto
  have "relay_inv (known \<or> up) rlx"
    using bal f assms(2-4) by (auto simp: relay_inv_def)
  then show ?thesis by (simp add: p(3) relay_inv_def balanced_def)
qed

lemma relay_run_inv:
  assumes "relay_run m send (rl, w) es = Some (rl', w')" "events_ok known es" "relay_inv known rl"
  shows "\<exists>known'. relay_inv known' rl'"
  using assms
proof (induction es arbitrary: rl w known)
  case (Cons e es)
  show ?case
  proof (cases e)
    case (RlSweep now)
    have 1: "relay_run m send (sw_relay (relay_sweep send now rl w), sw_world (relay_sweep send now rl w)) es = Some (rl', w')"
      using Cons.prems(1) RlSweep by (simp add: Let_def)
    have 2: "events_ok known es" using Cons.prems(2) RlSweep by simp
    show ?thesis by (rule Cons.IH [OF 1 2 sweep_inv [OF Cons.prems(3)]])
  next
    case (RlPacket up sender datagram arrival)
    then obtain rl1 where 1: "relay_packet m rl up sender datagram arrival = Some rl1"
      "relay_run m send (rl1, w) es = Some (rl', w')"
      using Cons.prems(1) by (auto split: Option.bind_splits)
    have "relay_inv (known \<or> up) rl1"
      using packet_inv [OF 1(1) Cons.prems(3)] Cons.prems(2) RlPacket by simp
    moreover have "events_ok (known \<or> up) es" using Cons.prems(2) RlPacket by simp
    ultimately show ?thesis using Cons.IH [OF 1(2)] by blast
  qed
qed auto

lemma start_inv: "ep_valid forward \<Longrightarrow> relay_inv False (relay_start forward logging up down seed)"
proof -
  have q: "held (replicate n no_pending) b = 0" for n b by (simp add: held_def no_pending_def)
  have "slots_ok (replicate n no_pending)" for n by (simp add: slots_ok_def no_pending_def)
  then show "ep_valid forward \<Longrightarrow> ?thesis"
    by (simp add: relay_inv_def relay_start_def balanced_def owed_def settled_def make_direction_def rl_dir_def q
        en_make_def en_reset_def Let_def en_zero_def zero_counters_def)
qed


section \<open>The drain accounts for everything that was held\<close>

lemma discard_all_empties:
  assumes "discard_all rl = (n, rl')"
  shows "held (rl_queue rl') b = 0" "n = of_nat (held (rl_queue rl) True) + of_nat (held (rl_queue rl) False)"
    "rl_dir rl' b = rl_dir rl b"
proof -
  have "rl' = rl\<lparr>rl_queue := map (\<lambda>s. if pd_occupied s then s\<lparr>pd_occupied := False\<rparr> else s) (rl_queue rl)\<rparr>"
    using assms by (simp add: discard_all_def)
  then show "held (rl_queue rl') b = 0" "rl_dir rl' b = rl_dir rl b" by (simp_all add: held_def filter_empty_conv)
  show "n = of_nat (held (rl_queue rl) True) + of_nat (held (rl_queue rl) False)"
    using assms by (simp add: discard_all_def held_total)
qed

lemma drain_accounts:
  assumes "relay_drain send started clock rl w = Some (n, rl', w')" "relay_inv known rl"
  shows "held (rl_queue rl') b = 0 \<and> owed (rl_dir rl' b) = owed (rl_dir rl b) \<and>
    owed (rl_dir rl' True) + owed (rl_dir rl' False) = settled (rl_dir rl' True) + settled (rl_dir rl' False) + n"
  using assms
proof (induction clock arbitrary: rl w)
  case (Cons now clock)
  define st where "st = relay_sweep send now rl w"
  have inv: "relay_inv known (sw_relay st)" unfolding st_def by (rule sweep_inv [OF Cons.prems(2)])
  then have bal: "balanced (sw_relay st) True" "balanced (sw_relay st) False" by (simp_all add: relay_inv_def)
  note s = relay_sweep_settles [OF inv_targets [OF Cons.prems(2)], where send = send and now = now and w = w, folded st_def]
  have same: "owed (rl_dir (sw_relay st) b) = owed (rl_dir rl b)" using s(1) by (simp add: sent_only_def owed_def)
  note run = Cons.prems(1) [unfolded relay_drain.simps Let_def, folded st_def]
  show ?case
  proof (cases "sw_still_held st = 0")
    case True
    then have "n = 0" "rl' = sw_relay st" using run by simp_all
    moreover have "held (rl_queue (sw_relay st)) True = 0 \<and> held (rl_queue (sw_relay st)) False = 0"
      using True s(3) by (simp add: held_total)
    ultimately show ?thesis using bal same by (cases b) (simp_all add: balanced_def)
  next
    case False
    note run1 = run [unfolded if_not_P [OF False]]
    show ?thesis
    proof (cases "now - started > kMaxDrainUs")
      case True
      then have "discard_all (sw_relay st) = (n, rl')" using run1 by (auto split: prod.splits)
      note d = discard_all_empties [OF this]
      show ?thesis using bal same by (simp add: d balanced_def)
    next
      case going: False
      have "relay_drain send started clock (sw_relay st) (sw_world st) = Some (n, rl', w')"
        using run1 [unfolded if_not_P [OF going]] .
      from Cons.IH [OF this inv] show ?thesis using same by simp
    qed
  qed
qed simp

lemma drain_ends: "\<exists>now \<in> set clock. now - started > kMaxDrainUs \<Longrightarrow> relay_drain send started clock rl w \<noteq> None"
proof (induction clock arbitrary: rl w)
  case (Cons now clock)
  show ?case
  proof (cases "now - started > kMaxDrainUs")
    case True
    then show ?thesis by (simp add: Let_def split: prod.splits)
  next
    case False
    then have "\<exists>now \<in> set clock. now - started > kMaxDrainUs" using Cons.prems by auto
    then show ?thesis using Cons.IH False by (simp add: Let_def)
  qed
qed simp

text \<open>
  The drain at the end of a run stops by the first clock reading more than five seconds after its start at
  the latest; it leaves no packet in the queue, and the packets it reports as discarded are exactly those the model
  asked for that were not sent, refused by the socket or refused by the queue.
\<close>

lemma relay_drained:
  assumes "ep_valid forward" "events_ok False es"
    "relay_run m send (relay_start forward logging up down seed, w) es = Some (rl, w')"
    "\<exists>now \<in> set clock. now - started > kMaxDrainUs"
  shows "\<exists>discarded rl' w''. relay_drain send started clock rl w' = Some (discarded, rl', w'') \<and>
    held (rl_queue rl') True = 0 \<and> held (rl_queue rl') False = 0 \<and>
    owed (rl_dir rl' True) = owed (rl_dir rl True) \<and> owed (rl_dir rl' False) = owed (rl_dir rl False) \<and>
    owed (rl_dir rl' True) + owed (rl_dir rl' False) =
      settled (rl_dir rl' True) + settled (rl_dir rl' False) + discarded"
proof -
  obtain known where inv: "relay_inv known rl" using relay_run_inv [OF assms(3,2) start_inv [OF assms(1)]] by blast
  obtain n rl' w'' where d: "relay_drain send started clock rl w' = Some (n, rl', w'')"
    using drain_ends [OF assms(4)] by (metis not_None_eq prod_cases3)
  then show ?thesis using drain_accounts [OF d inv, of True] drain_accounts [OF d inv, of False] by blast
qed

section \<open>What is sent was received\<close>

text \<open>A network that also records what it was asked to send.\<close>

definition recording :: "'w send \<Rightarrow> ('w \<times> (bool \<times> endpoint \<times> bytes) list) send" where
  "recording send = (\<lambda>(w, sent) up target d. let (ok, w') = send w up target d in (ok, w', sent @ [(up, target, d)]))"

definition was_received :: "relay_event set \<Rightarrow> bool \<Rightarrow> bytes \<Rightarrow> bool" where
  "was_received E up d \<longleftrightarrow> (\<exists>sender arrival. RlPacket up sender d arrival \<in> E)"

definition is_client :: "relay_event set \<Rightarrow> endpoint \<Rightarrow> bool" where
  "is_client E e \<longleftrightarrow> (\<exists>d arrival. RlPacket True e d arrival \<in> E)"

definition slot_genuine :: "relay_event set \<Rightarrow> pending \<Rightarrow> bool" where
  "slot_genuine E s \<longleftrightarrow> (pd_occupied s \<longrightarrow> was_received E (pd_to_forward s) (take (pd_length s) (pd_data s)))"

definition send_genuine :: "relay_event set \<Rightarrow> endpoint \<Rightarrow> bool \<times> endpoint \<times> bytes \<Rightarrow> bool" where
  "send_genuine E forward = (\<lambda>(up, target, d). was_received E up d \<and> (if up then target = forward else is_client E target))"

definition genuine :: "relay_event set \<Rightarrow> endpoint \<Rightarrow> relay \<Rightarrow> bool" where
  "genuine E forward rl \<longleftrightarrow> (\<forall>s \<in> set (rl_queue rl). slot_genuine E s) \<and> rl_forward rl = forward \<and>
     (ep_valid (rl_client rl) \<longrightarrow> is_client E (rl_client rl))"

lemma sweep_slot_genuine:
  assumes "sweep_slot (recording send) now s st = (s', st')" "slot_genuine E s" "sw_world st = (w, sent)"
    "genuine E forward (sw_relay st)" "\<forall>x \<in> set sent. send_genuine E forward x"
  shows "slot_genuine E s' \<and> genuine E forward (sw_relay st') \<and>
    (\<exists>w' sent'. sw_world st' = (w', sent') \<and> (\<forall>x \<in> set sent'. send_genuine E forward x))"
proof (cases "pd_occupied s \<and> pd_release_us s \<le> now")
  case True
  let ?target = "if pd_to_forward s then rl_forward (sw_relay st) else rl_client (sw_relay st)"
  have s': "slot_genuine E s'" using assms(1) True by (auto simp: sweep_slot_def slot_genuine_def Let_def)
  show ?thesis
  proof (cases "ep_valid ?target")
    case valid: True
    obtain ok w1 where w: "send w (pd_to_forward s) ?target (take (pd_length s) (pd_data s)) = (ok, w1)" by fastforce
    have "sw_world st' = (w1, sent @ [(pd_to_forward s, ?target, take (pd_length s) (pd_data s))])"
      "genuine E forward (sw_relay st')"
      using assms(1,3,4) True valid w by (auto simp: sweep_slot_def recording_def Let_def genuine_def)
    moreover have "send_genuine E forward (pd_to_forward s, ?target, take (pd_length s) (pd_data s))"
      using assms(2,4) True valid by (auto simp: send_genuine_def slot_genuine_def genuine_def)
    ultimately show ?thesis using s' assms(5) by simp
  next
    case False
    then have "st' = st" using assms(1) True by (auto simp: sweep_slot_def Let_def)
    then show ?thesis using s' assms(3-5) by simp
  qed
next
  case False
  then show ?thesis using assms by (auto simp: sweep_slot_def split: if_splits)
qed

lemma sweep_slots_genuine:
  assumes "sweep_slots (recording send) now q st = (q', st')" "\<forall>s \<in> set q. slot_genuine E s" "sw_world st = (w, sent)"
    "genuine E forward (sw_relay st)" "\<forall>x \<in> set sent. send_genuine E forward x"
  shows "(\<forall>s \<in> set q'. slot_genuine E s) \<and> genuine E forward (sw_relay st') \<and>
    (\<exists>w' sent'. sw_world st' = (w', sent') \<and> (\<forall>x \<in> set sent'. send_genuine E forward x))"
  using assms
proof (induction q arbitrary: st q' w sent)
  case (Cons s q)
  obtain s1 st1 where 1: "sweep_slot (recording send) now s st = (s1, st1)" by fastforce
  obtain q2 where 2: "sweep_slots (recording send) now q st1 = (q2, st')" "q' = s1 # q2"
    using Cons.prems(1) 1 by (auto split: prod.splits)
  have s: "slot_genuine E s" "\<forall>s \<in> set q. slot_genuine E s" using Cons.prems(2) by simp_all
  obtain w1 sent1 where st1: "slot_genuine E s1" "genuine E forward (sw_relay st1)" "sw_world st1 = (w1, sent1)"
    "\<forall>x \<in> set sent1. send_genuine E forward x"
    using sweep_slot_genuine [OF 1 s(1) Cons.prems(3-5)] by blast
  show ?case using Cons.IH [OF 2(1) s(2) st1(3,2,4)] st1(1) by (simp add: 2(2))
qed auto

lemma enqueues_genuine:
  assumes "enqueues up d n rl rl'" "slots_ok (rl_queue rl)" "genuine E forward rl" "was_received E up d"
  shows "genuine E forward rl'"
  using assms
proof (induction rule: enqueues.induct)
  case (copy rl release serial ok rl1 n rl2)
  have ok: "slots_ok (rl_queue rl1)" using enqueue_settles [OF copy.hyps(1) copy.prems(1)] by blast
  have "genuine E forward rl1"
  proof (cases "claim_slot (rl_queue rl)")
    case None
    then show ?thesis using copy.hyps(1) copy.prems(2) by (auto simp: enqueue_def genuine_def)
  next
    case (Some i)
    then obtain data where d: "memcpy_at (pd_data (rl_queue rl ! i)) 0 d = Some data"
      "rl1 = rl\<lparr>rl_queue := (rl_queue rl)[i := \<lparr>pd_release_us = release, pd_length = length d, pd_to_forward = up,
         pd_occupied = True, pd_serial = serial, pd_data = data\<rparr>]\<rparr>"
      using copy.hyps(1) by (auto simp: enqueue_def split: Option.bind_splits)
    have "take (length d) data = d" using d(1) by (auto simp: memcpy_at_def split: if_splits)
    then have new: "slot_genuine E \<lparr>pd_release_us = release, pd_length = length d, pd_to_forward = up,
         pd_occupied = True, pd_serial = serial, pd_data = data\<rparr>"
      using copy.prems(3) by (simp add: slot_genuine_def)
    have "\<forall>s \<in> set (rl_queue rl). slot_genuine E s" using copy.prems(2) by (simp add: genuine_def)
    then have "\<forall>s \<in> set (rl_queue rl1). slot_genuine E s"
      using new set_update_subset_insert [of "rl_queue rl" i] unfolding d(2) by (simp, blast)
    then show ?thesis using copy.prems(2) by (simp add: genuine_def d(2))
  qed
  then show ?case using copy.IH [OF ok _ copy.prems(3)] by blast
qed simp

lemma relay_run_genuine:
  assumes "relay_run m (recording send) (rl, w, sent) es = Some (rl', w', sent')" "set es \<subseteq> E"
    "slots_ok (rl_queue rl)" "genuine E forward rl" "\<forall>x \<in> set sent. send_genuine E forward x"
  shows "\<forall>x \<in> set sent'. send_genuine E forward x"
  using assms
proof (induction es arbitrary: rl w sent)
  case (Cons e es)
  have es: "set es \<subseteq> E" using Cons.prems(2) by simp
  show ?case
  proof (cases e)
    case (RlSweep now)
    obtain q st where 1: "sweep_slots (recording send) now (rl_queue rl)
        \<lparr>sw_relay = rl, sw_world = (w, sent), sw_next_release = 0, sw_still_held = 0\<rparr> = (q, st)" by fastforce
    have q: "\<forall>s \<in> set (rl_queue rl). slot_genuine E s" using Cons.prems(4) by (simp add: genuine_def)
    note g = sweep_slots_genuine [OF 1 q, simplified, OF conjI [OF refl refl] Cons.prems(4,5)]
    obtain w1 sent1 where 2: "sw_world st = (w1, sent1)" "\<forall>x \<in> set sent1. send_genuine E forward x"
      using g by blast
    have g2: "\<forall>s \<in> set q. slot_genuine E s" "genuine E forward (sw_relay st)" using g by blast+
    have 3: "relay_run m (recording send) ((sw_relay st)\<lparr>rl_queue := q\<rparr>, w1, sent1) es = Some (rl', w', sent')"
      using Cons.prems(1) by (simp add: RlSweep relay_sweep_def 1 2(1) Let_def)
    have 4: "slots_ok (rl_queue ((sw_relay st)\<lparr>rl_queue := q\<rparr>))"
      using slots_ok_data [OF sweep_slots_data [OF 1]] Cons.prems(3) by simp
    have 5: "genuine E forward ((sw_relay st)\<lparr>rl_queue := q\<rparr>)" using g2 by (simp add: genuine_def)
    show ?thesis by (rule Cons.IH [OF 3 es 4 5 2(2)])
  next
    case (RlPacket up sender datagram arrival)
    then obtain rl1 where 1: "relay_packet m rl up sender datagram arrival = Some rl1"
      "relay_run m (recording send) (rl1, w, sent) es = Some (rl', w', sent')"
      using Cons.prems(1) by (auto split: Option.bind_splits)
    obtain decision engine rlx row where p:
      "enqueues up datagram (copies decision)
         ((on_dir up (\<lambda>d. d\<lparr>di_engine := engine\<rparr>) (count_received up sender rl))\<lparr>rl_serial := rl_serial rl + 1\<rparr>) rlx"
      "rl1 = (if rl_logging rlx then rlx\<lparr>rl_log := rl_log rlx @ [row]\<rparr> else rlx)"
      by (rule packet_cases [OF 1(1)])
    let ?rl2 = "(on_dir up (\<lambda>d. d\<lparr>di_engine := engine\<rparr>) (count_received up sender rl))\<lparr>rl_serial := rl_serial rl + 1\<rparr>"
    have ev: "RlPacket up sender datagram arrival \<in> E" using Cons.prems(2) RlPacket by simp
    have "up \<longrightarrow> is_client E sender" using ev by (cases up) (auto simp: is_client_def)
    then have "genuine E forward ?rl2" "slots_ok (rl_queue ?rl2)"
      using Cons.prems(3,4) by (simp_all add: genuine_def count_received_def)
    moreover have "was_received E up datagram" using ev by (auto simp: was_received_def)
    ultimately have "genuine E forward rlx" "slots_ok (rl_queue rlx)"
      using enqueues_genuine [OF p(1)] enqueues_settles [OF p(1)] by blast+
    then have "genuine E forward rl1" "slots_ok (rl_queue rl1)" by (simp_all add: p(2) genuine_def)
    then show ?thesis using Cons.IH [OF 1(2) es] Cons.prems(5) by blast
  qed
qed simp

text \<open>
  C34. The relay never makes up or alters a packet: whatever it sends to the forward address is, byte for byte, a
  datagram it received from a client, and whatever it sends back is a datagram it received from the forward side,
  addressed to a sender it has heard from.
\<close>

lemma relay_authentic:
  assumes "relay_run m (recording send) (relay_start forward logging up down seed, w, []) es = Some (rl, w', sent)"
    "(to_forward, target, d) \<in> set sent"
  shows "(\<exists>sender arrival. RlPacket to_forward sender d arrival \<in> set es) \<and>
    (if to_forward then target = forward else (\<exists>d' arrival. RlPacket True target d' arrival \<in> set es))"
proof -
  have "genuine (set es) forward (relay_start forward logging up down seed)"
    by (auto simp: genuine_def relay_start_def slot_genuine_def no_pending_def no_endpoint_def ep_valid_def)
  moreover have "slots_ok (rl_queue (relay_start forward logging up down seed))"
    by (auto simp: slots_ok_def relay_start_def no_pending_def)
  ultimately have "\<forall>x \<in> set sent. send_genuine (set es) forward x"
    using relay_run_genuine [OF assms(1) order_refl] by simp
  then show ?thesis using assms(2) by (fastforce simp: send_genuine_def was_received_def is_client_def)
qed

section \<open>A concrete run\<close>

text \<open>A link with a constant delay and no other impairment.\<close>

definition constant_delay :: "micros \<Rightarrow> impairment" where
  "constant_delay delay = default_impairment\<lparr>im_base_delay_us := delay\<rparr>"

definition passed :: "engine \<Rightarrow> engine" where
  "passed e = count (\<lambda>c. c\<lparr>ic_considered := ic_considered c + 1, ic_forwarded := ic_forwarded c + 1\<rparr>) e"

definition plain_engine :: "micros \<Rightarrow> engine \<Rightarrow> bool" where
  "plain_engine delay e \<longleftrightarrow> en_config e = constant_delay delay \<and> \<not> en_in_burst e \<and>
     en_p_good_to_bad e \<le> 0 \<and> en_p_bad_to_good e \<le> 0"

lemma plain_engine_passed [simp]: "plain_engine delay (passed e) = plain_engine delay e"
  by (simp add: plain_engine_def passed_def count_def)

lemma decide_plain: "plain_engine delay e \<Longrightarrow> en_decide m e n now = Some (default_decision\<lparr>dc_delay_us := delay\<rparr>, passed e)"
  by (simp add: plain_engine_def constant_delay_def default_impairment_def Let_def en_decide_def count_def
      advance_burst_state_def percent_draw_def rate_limit_allows_def draw_delay_def draw_jitter_def default_decision_def passed_def)

text \<open>What such a link does with a datagram when a slot is free.\<close>

definition queued :: "pending \<Rightarrow> micros \<Rightarrow> bool \<Rightarrow> u64 \<Rightarrow> bytes \<Rightarrow> pending" where
  "queued s release up serial d = \<lparr>pd_release_us = release, pd_length = length d, pd_to_forward = up, pd_occupied = True,
     pd_serial = serial, pd_data = d @ drop (length d) (pd_data s)\<rparr>"

definition accepted :: "bool \<Rightarrow> endpoint \<Rightarrow> relay \<Rightarrow> relay" where
  "accepted up sender rl =
     (on_dir up (\<lambda>d. d\<lparr>di_received := di_received d + 1, di_engine := passed (di_engine d)\<rparr>)
       (if up then rl\<lparr>rl_client := sender\<rparr> else rl))\<lparr>rl_serial := rl_serial rl + 1\<rparr>"

lemma relay_packet_plain:
  assumes "plain_engine delay (di_engine (rl_dir rl up))" "claim_slot (rl_queue rl) = Some i"
    "length d \<le> length (pd_data (rl_queue rl ! i))" "\<not> rl_logging rl"
  shows "relay_packet m rl up sender d now = Some ((accepted up sender rl)
    \<lparr>rl_queue := (rl_queue rl)[i := queued (rl_queue rl ! i) (now + delay) up (rl_serial rl) d]\<rparr>)"
proof -
  have dec: "en_decide m (di_engine (rl_dir rl up)) (length d) now =
      Some (default_decision\<lparr>dc_delay_us := delay\<rparr>, passed (di_engine (rl_dir rl up)))"
    by (rule decide_plain [OF assms(1)])
  obtain row where row: "classify d (default_row\<lparr>lr_serial := rl_serial rl, lr_to_forward := up, lr_verdict := Forward,
      lr_arrival_us := now, lr_bytes := length d, lr_duplicate := False, lr_reordered := False\<rparr>) = Some row"
    "lr_serial row = rl_serial rl"
    using classify_total [of d "default_row\<lparr>lr_serial := rl_serial rl, lr_to_forward := up, lr_verdict := Forward,
      lr_arrival_us := now, lr_bytes := length d, lr_duplicate := False, lr_reordered := False\<rparr>"] by auto
  show ?thesis
    using assms(2-4) dec row
    by (cases up) (simp_all add: relay_packet_def Let_def dc_forwarded_def default_decision_def enqueue_def memcpy_at_def
        queued_def accepted_def rl_dir_def on_dir_def)
qed

definition demo_forward :: endpoint where "demo_forward = no_endpoint\<lparr>ep_family := V4, ep_port := 9000\<rparr>"
definition demo_client :: endpoint where "demo_client = no_endpoint\<lparr>ep_family := V4, ep_port := 5000\<rparr>"
definition demo_start :: relay where
  "demo_start = relay_start demo_forward False (constant_delay 50) (constant_delay 50) 1"

text \<open>Three datagrams, due at 50, 100 and 120; the second sweep, at 300, finds the last two due.\<close>

definition demo_events :: "relay_event list" where
  "demo_events = [RlPacket True demo_client [1] 0, RlPacket True demo_client [2] 50, RlSweep 60,
     RlPacket True demo_client [3] 70, RlSweep 300]"

definition demo_send :: "unit send" where "demo_send = (\<lambda>w up target d. (True, ()))"

definition spare :: "pending list" where "spare = replicate 1022 no_pending"

lemma sweep_spare [simp]: "sweep_slots send now spare st = (spare, st)"
proof -
  have "sweep_slots send now (replicate n no_pending) st = (replicate n no_pending, st)" for n
    by (induction n) (simp_all add: sweep_slot_def no_pending_def)
  then show ?thesis by (simp add: spare_def)
qed

lemma demo_queue: "rl_queue demo_start = no_pending # no_pending # spare"
proof -
  have 1: "kQueueCapacity = Suc (Suc 1022)" by (simp add: kQueueCapacity_def)
  have "replicate kQueueCapacity no_pending = no_pending # no_pending # spare" unfolding spare_def 1 replicate_Suc ..
  then show ?thesis by (simp add: demo_start_def relay_start_def)
qed

lemma demo_start_fields [simp]:
  "rl_forward demo_start = demo_forward" "rl_logging demo_start = False"
  "plain_engine 50 (di_engine (rl_upstream demo_start))" "ic_reordered (en_counters (di_engine (rl_upstream demo_start))) = 0"
  "ic_considered (en_counters (di_engine (rl_upstream demo_start))) = 0"
  "di_emitted (rl_upstream demo_start) = 0" "di_received (rl_upstream demo_start) = 0"
  by (simp_all add: demo_start_def relay_start_def make_direction_def plain_engine_def en_make_def en_reset_def en_zero_def
      Let_def zero_counters_def constant_delay_def default_impairment_def clamp_percent_def d_div_def)

lemma demo_valid [simp]: "ep_valid demo_forward" "ep_valid demo_client"
  by (simp_all add: demo_forward_def demo_client_def no_endpoint_def ep_valid_def)

lemma no_pending_fields [simp]: "pd_occupied no_pending = False" "length (pd_data no_pending) = kMaxDatagram"
  "Suc 0 \<le> kMaxDatagram"
  by (simp_all add: no_pending_def kMaxDatagram_def)

lemma queued_fields [simp]:
  "pd_occupied (queued s r up n d) = True" "pd_release_us (queued s r up n d) = r" "pd_to_forward (queued s r up n d) = up"
  "take (pd_length (queued s r up n d)) (pd_data (queued s r up n d)) = d"
  by (simp_all add: queued_def)

text \<open>The relay after the three datagrams and the first sweep.\<close>

lemma relay_demo_run:
  "\<exists>rl. relay_run flat_cmath (recording demo_send) (demo_start, (), []) demo_events =
     Some (rl, (), [(True, demo_forward, [1]), (True, demo_forward, [3]), (True, demo_forward, [2])]) \<and>
   ic_considered (en_counters (di_engine (rl_upstream rl))) = 3 \<and> ic_reordered (en_counters (di_engine (rl_upstream rl))) = 0"
proof -
  let ?send = "recording demo_send"
  define q1 where "q1 = queued no_pending 50 True (rl_serial demo_start) [1]"
  define rl1 where "rl1 = (accepted True demo_client demo_start)\<lparr>rl_queue := q1 # no_pending # spare\<rparr>"
  have 1: "relay_packet flat_cmath demo_start True demo_client [1] 0 = Some rl1"
    by (subst relay_packet_plain [where i = 0 and delay = 50]) (simp_all add: rl_dir_def demo_queue rl1_def q1_def kMaxDatagram_def)
  define q2 where "q2 = queued no_pending 100 True (rl_serial rl1) [2]"
  define rl2 where "rl2 = (accepted True demo_client rl1)\<lparr>rl_queue := q1 # q2 # spare\<rparr>"
  have 2: "relay_packet flat_cmath rl1 True demo_client [2] 50 = Some rl2"
    by (subst relay_packet_plain [where i = 1 and delay = 50])
      (simp_all add: rl_dir_def rl2_def q2_def kMaxDatagram_def, simp_all add: rl1_def q1_def accepted_def on_dir_def kMaxDatagram_def)
  define rl3 where "rl3 = (on_dir True (\<lambda>d. d\<lparr>di_emitted := di_emitted d + 1\<rparr>) rl2)
    \<lparr>rl_queue := q1\<lparr>pd_occupied := False\<rparr> # q2 # spare\<rparr>"
  have f: "rl_forward rl2 = demo_forward" "\<not> rl_logging rl2" "plain_engine 50 (di_engine (rl_upstream rl2))"
    "di_engine (rl_upstream rl2) = passed (passed (di_engine (rl_upstream demo_start)))"
    by (simp_all add: rl2_def rl1_def accepted_def on_dir_def)
  have 3: "sw_relay (relay_sweep ?send 60 rl2 ((), [])) = rl3"
    "sw_world (relay_sweep ?send 60 rl2 ((), [])) = ((), [(True, demo_forward, [1])])"
    by (simp_all add: relay_sweep_def rl2_def sweep_slot_def Let_def q1_def q2_def recording_def demo_send_def rl3_def)
      (simp_all add: rl1_def accepted_def on_dir_def)
  have g: "rl_forward rl3 = demo_forward" "\<not> rl_logging rl3" "di_engine (rl_upstream rl3) = di_engine (rl_upstream rl2)"
    "rl_queue rl3 = q1\<lparr>pd_occupied := False\<rparr> # q2 # spare"
    using f by (simp_all add: rl3_def on_dir_def)
  define q3 where "q3 = queued (q1\<lparr>pd_occupied := False\<rparr>) 120 True (rl_serial rl3) [3]"
  define rl4 where "rl4 = (accepted True demo_client rl3)\<lparr>rl_queue := q3 # q2 # spare\<rparr>"
  have 4: "relay_packet flat_cmath rl3 True demo_client [3] 70 = Some rl4"
    by (subst relay_packet_plain [where i = 0 and delay = 50])
      (use f g in \<open>simp_all add: rl_dir_def rl4_def q3_def\<close>, simp add: q1_def queued_def)
  have h: "rl_forward rl4 = demo_forward" "rl_queue rl4 = q3 # q2 # spare"
    "di_engine (rl_upstream rl4) = passed (passed (passed (di_engine (rl_upstream demo_start))))"
    using f g by (simp_all add: rl4_def accepted_def on_dir_def)
  define rl5 where "rl5 = sw_relay (relay_sweep ?send 300 rl4 ((), [(True, demo_forward, [1])]))"
  have 5: "sw_world (relay_sweep ?send 300 rl4 ((), [(True, demo_forward, [1])])) =
      ((), [(True, demo_forward, [1]), (True, demo_forward, [3]), (True, demo_forward, [2])])"
    "di_engine (rl_upstream rl5) = di_engine (rl_upstream rl4)"
    using h by (simp_all add: rl5_def relay_sweep_def sweep_slot_def Let_def q3_def q2_def recording_def demo_send_def on_dir_def)
  have "relay_run flat_cmath ?send (demo_start, (), []) demo_events =
      Some (rl5, (), [(True, demo_forward, [1]), (True, demo_forward, [3]), (True, demo_forward, [2])])"
    by (simp add: demo_events_def 1 2 3 4 5(1) rl5_def Let_def)
  moreover have "ic_considered (en_counters (di_engine (rl_upstream rl5))) = 3"
    "ic_reordered (en_counters (di_engine (rl_upstream rl5))) = 0"
    by (simp_all add: 5(2) h(3) passed_def count_def)
  ultimately show ?thesis by blast
qed

lemma demo_events_ok: "events_ok False demo_events"
  by (simp add: demo_events_def kMaxDatagram_def)


lemma relay_drained_witness:
  "\<exists>rl w discarded rl' w'. relay_run flat_cmath (recording demo_send) (demo_start, (), []) demo_events = Some (rl, w) \<and>
    relay_drain (recording demo_send) 0 [5000001] rl w = Some (discarded, rl', w') \<and> held (rl_queue rl') True = 0"
proof -
  obtain rl w where 1: "relay_run flat_cmath (recording demo_send) (demo_start, (), []) demo_events = Some (rl, w)"
    using relay_demo_run by blast
  have "\<exists>now \<in> set [5000001]. now - (0 :: micros) > kMaxDrainUs" by (simp add: kMaxDrainUs_def)
  from relay_drained [OF demo_valid(1) demo_events_ok 1 [unfolded demo_start_def] this] show ?thesis using 1 by blast
qed

lemma relay_authentic_witness: "\<exists>sender arrival. RlPacket True sender [3] arrival \<in> set demo_events"
proof -
  obtain rl where 1: "relay_run flat_cmath (recording demo_send) (demo_start, (), []) demo_events =
      Some (rl, (), [(True, demo_forward, [1]), (True, demo_forward, [3]), (True, demo_forward, [2])])"
    using relay_demo_run by blast
  show ?thesis using relay_authentic [OF 1 [unfolded demo_start_def], of True demo_forward "[3]"] by simp
qed


end
