(* ===== verification/Session.thy ===== *)
theory Session
  imports Proto Seq_Tracker Jitter_Estimator Prober Opus_Codec Jitter_Buffer Spsc_Ring Endpoint
begin

text \<open>
  The media session on the device (android/app/src/main/cpp/session.hpp, session.cpp): microphone to
  network, network to speaker, with the prober beside them. The state is the object; the handlers are
  the bodies of the three threads, one iteration of a loop at a time, so that runs may interleave them.
  The clock, the random device, libopus and the socket are arguments.
\<close>

section \<open>State\<close>

datatype link = LinkIdle | LinkProbing | LinkUp | LinkLost

fun link_code :: "link \<Rightarrow> int" where
  "link_code LinkIdle = 0" | "link_code LinkProbing = 1" | "link_code LinkUp = 2" | "link_code LinkLost = 3"

record session_config =
  cf_peer :: endpoint
  cf_local_port :: u16
  cf_bitrate_bps :: int
  cf_fec :: bool
  cf_expected_loss_percent :: int
  cf_target_delay_ms :: u32
  cf_probe_interval_ms :: u32
  cf_probe_timeout_ms :: u32

definition default_session_config :: session_config where
  "default_session_config = \<lparr>cf_peer = no_endpoint, cf_local_port = 47000, cf_bitrate_bps = 32000, cf_fec = False,
     cf_expected_loss_percent = 0, cf_target_delay_ms = 60, cf_probe_interval_ms = 200, cf_probe_timeout_ms = 1000\<rparr>"

text \<open>A received media datagram on its way to the playback callback.\<close>

record rx_datagram =
  dg_arrival_us :: micros
  dg_header :: media_header
  dg_payload_offset :: u16
  dg_payload_length :: u16
  dg_bytes :: bytes

definition kRxCapacity :: nat where "kRxCapacity = 64"
definition kTxPcmSamples :: nat where "kTxPcmSamples = 16384"
definition kLinkTimeoutUs :: micros where "kLinkTimeoutUs = 1000000"

text \<open>\<open>std::size_t\<close> of \<open>radio::kFrameSamples\<close>.\<close>

definition frame_len :: nat where "frame_len = unat kFrameSamples"

text \<open>The atomic counters are 64-bit words: \<open>fetch_add\<close> on a signed atomic wraps.\<close>

record timing =
  tm_calls :: u64
  tm_total_us :: u64
  tm_max_us :: u64

definition no_timing :: timing where "no_timing = \<lparr>tm_calls = 0, tm_total_us = 0, tm_max_us = 0\<rparr>"

definition note_time :: "timing \<Rightarrow> micros \<Rightarrow> timing" where
  "note_time t elapsed_us =
     \<lparr>tm_calls = tm_calls t + 1, tm_total_us = tm_total_us t + elapsed_us,
      tm_max_us = (if sint elapsed_us > sint (tm_max_us t) then elapsed_us else tm_max_us t)\<rparr>"

record session_counts =
  nc_packets_sent :: u64
  nc_bytes_sent :: u64
  nc_send_failed :: u64
  nc_encode_failed :: u64
  nc_talkspurts :: u64
  nc_datagrams_received :: u64
  nc_rejected :: u64
  nc_pongs_sent :: u64
  nc_unhandled :: u64

definition zero_counts :: session_counts where
  "zero_counts = \<lparr>nc_packets_sent = 0, nc_bytes_sent = 0, nc_send_failed = 0, nc_encode_failed = 0, nc_talkspurts = 0,
     nc_datagrams_received = 0, nc_rejected = 0, nc_pongs_sent = 0, nc_unhandled = 0\<rparr>"

text \<open>What the network thread publishes for the screen.\<close>

record session_view =
  vw_probes_sent :: u64
  vw_pongs_received :: u64
  vw_probes_timed_out :: u64
  vw_probes_stale :: u64
  vw_probes_bad_echo :: u64
  vw_probes_impossible :: u64
  vw_rtt_last_us :: int
  vw_rtt_best_us :: int
  vw_offset_us :: int
  vw_offset_uncertainty_us :: int
  vw_rx_jitter_us :: int
  vw_rx_received :: u64
  vw_rx_lost :: u64
  vw_rx_duplicates :: u64
  vw_rx_reordered :: u64

definition zero_view :: session_view where
  "zero_view = \<lparr>vw_probes_sent = 0, vw_pongs_received = 0, vw_probes_timed_out = 0, vw_probes_stale = 0,
     vw_probes_bad_echo = 0, vw_probes_impossible = 0, vw_rtt_last_us = 0, vw_rtt_best_us = 0, vw_offset_us = 0,
     vw_offset_uncertainty_us = 0, vw_rx_jitter_us = 0, vw_rx_received = 0, vw_rx_lost = 0, vw_rx_duplicates = 0,
     vw_rx_reordered = 0\<rparr>"

text \<open>\<open>sn_reads\<close> and \<open>sn_draws\<close> count the calls of \<open>now_us\<close> and of the random generator.\<close>

record ('e, 'd) session =
  sn_encoder :: "'e encoder"
  sn_jitter :: "'d jitter_buffer"
  sn_socket_open :: bool
  sn_config :: session_config
  sn_tx_pcm :: "16 word ring"
  sn_rx :: "rx_datagram ring"
  sn_running :: bool
  sn_transmitting :: bool
  sn_stream_id :: u32
  sn_sequence :: u32
  sn_timestamp :: u32
  sn_talkspurt_open :: bool
  sn_prober :: prober
  sn_rx_seq :: seq_tracker
  sn_rx_jitter :: jitter_estimator
  sn_rx_stream_id :: u32
  sn_rx_stream_open :: bool
  sn_playout :: pcm
  sn_playout_used :: nat
  sn_counts :: session_counts
  sn_view :: session_view
  sn_encode_time :: timing
  sn_decode_time :: timing
  sn_link :: link
  sn_last_error :: int
  sn_reads :: nat
  sn_draws :: nat

text \<open>The values of the array of datagrams before the first push are never read.\<close>

definition blank_datagram :: rx_datagram where
  "blank_datagram = \<lparr>dg_arrival_us = 0, dg_header = \<lparr>mh_flags = 0, mh_stream_id = 0, mh_sequence = 0, mh_timestamp = 0\<rparr>,
     dg_payload_offset = 0, dg_payload_length = 0, dg_bytes = replicate kMaxDatagram 0\<rparr>"

definition session_init :: "('e, 'd) session" where
  "session_init = \<lparr>sn_encoder = encoder_init, sn_jitter = jb_init, sn_socket_open = False,
     sn_config = default_session_config, sn_tx_pcm = sr_init kTxPcmSamples 0, sn_rx = sr_init kRxCapacity blank_datagram,
     sn_running = False, sn_transmitting = False, sn_stream_id = 0, sn_sequence = 0, sn_timestamp = 0,
     sn_talkspurt_open = False, sn_prober = pr_init, sn_rx_seq = seq_init, sn_rx_jitter = je_init, sn_rx_stream_id = 0,
     sn_rx_stream_open = False, sn_playout = replicate frame_len 0, sn_playout_used = frame_len,
     sn_counts = zero_counts, sn_view = zero_view, sn_encode_time = no_timing, sn_decode_time = no_timing,
     sn_link = LinkIdle, sn_last_error = 0, sn_reads = 0, sn_draws = 0\<rparr>"

text \<open>The environment: the n-th reading of the clock, the n-th random number, a send (0 is success).\<close>

type_synonym clock_readings = "nat \<Rightarrow> micros"
type_synonym random_numbers = "nat \<Rightarrow> u32"
type_synonym 'w net_send = "'w \<Rightarrow> endpoint \<Rightarrow> bytes \<Rightarrow> int \<times> 'w"

definition read_clock :: "clock_readings \<Rightarrow> ('e, 'd) session \<Rightarrow> micros \<times> ('e, 'd) session" where
  "read_clock clk s = (clk (sn_reads s), s\<lparr>sn_reads := Suc (sn_reads s)\<rparr>)"

definition count_up :: "(session_counts \<Rightarrow> session_counts) \<Rightarrow> ('e, 'd) session \<Rightarrow> ('e, 'd) session" where
  "count_up f s = s\<lparr>sn_counts := f (sn_counts s)\<rparr>"

section \<open>Starting and stopping\<close>

definition encoder_config_of :: "session_config \<Rightarrow> encoder_config" where
  "encoder_config_of c = default_encoder_config\<lparr>ec_bitrate_bps := cf_bitrate_bps c, ec_inband_fec := cf_fec c,
     ec_expected_loss_percent := cf_expected_loss_percent c\<rparr>"

definition jitter_config_of :: "session_config \<Rightarrow> jb_config" where
  "jitter_config_of c = default_jb_config\<lparr>jc_target_delay_us := ucast (cf_target_delay_ms c) * 1000, jc_fec := cf_fec c\<rparr>"

text \<open>The resets of \<open>start\<close>, up to the launch of the network thread.\<close>

definition session_fresh :: "('e, 'd) session \<Rightarrow> ('e, 'd) session" where
  "session_fresh s = s\<lparr>sn_tx_pcm := sr_reset (sn_tx_pcm s), sn_rx := sr_reset (sn_rx s), sn_playout_used := frame_len,
     sn_talkspurt_open := False, sn_transmitting := False, sn_prober := pr_reset (sn_prober s),
     sn_rx_seq := seq_reset (sn_rx_seq s), sn_rx_jitter := je_reset (sn_rx_jitter s), sn_rx_stream_open := False,
     sn_counts := zero_counts, sn_encode_time := no_timing, sn_decode_time := no_timing,
     sn_link := LinkProbing, sn_view := zero_view, sn_running := True\<rparr>"

text \<open>\<open>socket_error\<close> is the outcome of opening the socket, 0 for success.\<close>

definition session_start ::
  "('e, 'd) opus \<Rightarrow> int \<Rightarrow> ('e, 'd) session \<Rightarrow> session_config \<Rightarrow> bool \<times> ('e, 'd) session" where
  "session_start lib socket_error s config =
     (if sn_running s then (True, s)
      else
        let s = s\<lparr>sn_config := config\<rparr>;
            (opened, encoder) = encoder_open lib (sn_encoder s) (encoder_config_of config);
            s = s\<lparr>sn_encoder := encoder\<rparr> in
        if \<not> opened then (False, s\<lparr>sn_last_error := enc_last_error encoder\<rparr>)
        else
          let (opened, jitter) = jb_open lib (sn_jitter s) (jitter_config_of config);
              s = s\<lparr>sn_jitter := jitter\<rparr> in
          if \<not> opened then (False, s\<lparr>sn_encoder := encoder_close (sn_encoder s)\<rparr>)
          else if socket_error \<noteq> 0 then
            (False, s\<lparr>sn_socket_open := False, sn_last_error := socket_error, sn_encoder := encoder_close (sn_encoder s),
                      sn_jitter := jb_close (sn_jitter s)\<rparr>)
          else (True, session_fresh (s\<lparr>sn_socket_open := True\<rparr>)))"

definition session_stop :: "('e, 'd) session \<Rightarrow> ('e, 'd) session" where
  "session_stop s =
     (if \<not> sn_running s then s
      else s\<lparr>sn_running := False, sn_socket_open := False, sn_encoder := encoder_close (sn_encoder s),
             sn_jitter := jb_close (sn_jitter s), sn_link := LinkIdle\<rparr>)"

definition set_transmitting :: "('e, 'd) session \<Rightarrow> bool \<Rightarrow> ('e, 'd) session" where
  "set_transmitting s on = s\<lparr>sn_transmitting := on\<rparr>"

section \<open>The audio callbacks\<close>

definition on_capture :: "('e, 'd) session \<Rightarrow> pcm \<Rightarrow> ('e, 'd) session option" where
  "on_capture s x = map_option (\<lambda>(_, tx). s\<lparr>sn_tx_pcm := tx\<rparr>) (sr_push_bulk (sn_tx_pcm s) x)"

text \<open>The payload view reconstructed over the ring slot.\<close>

definition datagram_packet :: "rx_datagram \<Rightarrow> media_packet option" where
  "datagram_packet dg =
     map_option (\<lambda>payload. \<lparr>mp_header = dg_header dg, mp_payload = payload\<rparr>)
       (copy_out (dg_bytes dg) (unat (dg_payload_offset dg)) (unat (dg_payload_length dg)))"

definition jitter_push :: "('e, 'd) opus \<Rightarrow> ('e, 'd) session \<Rightarrow> rx_datagram \<Rightarrow> ('e, 'd) session option" where
  "jitter_push lib s dg =
     map_option (\<lambda>packet. s\<lparr>sn_jitter := snd (jb_push lib (sn_jitter s) packet (dg_arrival_us dg))\<rparr>) (datagram_packet dg)"

lemma pop_shrinks:
  assumes "sr_pop r = Some (Some x, r')"
  shows "sr_size r' < sr_size r"
proof -
  have ne: "sr_write r - sr_read r \<noteq> 0" and r': "sr_read r' = sr_read r + 1" "sr_write r' = sr_write r"
    using assms by (auto simp: sr_pop_def Let_def split: if_splits Option.bind_splits)
  then have "sr_write r' - sr_read r' = sr_write r - sr_read r - 1" by simp
  then show ?thesis using ne unat_minus_one [of "sr_write r - sr_read r"] by (simp add: sr_size_def unat_gt_0)
qed

lemma jitter_push_rx: "jitter_push lib s dg = Some s' \<Longrightarrow> sn_rx s' = sn_rx s"
  by (auto simp: jitter_push_def)

text \<open>\<open>while (rx_.pop(datagram))\<close>\<close>

function drain_rx :: "('e, 'd) opus \<Rightarrow> ('e, 'd) session \<Rightarrow> ('e, 'd) session option" where
  "drain_rx lib s =
     (case sr_pop (sn_rx s) of
        None \<Rightarrow> None
      | Some (None, rx) \<Rightarrow> Some (s\<lparr>sn_rx := rx\<rparr>)
      | Some (Some dg, rx) \<Rightarrow>
          (case jitter_push lib (s\<lparr>sn_rx := rx\<rparr>) dg of None \<Rightarrow> None | Some s \<Rightarrow> drain_rx lib s))"
  by pat_completeness auto
termination
  by (relation "measure (\<lambda>(lib, s). sr_size (sn_rx s))") (auto dest!: jitter_push_rx pop_shrinks)

declare drain_rx.simps [simp del]

text \<open>One decoded frame into the staging array.\<close>

definition pull_frame :: "('e, 'd) opus \<Rightarrow> clock_readings \<Rightarrow> ('e, 'd) session \<Rightarrow> ('e, 'd) session" where
  "pull_frame lib clk s =
     (let (started, s) = read_clock clk s;
          (now, s) = read_clock clk s;
          (pulled, playout, jitter) = jb_pull lib (sn_jitter s) (sn_playout s) now;
          (ended, s) = read_clock clk s in
      s\<lparr>sn_playout := playout, sn_jitter := jitter, sn_decode_time := note_time (sn_decode_time s) (ended - started),
        sn_playout_used := 0\<rparr>)"

lemma frame_len_pos: "0 < frame_len"
  by (simp add: frame_len_def kFrameSamples_960)

lemma pull_frame_used [simp]: "sn_playout_used (pull_frame lib clk s) = 0"
  by (simp add: pull_frame_def read_clock_def Let_def split: prod.split)

text \<open>The loop of \<open>on_playout\<close>: \<open>out\<close> is the buffer of the device.\<close>

function serve ::
  "('e, 'd) opus \<Rightarrow> clock_readings \<Rightarrow> ('e, 'd) session \<Rightarrow> pcm \<Rightarrow> nat \<Rightarrow> nat \<Rightarrow> (('e, 'd) session \<times> pcm) option" where
  "serve lib clk s out written remaining =
     (if remaining = 0 then Some (s, out)
      else
        let s = (if sn_playout_used s \<ge> frame_len then pull_frame lib clk s else s);
            n = min remaining (frame_len - sn_playout_used s) in
        case Option.bind (copy_out (sn_playout s) (sn_playout_used s) n) (memcpy_at out written) of
          None \<Rightarrow> None
        | Some out \<Rightarrow> serve lib clk (s\<lparr>sn_playout_used := sn_playout_used s + n\<rparr>) out (written + n) (remaining - n))"
  by pat_completeness auto
termination
  by (relation "measure (\<lambda>(lib, clk, s, out, written, remaining). remaining)") (auto simp: Let_def frame_len_pos)

declare serve.simps [simp del]

definition on_playout ::
  "('e, 'd) opus \<Rightarrow> clock_readings \<Rightarrow> ('e, 'd) session \<Rightarrow> pcm \<Rightarrow> (('e, 'd) session \<times> pcm) option" where
  "on_playout lib clk s out = do { s \<leftarrow> drain_rx lib s; serve lib clk s out 0 (length out) }"

section \<open>Transmitting\<close>

text \<open>\<open>encoder_.encode\<close> between two readings of the clock.\<close>

definition timed_encode ::
  "('e, 'd) opus \<Rightarrow> clock_readings \<Rightarrow> ('e, 'd) session \<Rightarrow> pcm \<Rightarrow> bytes \<Rightarrow> encode_result \<times> bytes \<times> ('e, 'd) session" where
  "timed_encode lib clk s frame payload =
     (let (started, s) = read_clock clk s;
          (encoded, payload, encoder) = encoder_encode lib (sn_encoder s) frame payload;
          (ended, s) = read_clock clk s in
      (encoded, payload, s\<lparr>sn_encoder := encoder, sn_encode_time := note_time (sn_encode_time s) (ended - started)\<rparr>))"

text \<open>\<open>socket_.send_to\<close> of a media datagram and its counters.\<close>

definition ship :: "'w net_send \<Rightarrow> ('e, 'd) session \<Rightarrow> 'w \<Rightarrow> bytes \<Rightarrow> ('e, 'd) session \<times> 'w" where
  "ship send s w datagram =
     (let (error, w) = send w (cf_peer (sn_config s)) datagram in
      if error = 0
      then (count_up (\<lambda>c. c\<lparr>nc_packets_sent := nc_packets_sent c + 1,
                              nc_bytes_sent := nc_bytes_sent c + of_nat (length datagram)\<rparr>) s, w)
      else ((count_up (\<lambda>c. c\<lparr>nc_send_failed := nc_send_failed c + 1\<rparr>) s)\<lparr>sn_last_error := error\<rparr>, w))"

definition encode_failure :: "('e, 'd) session \<Rightarrow> ('e, 'd) session" where
  "encode_failure = count_up (\<lambda>c. c\<lparr>nc_encode_failed := nc_encode_failed c + 1\<rparr>)"

definition next_packet :: "('e, 'd) session \<Rightarrow> ('e, 'd) session" where
  "next_packet s = s\<lparr>sn_sequence := sn_sequence s + 1, sn_timestamp := sn_timestamp s + kFrameSamples\<rparr>"

definition media_header_of :: "('e, 'd) session \<Rightarrow> u16 \<Rightarrow> media_header" where
  "media_header_of s flags =
     \<lparr>mh_flags = (if cf_fec (sn_config s) then flags OR kFec else flags), mh_stream_id = sn_stream_id s,
      mh_sequence = sn_sequence s, mh_timestamp = sn_timestamp s\<rparr>"

text \<open>The buffers of \<open>transmit_available\<close>: payload and datagram.\<close>

type_synonym tx_buffers = "bytes \<times> bytes"

definition end_talkspurt ::
  "('e, 'd) opus \<Rightarrow> clock_readings \<Rightarrow> 'w net_send \<Rightarrow> ('e, 'd) session \<Rightarrow> 'w \<Rightarrow> pcm \<Rightarrow> tx_buffers \<Rightarrow>
   (('e, 'd) session \<times> 'w \<times> tx_buffers) option" where
  "end_talkspurt lib clk send s w frame bufs = do {
     let (payload, datagram) = bufs;
     let header = media_header_of s kTalkspurtEnd;
     let (encoded, payload, s) = timed_encode lib clk s frame payload;
     (s, w, datagram) \<leftarrow>
       (if encode_result_ok encoded then do {
          (len, datagram) \<leftarrow> encode_media header (take (er_bytes encoded) payload) datagram;
          Some (if len \<noteq> 0 then let (s, w) = ship send s w (take len datagram) in (s, w, datagram)
                else (encode_failure s, w, datagram))
        } else Some (encode_failure s, w, datagram));
     Some ((next_packet s)\<lparr>sn_talkspurt_open := False\<rparr>, w, payload, datagram)
   }"

definition send_frame ::
  "('e, 'd) opus \<Rightarrow> clock_readings \<Rightarrow> 'w net_send \<Rightarrow> ('e, 'd) session \<Rightarrow> 'w \<Rightarrow> bool \<Rightarrow> pcm \<Rightarrow> tx_buffers \<Rightarrow>
   (('e, 'd) session \<times> 'w \<times> tx_buffers) option" where
  "send_frame lib clk send s w first frame bufs = do {
     let (payload, datagram) = bufs;
     let (encoded, payload, s) = timed_encode lib clk s frame payload;
     if \<not> encode_result_ok encoded then Some (encode_failure s, w, payload, datagram)
     else do {
       let header = media_header_of s (if first then kTalkspurtStart else 0);
       (len, datagram) \<leftarrow> encode_media header (take (er_bytes encoded) payload) datagram;
       if len = 0 then Some (encode_failure s, w, payload, datagram)
       else
         let (s, w) = ship send s w (take len datagram) in
         Some (next_packet s, w, payload, datagram)
     }
   }"

text \<open>A new talkspurt starts at random values; the flag tells whether this frame opened one.\<close>

definition open_talkspurt :: "random_numbers \<Rightarrow> ('e, 'd) session \<Rightarrow> bool \<times> ('e, 'd) session" where
  "open_talkspurt rand s =
     (if sn_transmitting s \<and> \<not> sn_talkspurt_open s then
        (True, (count_up (\<lambda>c. c\<lparr>nc_talkspurts := nc_talkspurts c + 1\<rparr>) s)
           \<lparr>sn_stream_id := rand (sn_draws s), sn_sequence := rand (sn_draws s + 1), sn_timestamp := rand (sn_draws s + 2),
             sn_draws := sn_draws s + 3, sn_talkspurt_open := True\<rparr>)
      else (False, s))"

text \<open>One iteration of the loop; the flag is whether it goes on.\<close>

definition transmit_frame ::
  "('e, 'd) opus \<Rightarrow> clock_readings \<Rightarrow> random_numbers \<Rightarrow> 'w net_send \<Rightarrow> ('e, 'd) session \<Rightarrow> 'w \<Rightarrow> tx_buffers \<Rightarrow>
   (bool \<times> ('e, 'd) session \<times> 'w \<times> tx_buffers) option" where
  "transmit_frame lib clk rand send s w bufs = do {
     (frame, tx) \<leftarrow> sr_pop_bulk (sn_tx_pcm s) frame_len;
     let s = s\<lparr>sn_tx_pcm := tx\<rparr>;
     if length frame < frame_len then Some (False, s, w, bufs)
     else
       let (first, s) = open_talkspurt rand s in
       if \<not> sn_transmitting s then
         if sn_talkspurt_open s then map_option (Pair True) (end_talkspurt lib clk send s w frame bufs)
         else Some (True, s, w, bufs)
       else map_option (Pair True) (send_frame lib clk send s w first frame bufs)
   }"

text \<open>The identity of the talkspurt being sent, and what a transmission leaves alone.\<close>

definition tx_ident :: "('e, 'd) session \<Rightarrow> bool \<times> bool \<times> session_config \<times> u32 \<times> u32 \<times> u32" where
  "tx_ident s = (sn_transmitting s, sn_talkspurt_open s, sn_config s, sn_stream_id s, sn_sequence s, sn_timestamp s)"

definition tx_passive :: "('e, 'd) session \<Rightarrow> 16 word ring \<times> rx_datagram ring \<times> 'd jitter_buffer \<times> prober \<times> seq_tracker \<times>
    jitter_estimator \<times> bool \<times> bool \<times> pcm \<times> nat \<times> link \<times> bool \<times> u32 \<times> session_view" where
  "tx_passive s = (sn_tx_pcm s, sn_rx s, sn_jitter s, sn_prober s, sn_rx_seq s, sn_rx_jitter s, sn_running s,
     sn_socket_open s, sn_playout s, sn_playout_used s, sn_link s, sn_rx_stream_open s, sn_rx_stream_id s, sn_view s)"

lemma timed_encode_effect:
  "timed_encode lib clk s x p = (encoded, p', s') \<Longrightarrow> tx_ident s' = tx_ident s \<and> tx_passive s' = tx_passive s \<and>
   sn_counts s' = sn_counts s \<and> encoder_encode lib (sn_encoder s) x p = (encoded, p', sn_encoder s')"
  by (auto simp: timed_encode_def read_clock_def Let_def tx_ident_def tx_passive_def split: prod.splits)

lemma ship_effect:
  "ship send s w d = (s', w') \<Longrightarrow> tx_ident s' = tx_ident s \<and> tx_passive s' = tx_passive s \<and>
   sn_encoder s' = sn_encoder s \<and> nc_encode_failed (sn_counts s') = nc_encode_failed (sn_counts s) \<and>
   w' = snd (send w (cf_peer (sn_config s)) d)"
  by (auto simp: ship_def count_up_def Let_def tx_ident_def tx_passive_def split: prod.splits if_splits)

lemma encode_failure_effect [simp]:
  "tx_ident (encode_failure s) = tx_ident s" "tx_passive (encode_failure s) = tx_passive s"
  "sn_encoder (encode_failure s) = sn_encoder s"
  "nc_encode_failed (sn_counts (encode_failure s)) = nc_encode_failed (sn_counts s) + 1"
  by (simp_all add: encode_failure_def count_up_def tx_ident_def tx_passive_def)

lemma next_packet_effect [simp]:
  "tx_passive (next_packet s) = tx_passive s" "sn_encoder (next_packet s) = sn_encoder s"
  "sn_counts (next_packet s) = sn_counts s"
  "tx_passive (s\<lparr>sn_talkspurt_open := b\<rparr>) = tx_passive s"
  by (simp_all add: next_packet_def tx_passive_def)

lemma open_talkspurt_effect:
  "open_talkspurt rand s = (first, s') \<Longrightarrow> (first \<longleftrightarrow> sn_transmitting s \<and> \<not> sn_talkspurt_open s) \<and>
   sn_transmitting s' = sn_transmitting s \<and> sn_config s' = sn_config s \<and>
   (sn_talkspurt_open s' \<longleftrightarrow> sn_transmitting s \<or> sn_talkspurt_open s) \<and> (\<not> first \<longrightarrow> s' = s) \<and>
   tx_passive s' = tx_passive s \<and> sn_encoder s' = sn_encoder s \<and>
   nc_encode_failed (sn_counts s') = nc_encode_failed (sn_counts s)"
  by (auto simp: open_talkspurt_def count_up_def tx_passive_def split: if_splits)

text \<open>The two ways a frame leaves, each with what the encoder, the packer and the socket answered.\<close>

lemma send_frame_cases:
  assumes "send_frame lib clk send s w first x (payload, datagram) = Some (s', w', bufs')"
  obtains (codec) e p s1 where "timed_encode lib clk s x payload = (e, p, s1)" "\<not> encode_result_ok e"
      "s' = encode_failure s1" "w' = w"
  | (packer) e p s1 d where "timed_encode lib clk s x payload = (e, p, s1)" "encode_result_ok e"
      "encode_media (media_header_of s1 (if first then kTalkspurtStart else 0)) (take (er_bytes e) p) datagram = Some (0, d)"
      "s' = encode_failure s1" "w' = w"
  | (sent) e p s1 len d s2 where "timed_encode lib clk s x payload = (e, p, s1)" "encode_result_ok e"
      "encode_media (media_header_of s1 (if first then kTalkspurtStart else 0)) (take (er_bytes e) p) datagram = Some (len, d)"
      "len \<noteq> 0" "ship send s1 w (take len d) = (s2, w')" "s' = next_packet s2"
proof -
  obtain e p s1 where t: "timed_encode lib clk s x payload = (e, p, s1)" by (cases "timed_encode lib clk s x payload")
  show ?thesis
  proof (cases "encode_result_ok e")
    case True
    obtain len d where d: "encode_media (media_header_of s1 (if first then kTalkspurtStart else 0)) (take (er_bytes e) p) datagram = Some (len, d)"
      using assms True by (auto simp: send_frame_def t Let_def split: Option.bind_splits)
    obtain s2 w2 where sh: "ship send s1 w (take len d) = (s2, w2)" by fastforce
    show ?thesis
    proof (cases "len = 0")
      case True
      then show ?thesis using packer [OF t _ d [unfolded True]] assms \<open>encode_result_ok e\<close>
        by (auto simp: send_frame_def t d Let_def)
    next
      case False
      then show ?thesis using sent [OF t _ d False] assms \<open>encode_result_ok e\<close> by (auto simp: send_frame_def t d sh Let_def)
    qed
  next
    case False
    then show ?thesis using codec [OF t] assms by (auto simp: send_frame_def t Let_def)
  qed
qed

lemma end_talkspurt_cases:
  assumes "end_talkspurt lib clk send s w x (payload, datagram) = Some (s', w', bufs')"
  obtains (codec) e p s1 where "timed_encode lib clk s x payload = (e, p, s1)" "\<not> encode_result_ok e"
      "s' = (next_packet (encode_failure s1))\<lparr>sn_talkspurt_open := False\<rparr>" "w' = w"
  | (packer) e p s1 d where "timed_encode lib clk s x payload = (e, p, s1)" "encode_result_ok e"
      "encode_media (media_header_of s kTalkspurtEnd) (take (er_bytes e) p) datagram = Some (0, d)"
      "s' = (next_packet (encode_failure s1))\<lparr>sn_talkspurt_open := False\<rparr>" "w' = w"
  | (sent) e p s1 len d s2 where "timed_encode lib clk s x payload = (e, p, s1)" "encode_result_ok e"
      "encode_media (media_header_of s kTalkspurtEnd) (take (er_bytes e) p) datagram = Some (len, d)"
      "len \<noteq> 0" "ship send s1 w (take len d) = (s2, w')" "s' = (next_packet s2)\<lparr>sn_talkspurt_open := False\<rparr>"
proof -
  obtain e p s1 where t: "timed_encode lib clk s x payload = (e, p, s1)" by (cases "timed_encode lib clk s x payload")
  show ?thesis
  proof (cases "encode_result_ok e")
    case True
    obtain len d where d: "encode_media (media_header_of s kTalkspurtEnd) (take (er_bytes e) p) datagram = Some (len, d)"
      using assms True by (auto simp: end_talkspurt_def t Let_def split: Option.bind_splits)
    obtain s2 w2 where sh: "ship send s1 w (take len d) = (s2, w2)" by fastforce
    show ?thesis
    proof (cases "len = 0")
      case True
      then show ?thesis using packer [OF t _ d [unfolded True]] assms \<open>encode_result_ok e\<close>
        by (auto simp: end_talkspurt_def t d Let_def)
    next
      case False
      then show ?thesis using sent [OF t _ d False] assms \<open>encode_result_ok e\<close>
        by (auto simp: end_talkspurt_def t d sh Let_def)
    qed
  next
    case False
    then show ?thesis using codec [OF t] assms by (auto simp: end_talkspurt_def t Let_def)
  qed
qed

lemma send_frame_passive:
  assumes "send_frame lib clk send s w first x bufs = Some (s', w', bufs')"
  shows "tx_passive s' = tx_passive s"
proof (cases bufs)
  case (Pair payload datagram)
  from assms [unfolded Pair] show ?thesis
    by (cases rule: send_frame_cases) (auto dest!: timed_encode_effect ship_effect)
qed

lemma end_talkspurt_passive:
  assumes "end_talkspurt lib clk send s w x bufs = Some (s', w', bufs')"
  shows "tx_passive s' = tx_passive s"
proof (cases bufs)
  case (Pair payload datagram)
  from assms [unfolded Pair] show ?thesis
    by (cases rule: end_talkspurt_cases) (auto dest!: timed_encode_effect ship_effect)
qed

lemma pop_bulk_shrinks:
  assumes "sr_pop_bulk r n = Some (xs, r')" "xs \<noteq> []"
  shows "sr_size r' < sr_size r"
proof -
  let ?av = "unat (sr_write r - sr_read r)"
  have n: "n \<noteq> 0" "?av \<noteq> 0" "sr_read r' = sr_read r + of_nat (min n ?av)" "sr_write r' = sr_write r"
    using assms by (auto simp: sr_pop_bulk_def Let_def split: if_splits Option.bind_splits)
  have k: "0 < min n ?av" "min n ?av \<le> ?av" using n by simp_all
  have "unat (sr_write r - sr_read r - of_nat (min n ?av)) = ?av - min n ?av"
    using k(2) unat_lt2p [of "sr_write r - sr_read r"] by (simp add: unat_sub_if' unat_of_nat_small le_unat_uoi)
  then show ?thesis using k n by (simp add: sr_size_def diff_diff_eq)
qed

lemma transmit_frame_shrinks:
  assumes "transmit_frame lib clk rand send s w bufs = Some (True, s', w', bufs')"
  shows "sr_size (sn_tx_pcm s') < sr_size (sn_tx_pcm s)"
proof -
  obtain frame tx where pop: "sr_pop_bulk (sn_tx_pcm s) frame_len = Some (frame, tx)"
    using assms by (auto simp: transmit_frame_def split: Option.bind_splits)
  obtain first s1 where op: "open_talkspurt rand (s\<lparr>sn_tx_pcm := tx\<rparr>) = (first, s1)" by fastforce
  have tx: "fst (tx_passive s1) = tx" using open_talkspurt_effect [OF op] by (simp add: tx_passive_def)
  have "length frame \<ge> frame_len" "fst (tx_passive s') = tx"
    using assms tx by (auto simp: transmit_frame_def pop op Let_def split: if_splits
        dest!: end_talkspurt_passive send_frame_passive)
  then have "length frame \<ge> frame_len" "sn_tx_pcm s' = tx" by (simp_all add: tx_passive_def)
  moreover have "frame \<noteq> []" using \<open>length frame \<ge> frame_len\<close> frame_len_pos by (cases frame) auto
  ultimately show ?thesis using pop_bulk_shrinks [OF pop] by simp
qed

function transmit_loop ::
  "('e, 'd) opus \<Rightarrow> clock_readings \<Rightarrow> random_numbers \<Rightarrow> 'w net_send \<Rightarrow> ('e, 'd) session \<Rightarrow> 'w \<Rightarrow> tx_buffers \<Rightarrow>
   (('e, 'd) session \<times> 'w) option" where
  "transmit_loop lib clk rand send s w bufs =
     (if sr_size (sn_tx_pcm s) \<ge> frame_len then
        (case transmit_frame lib clk rand send s w bufs of
           None \<Rightarrow> None
         | Some (again, s, w, bufs) \<Rightarrow> if again then transmit_loop lib clk rand send s w bufs else Some (s, w))
      else Some (s, w))"
  by pat_completeness auto
termination
  by (relation "measure (\<lambda>(lib, clk, rand, send, s, w, bufs). sr_size (sn_tx_pcm s))")
    (auto dest: transmit_frame_shrinks)

declare transmit_loop.simps [simp del]

definition transmit_available ::
  "('e, 'd) opus \<Rightarrow> clock_readings \<Rightarrow> random_numbers \<Rightarrow> 'w net_send \<Rightarrow> ('e, 'd) session \<Rightarrow> 'w \<Rightarrow>
   (('e, 'd) session \<times> 'w) option" where
  "transmit_available lib clk rand send s w =
     transmit_loop lib clk rand send s w (replicate kMaxPayload 0, replicate kMaxDatagram 0)"

section \<open>Receiving\<close>

text \<open>\<open>static_cast<std::int64_t>\<close> of a double: undefined outside the range.\<close>

definition i64_of_d :: "double \<Rightarrow> int option" where "i64_of_d x = i64_of (d_trunc x)"

definition observe_media :: "('e, 'd) session \<Rightarrow> media_header \<Rightarrow> micros \<Rightarrow> ('e, 'd) session option" where
  "observe_media s header arrival_us = do {
     let s = (if \<not> sn_rx_stream_open s \<or> mh_stream_id header \<noteq> sn_rx_stream_id s
              then s\<lparr>sn_rx_seq := seq_reset (sn_rx_seq s), sn_rx_jitter := je_reset (sn_rx_jitter s),
                     sn_rx_stream_id := mh_stream_id header, sn_rx_stream_open := True\<rparr>
              else s);
     let s = s\<lparr>sn_rx_seq := snd (seq_observe (sn_rx_seq s) (mh_sequence header))\<rparr>;
     je \<leftarrow> (if talkspurt_start header then Some (je_reanchor (sn_rx_jitter s) (mh_timestamp header) arrival_us)
           else je_observe (sn_rx_jitter s) (mh_timestamp header) arrival_us);
     jitter_us \<leftarrow> i64_of_d (je_jitter_us je);
     Some (s\<lparr>sn_rx_jitter := je, sn_view := (sn_view s)
       \<lparr>vw_rx_received := st_received (sn_rx_seq s), vw_rx_lost := seq_lost (sn_rx_seq s),
        vw_rx_duplicates := st_duplicates (sn_rx_seq s), vw_rx_reordered := st_reordered (sn_rx_seq s),
        vw_rx_jitter_us := jitter_us\<rparr>\<rparr>)
   }"

definition answer_ping ::
  "clock_readings \<Rightarrow> 'w net_send \<Rightarrow> ('e, 'd) session \<Rightarrow> 'w \<Rightarrow> control_packet \<Rightarrow> endpoint \<Rightarrow> micros \<Rightarrow>
   (('e, 'd) session \<times> 'w) option" where
  "answer_ping clk send s w packet from_ep t2 = do {
     let (t3, s) = read_clock clk s;
     (len, outgoing) \<leftarrow> encode_pong_for packet t2 t3 (replicate (kControlHeaderSize + kPongBodySize) 0);
     Some (if len = 0 then (s, w)
           else let (error, w) = send w from_ep (take len outgoing) in
             (if error = 0 then count_up (\<lambda>c. c\<lparr>nc_pongs_sent := nc_pongs_sent c + 1\<rparr>) s else s, w))
   }"

definition reject_datagram :: "('e, 'd) session \<Rightarrow> ('e, 'd) session" where
  "reject_datagram = count_up (\<lambda>c. c\<lparr>nc_rejected := nc_rejected c + 1\<rparr>)"

text \<open>The handler of a PONG, of a PING and of a media datagram; \<open>buf\<close> is the whole receive buffer.\<close>

definition receive_pong :: "('e, 'd) session \<Rightarrow> bytes \<Rightarrow> micros \<Rightarrow> ('e, 'd) session option" where
  "receive_pong s view arrival_us = do {
     packet \<leftarrow> parse_control view;
     case packet of
       Inl _ \<Rightarrow> Some (reject_datagram s)
     | Inr packet \<Rightarrow> map_option (\<lambda>p. s\<lparr>sn_prober := p\<rparr>) (pr_on_pong (sn_prober s) packet arrival_us)
   }"

definition receive_ping ::
  "clock_readings \<Rightarrow> 'w net_send \<Rightarrow> ('e, 'd) session \<Rightarrow> 'w \<Rightarrow> bytes \<Rightarrow> endpoint \<Rightarrow> micros \<Rightarrow>
   (('e, 'd) session \<times> 'w) option" where
  "receive_ping clk send s w view from_ep arrival_us = do {
     packet \<leftarrow> parse_control view;
     case packet of
       Inl _ \<Rightarrow> Some (reject_datagram s, w)
     | Inr packet \<Rightarrow> answer_ping clk send s w packet from_ep arrival_us
   }"

definition receive_audio :: "('e, 'd) session \<Rightarrow> bytes \<Rightarrow> bytes \<Rightarrow> micros \<Rightarrow> ('e, 'd) session option" where
  "receive_audio s buf view arrival_us = do {
     packet \<leftarrow> parse_media view;
     case packet of
       Inl _ \<Rightarrow> Some (reject_datagram s)
     | Inr packet \<Rightarrow> do {
         s \<leftarrow> observe_media s (mp_header packet) arrival_us;
         let datagram = \<lparr>dg_arrival_us = arrival_us, dg_header = mp_header packet,
            dg_payload_offset = of_nat (length view - length (mp_payload packet)),
            dg_payload_length = of_nat (length (mp_payload packet)), dg_bytes = buf\<rparr>;
         (_, rx) \<leftarrow> sr_push (sn_rx s) datagram;
         Some (s\<lparr>sn_rx := rx\<rparr>)
       }
   }"

text \<open>
  One iteration of \<open>receive_available\<close> for a datagram \<open>(from, arrival, data)\<close> that \<open>recv_from\<close> wrote to the
  start of the buffer; the loop ends when there is none left.
\<close>

definition receive_one ::
  "clock_readings \<Rightarrow> 'w net_send \<Rightarrow> ('e, 'd) session \<Rightarrow> 'w \<Rightarrow> bytes \<Rightarrow> endpoint \<times> micros \<times> bytes \<Rightarrow>
   (('e, 'd) session \<times> 'w \<times> bytes) option" where
  "receive_one clk send s w buf received = do {
     let (from_ep, arrival_us, data) = received;
     buf \<leftarrow> memcpy_at buf 0 data;
     let s = count_up (\<lambda>c. c\<lparr>nc_datagrams_received := nc_datagrams_received c + 1\<rparr>) s;
     let view = take (length data) buf;
     ty \<leftarrow> peek_type view;
     case ty of
       Inl _ \<Rightarrow> Some (reject_datagram s, w, buf)
     | Inr Pong \<Rightarrow> map_option (\<lambda>s. (s, w, buf)) (receive_pong s view arrival_us)
     | Inr Ping \<Rightarrow> map_option (\<lambda>(s, w). (s, w, buf)) (receive_ping clk send s w view from_ep arrival_us)
     | Inr Audio \<Rightarrow> map_option (\<lambda>s. (s, w, buf)) (receive_audio s buf view arrival_us)
     | Inr _ \<Rightarrow> Some (count_up (\<lambda>c. c\<lparr>nc_unhandled := nc_unhandled c + 1\<rparr>) s, w, buf)
   }"

fun receive_available ::
  "clock_readings \<Rightarrow> 'w net_send \<Rightarrow> ('e, 'd) session \<Rightarrow> 'w \<Rightarrow> bytes \<Rightarrow> (endpoint \<times> micros \<times> bytes) list \<Rightarrow>
   (('e, 'd) session \<times> 'w) option" where
  "receive_available clk send s w buf [] = Some (s, w)"
| "receive_available clk send s w buf (r # rs) = do {
     (s, w, buf) \<leftarrow> receive_one clk send s w buf r;
     receive_available clk send s w buf rs
   }"

section \<open>Probing\<close>

definition probe_if_due :: "'w net_send \<Rightarrow> ('e, 'd) session \<Rightarrow> 'w \<Rightarrow> micros \<Rightarrow> (('e, 'd) session \<times> 'w) option" where
  "probe_if_due send s w now = do {
     (probe, outgoing, p) \<leftarrow> pr_due_probe (sn_prober s) now (replicate kControlHeaderSize 0);
     let s = s\<lparr>sn_prober := p\<rparr>;
     Some (if \<not> probe_ready probe then (s, w)
           else let (error, w) = send w (cf_peer (sn_config s)) (take (po_length probe) outgoing) in
             (if error = 0 then s else s\<lparr>sn_prober := pr_withdraw p (po_request_id probe)\<rparr>, w))
   }"

definition link_of :: "micros \<Rightarrow> micros \<Rightarrow> link" where
  "link_of last_reply now =
     (if last_reply = 0 then LinkProbing else if now - last_reply \<le> kLinkTimeoutUs then LinkUp else LinkLost)"

definition publish_probe_stats :: "('e, 'd) session \<Rightarrow> micros \<Rightarrow> ('e, 'd) session" where
  "publish_probe_stats s now =
     (let p = sn_prober s; st = pr_stats p; best = cs_best (pr_sync p) in
      s\<lparr>sn_view := (sn_view s)\<lparr>vw_probes_sent := st_sent st, vw_pongs_received := st_replied st,
          vw_probes_timed_out := st_timed_out st, vw_probes_stale := st_stale st, vw_probes_bad_echo := st_bad_echo st,
          vw_probes_impossible := st_impossible st, vw_rtt_last_us := pr_last_rtt_us p, vw_rtt_best_us := ss_rtt best,
          vw_offset_us := ss_offset best, vw_offset_uncertainty_us := cs_uncertainty_us (pr_sync p)\<rparr>,
        sn_link := link_of (pr_last_reply_us p) now\<rparr>)"

section \<open>What the screen reads\<close>

text \<open>The scalars are read one after the other; the groups are those of the counters and of the published view.\<close>

record session_snapshot =
  sp_running :: bool
  sp_transmitting :: bool
  sp_counts :: session_counts
  sp_rx_ring_overflows :: u64
  sp_tx_pcm_overflows :: u64
  sp_from_packet :: u64
  sp_fec_recovered :: u64
  sp_concealed :: u64
  sp_silence :: u64
  sp_late :: u64
  sp_gaps :: u64
  sp_duplicates :: u64
  sp_depth_frames :: u64
  sp_encode_time :: timing
  sp_decode_time :: timing
  sp_link :: int
  sp_view :: session_view

definition session_snapshot_of :: "('e, 'd) session \<Rightarrow> session_snapshot" where
  "session_snapshot_of s =
     (let jb = sn_jitter s; queue = jb_queue jb in
      \<lparr>sp_running = sn_running s, sp_transmitting = sn_transmitting s, sp_counts = sn_counts s,
       sp_rx_ring_overflows = sr_overflows (sn_rx s), sp_tx_pcm_overflows = sr_overflows (sn_tx_pcm s),
       sp_from_packet = jb_from_packet jb, sp_fec_recovered = jb_fec_recovered jb, sp_concealed = jb_concealed jb,
       sp_silence = jb_silence jb, sp_late = rq_late queue, sp_gaps = rq_gaps queue,
       sp_duplicates = rq_duplicates queue, sp_depth_frames = rq_depth queue, sp_encode_time = sn_encode_time s,
       sp_decode_time = sn_decode_time s, sp_link = link_code (sn_link s), sp_view = sn_view s\<rparr>)"

section \<open>The network thread\<close>

definition network_start :: "clock_readings \<Rightarrow> ('e, 'd) session \<Rightarrow> ('e, 'd) session" where
  "network_start clk s =
     (let config = \<lparr>prc_interval = ucast (cf_probe_interval_ms (sn_config s)) * 1000,
                   prc_timeout = ucast (cf_probe_timeout_ms (sn_config s)) * 1000\<rparr>;
          (now, s) = read_clock clk s in
      s\<lparr>sn_prober := pr_start (sn_prober s) config now\<rparr>)"

text \<open>The iterations of the loop after the probes fall due, and one whole iteration on an idle device.\<close>

definition probe_tick :: "clock_readings \<Rightarrow> 'w net_send \<Rightarrow> ('e, 'd) session \<Rightarrow> 'w \<Rightarrow> (('e, 'd) session \<times> 'w) option" where
  "probe_tick clk send s w = do {
     let (now, s) = read_clock clk s;
     (s, w) \<leftarrow> probe_if_due send s w now;
     let s = s\<lparr>sn_prober := pr_expire (sn_prober s) now\<rparr>;
     Some (publish_probe_stats s now, w)
   }"

definition network_iteration ::
  "('e, 'd) opus \<Rightarrow> clock_readings \<Rightarrow> random_numbers \<Rightarrow> 'w net_send \<Rightarrow> ('e, 'd) session \<Rightarrow> 'w \<Rightarrow>
   (endpoint \<times> micros \<times> bytes) list \<Rightarrow> (('e, 'd) session \<times> 'w) option" where
  "network_iteration lib clk rand send s w received = do {
     (s, w) \<leftarrow> receive_available clk send s w (replicate kMaxDatagram 0) received;
     (s, w) \<leftarrow> transmit_available lib clk rand send s w;
     probe_tick clk send s w
   }"

end
