(* ===== verification/Session_Tx.thy ===== *)
theory Session_Tx
  imports Session
begin

text \<open>
  The sending half of the session: what goes on the wire for any interleaving of the microphone, the
  push-to-talk button and the network thread.
\<close>

section \<open>The network with a memory\<close>

definition noting :: "'w net_send \<Rightarrow> ('w \<times> (endpoint \<times> bytes) list) net_send" where
  "noting send = (\<lambda>(w, sent) target d. let (error, w) = send w target d in (error, w, sent @ [(target, d)]))"

lemma noting_log [simp]: "snd (snd (noting send wl e d)) = snd wl @ [(e, d)]"
  by (cases wl) (simp add: noting_def Let_def split: prod.split)

section \<open>Runs\<close>

text \<open>
  The microphone callback, the button, the entry into \<open>transmit_available\<close> and one iteration of its loop,
  in any order: the threads may interleave between iterations.
\<close>

datatype tx_event = TxCapture pcm | TxSet bool | TxEnter | TxFrame

type_synonym ('e, 'd, 'w) tx_state = "('e, 'd) session \<times> 'w \<times> tx_buffers"

definition fresh_buffers :: tx_buffers where
  "fresh_buffers = (replicate kMaxPayload 0, replicate kMaxDatagram 0)"

fun tx_step ::
  "('e, 'd) opus \<Rightarrow> clock_readings \<Rightarrow> random_numbers \<Rightarrow> 'w net_send \<Rightarrow> ('e, 'd, 'w) tx_state \<Rightarrow> tx_event \<Rightarrow>
   ('e, 'd, 'w) tx_state option" where
  "tx_step lib clk rand send (s, w, bufs) (TxCapture x) = map_option (\<lambda>s. (s, w, bufs)) (on_capture s x)"
| "tx_step lib clk rand send (s, w, bufs) (TxSet on) = Some (set_transmitting s on, w, bufs)"
| "tx_step lib clk rand send (s, w, bufs) TxEnter = Some (s, w, fresh_buffers)"
| "tx_step lib clk rand send (s, w, bufs) TxFrame =
     (if sr_size (sn_tx_pcm s) \<ge> frame_len
      then map_option snd (transmit_frame lib clk rand send s w bufs) else Some (s, w, bufs))"

fun tx_run ::
  "('e, 'd) opus \<Rightarrow> clock_readings \<Rightarrow> random_numbers \<Rightarrow> 'w net_send \<Rightarrow> ('e, 'd, 'w) tx_state \<Rightarrow> tx_event list \<Rightarrow>
   ('e, 'd, 'w) tx_state option" where
  "tx_run lib clk rand send st [] = Some st"
| "tx_run lib clk rand send st (e # es) = do { st \<leftarrow> tx_step lib clk rand send st e; tx_run lib clk rand send st es }"

section \<open>A talkspurt on the wire\<close>

text \<open>
  What a listener may expect next: between talkspurts a packet with \<open>TALKSPURT_START\<close> and any identity,
  inside one the next sequence number and timestamp of the same stream, until \<open>TALKSPURT_END\<close>.
\<close>

type_synonym talk_cursor = "(u32 \<times> u32 \<times> u32) option"

definition talk_after :: "media_header \<Rightarrow> talk_cursor" where
  "talk_after h = (if talkspurt_end h then None
     else Some (mh_stream_id h, mh_sequence h + 1, mh_timestamp h + kFrameSamples))"

definition talk_next :: "talk_cursor \<Rightarrow> media_header \<Rightarrow> talk_cursor option" where
  "talk_next cur h =
     (if talkspurt_start h
      then (if cur = None \<and> \<not> talkspurt_end h then Some (talk_after h) else None)
      else (if cur = Some (mh_stream_id h, mh_sequence h, mh_timestamp h) then Some (talk_after h) else None))"

fun talk_run :: "talk_cursor \<Rightarrow> media_header list \<Rightarrow> talk_cursor option" where
  "talk_run cur [] = Some cur"
| "talk_run cur (h # hs) = do { cur \<leftarrow> talk_next cur h; talk_run cur hs }"

lemma talk_run_snoc: "talk_run cur (hs @ [h]) = do { cur \<leftarrow> talk_run cur hs; talk_next cur h }"
  by (induction hs arbitrary: cur) (auto split: Option.bind_splits)

text \<open>The headers of a log of datagrams, if all of them are media datagrams that parse.\<close>

definition parsed_media :: "bytes \<Rightarrow> media_packet option" where
  "parsed_media d = (case parse_media d of Some (Inr p) \<Rightarrow> Some p | _ \<Rightarrow> None)"

definition media_log :: "(endpoint \<times> bytes) list \<Rightarrow> media_packet list option" where
  "media_log sent = those (map (\<lambda>(_, d). parsed_media d) sent)"

lemma those_snoc: "those (xs @ [x]) = do { ys \<leftarrow> those xs; y \<leftarrow> x; Some (ys @ [y]) }"
  by (induction xs) (auto split: option.splits Option.bind_splits)

lemma media_log_snoc:
  "media_log sent = Some ps \<Longrightarrow> parsed_media d = Some p \<Longrightarrow> media_log (sent @ [(e, d)]) = Some (ps @ [p])"
  by (simp add: media_log_def those_snoc)

section \<open>One datagram\<close>

lemma encode_media_sent:
  assumes "encode_media h payload out = Some (len, d)" "len \<noteq> 0"
  shows "take len d = wire_media h payload" "parsed_media (take len d) = Some \<lparr>mp_header = h, mp_payload = payload\<rparr>"
    "length d = length out"
proof -
  have flags: "mh_flags h AND NOT kAssignedMask = 0" using assms by (auto simp: encode_media_def split: if_splits)
  have p: "payload \<noteq> []" "16 + length payload \<le> length out" "16 + length payload \<le> 1200"
    using assms flags by (auto simp: encode_media_def Let_def proto_consts split: if_splits)
  have "len = 16 + length payload" "d = wire_media h payload @ drop (16 + length payload) out"
    using encode_media_Some [OF flags p] assms(1) by auto
  then show 1: "take len d = wire_media h payload" "length d = length out" using p by simp_all
  have "media_ok \<lparr>mp_header = h, mp_payload = payload\<rparr>"
    using flags p by (simp add: media_ok_def kMaxPayload_def proto_consts)
  from parse_media_wire [OF this] show "parsed_media (take len d) = Some \<lparr>mp_header = h, mp_payload = payload\<rparr>"
    by (simp add: 1 parsed_media_def)
qed

lemma header_flags [simp]:
  "mh_flags (media_header_of s kTalkspurtStart) AND NOT kAssignedMask = 0"
  "mh_flags (media_header_of s kTalkspurtEnd) AND NOT kAssignedMask = 0"
  "mh_flags (media_header_of s 0) AND NOT kAssignedMask = 0"
  "talkspurt_start (media_header_of s kTalkspurtStart)" "\<not> talkspurt_end (media_header_of s kTalkspurtStart)"
  "\<not> talkspurt_start (media_header_of s kTalkspurtEnd)" "talkspurt_end (media_header_of s kTalkspurtEnd)"
  "\<not> talkspurt_start (media_header_of s 0)" "\<not> talkspurt_end (media_header_of s 0)"
  by (simp_all add: media_header_of_def kTalkspurtStart_def kTalkspurtEnd_def kFec_def kAssignedMask_def
      talkspurt_start_def talkspurt_end_def)

lemma header_fields [simp]:
  "mh_stream_id (media_header_of s f) = sn_stream_id s" "mh_sequence (media_header_of s f) = sn_sequence s"
  "mh_timestamp (media_header_of s f) = sn_timestamp s"
  by (simp_all add: media_header_of_def)

lemma header_ident: "tx_ident s' = tx_ident s \<Longrightarrow> media_header_of s' f = media_header_of s f"
  by (simp add: tx_ident_def media_header_of_def)

section \<open>A codec that does not fail\<close>

text \<open>Every call of \<open>opus_encode\<close> on a valid frame returns a packet: at least one byte, within the space given.\<close>

definition reliable_encoder :: "('e, 'd) opus \<Rightarrow> bool" where
  "reliable_encoder lib \<longleftrightarrow>
     (\<forall>e x fs space. 0 < space \<longrightarrow> (case op_encode lib e x fs space of (n, bs, e') \<Rightarrow> 0 < n \<and> n \<le> space \<and> length bs = nat n))"

text \<open>An encoder opened by the session: one channel of 960 samples.\<close>

definition session_encoder :: "'e encoder \<Rightarrow> bool" where
  "session_encoder e \<longleftrightarrow> encoder_is_open e \<and> ec_channels (enc_config e) = 1 \<and> ec_frame_samples (enc_config e) = kFrameSamples"

lemma frame_len_960: "frame_len = 960"
  by (simp add: frame_len_def kFrameSamples_960)

lemma session_encode:
  assumes "session_encoder e" "length x = frame_len" "length out = kMaxPayload" "encoder_encode lib e x out = (r, out', e')"
  shows "session_encoder e'" "opus_contract lib \<Longrightarrow> length out' = kMaxPayload"
    "reliable_encoder lib \<Longrightarrow> encode_result_ok r \<and> 0 < er_bytes r \<and> er_bytes r \<le> kMaxPayload \<and> length out' = kMaxPayload"
proof -
  obtain st where st: "enc_state e = Some st" using assms(1) by (auto simp: session_encoder_def encoder_is_open_def)
  have len: "unat (ucast (ec_frame_samples (enc_config e)) * of_int (ec_channels (enc_config e)) :: u64) = length x" "out \<noteq> []"
    "sint (of_nat (length out) :: u32) = 1184"
    using assms(1-3) by (auto simp: session_encoder_def frame_len_960 kFrameSamples_960 kMaxPayload_def proto_consts)
  obtain n bs st' where op: "op_encode lib st x (sint (ec_frame_samples (enc_config e))) 1184 = (n, bs, st')"
    by (cases "op_encode lib st x (sint (ec_frame_samples (enc_config e))) 1184") auto
  have c: "\<not> length x \<noteq> unat (ucast (ec_frame_samples (enc_config e)) * of_int (ec_channels (enc_config e)) :: u64)"
    "\<not> out = []" using len by simp_all
  note run = assms(4) [unfolded encoder_encode_def st option.case Let_def if_not_P [OF c(1)] if_not_P [OF c(2)] len(3) op prod.case]
  have e': "enc_state e' = Some st'" "enc_config e' = enc_config e" "out' = bs @ drop (length bs) out"
    "n \<ge> 0 \<Longrightarrow> er_bytes r = nat n \<and> er_error r = 0"
    using run by (cases "n < 0"; auto)+
  then show "session_encoder e'" using assms(1) by (auto simp: session_encoder_def encoder_is_open_def)
  show "length out' = kMaxPayload" if c: "opus_contract lib"
  proof -
    have "\<forall>e x fs space. case op_encode lib e x fs space of (n, bs, e') \<Rightarrow>
        if n < 0 then bs = [] else length bs = nat n \<and> n \<le> space" using c unfolding opus_contract_def by (elim conjE)
    note this [rule_format, where e = st and x = x and fs = "sint (ec_frame_samples (enc_config e))" and space = 1184]
    then have "if n < 0 then bs = [] else length bs = nat n \<and> n \<le> 1184" unfolding op prod.case .
    then show ?thesis using e'(3) assms(3) by (auto simp: kMaxPayload_def proto_consts split: if_splits)
  qed
  show "encode_result_ok r \<and> 0 < er_bytes r \<and> er_bytes r \<le> kMaxPayload \<and> length out' = kMaxPayload" if c: "reliable_encoder lib"
  proof -
    have "(0 :: int) < 1184 \<longrightarrow> (case op_encode lib st x (sint (ec_frame_samples (enc_config e))) 1184 of (n, bs, e') \<Rightarrow>
        0 < n \<and> n \<le> 1184 \<and> length bs = nat n)" using c unfolding reliable_encoder_def by (elim allE)
    then have "0 < n \<and> n \<le> 1184 \<and> length bs = nat n" unfolding op prod.case by simp
    then show ?thesis using e' assms(3) by (auto simp: encode_result_ok_def kMaxPayload_def proto_consts)
  qed
qed

section \<open>A frame becomes one datagram\<close>

definition buffers_ok :: "tx_buffers \<Rightarrow> bool" where
  "buffers_ok bufs \<longleftrightarrow> length (fst bufs) = kMaxPayload \<and> length (snd bufs) = kMaxDatagram"

lemma media_fits:
  assumes "mh_flags h AND NOT kAssignedMask = 0" "payload \<noteq> []" "length payload \<le> kMaxPayload" "length out = kMaxDatagram"
  shows "\<exists>d. encode_media h payload out = Some (16 + length payload, d)"
  using encode_media_Some [OF assms(1,2)] assms(3,4) by (simp add: kMaxPayload_def proto_consts)

text \<open>What sending one datagram \<open>h\<close> does to the session and to the log.\<close>

definition sent_one ::
  "media_header \<Rightarrow> ('e, 'd) session \<Rightarrow> 'w \<times> (endpoint \<times> bytes) list \<Rightarrow> ('e, 'd) session \<Rightarrow> 'w \<times> (endpoint \<times> bytes) list \<Rightarrow> bool" where
  "sent_one h s w s' w' \<longleftrightarrow> session_encoder (sn_encoder s') \<and> tx_passive s' = tx_passive s \<and> sn_config s' = sn_config s \<and>
     sn_transmitting s' = sn_transmitting s \<and> sn_stream_id s' = sn_stream_id s \<and> sn_sequence s' = sn_sequence s + 1 \<and>
     sn_timestamp s' = sn_timestamp s + kFrameSamples \<and>
     (\<exists>d p. snd w' = snd w @ [(cf_peer (sn_config s), d)] \<and> parsed_media d = Some p \<and> mp_header p = h)"

lemma encode_and_ship:
  assumes "opus_contract lib" "reliable_encoder lib" "session_encoder (sn_encoder s)" "buffers_ok (payload, datagram)"
    "length x = frame_len" "mh_flags h AND NOT kAssignedMask = 0"
  obtains e p s1 d s2 w2 where "timed_encode lib clk s x payload = (e, p, s1)" "encode_result_ok e" "tx_ident s1 = tx_ident s"
    "encode_media h (take (er_bytes e) p) datagram = Some (16 + er_bytes e, d)"
    "ship (noting send) s1 w (take (16 + er_bytes e) d) = (s2, w2)" "buffers_ok (p, d)"
    "sent_one h s w (next_packet s2) w2" "sn_talkspurt_open s2 = sn_talkspurt_open s"
proof -
  obtain e p s1 where t: "timed_encode lib clk s x payload = (e, p, s1)" by (cases "timed_encode lib clk s x payload")
  note te = timed_encode_effect [OF t]
  have len: "length payload = kMaxPayload" "length datagram = kMaxDatagram" using assms(4) by (simp_all add: buffers_ok_def)
  note enc = session_encode [OF assms(3,5) len(1) te [THEN conjunct2, THEN conjunct2, THEN conjunct2]]
  have e: "encode_result_ok e" "0 < er_bytes e" "er_bytes e \<le> kMaxPayload" "length p = kMaxPayload" "session_encoder (sn_encoder s1)"
    using enc(1) enc(3) [OF assms(2)] by simp_all
  have tk: "take (er_bytes e) p \<noteq> []" "length (take (er_bytes e) p) = er_bytes e" using e by auto
  obtain d where d: "encode_media h (take (er_bytes e) p) datagram = Some (16 + er_bytes e, d)"
    using media_fits [OF assms(6) tk(1) _ len(2)] tk(2) e(3) by auto
  note m = encode_media_sent [OF d, simplified]
  obtain s2 w2 where sh: "ship (noting send) s1 w (take (16 + er_bytes e) d) = (s2, w2)"
    by (cases "ship (noting send) s1 w (take (16 + er_bytes e) d)")
  note sf = ship_effect [OF sh]
  have id: "sn_transmitting s1 = sn_transmitting s" "sn_talkspurt_open s1 = sn_talkspurt_open s" "sn_config s1 = sn_config s"
    "sn_stream_id s1 = sn_stream_id s" "sn_sequence s1 = sn_sequence s" "sn_timestamp s1 = sn_timestamp s"
    "sn_transmitting s2 = sn_transmitting s" "sn_talkspurt_open s2 = sn_talkspurt_open s" "sn_config s2 = sn_config s"
    "sn_stream_id s2 = sn_stream_id s" "sn_sequence s2 = sn_sequence s" "sn_timestamp s2 = sn_timestamp s"
    using te sf by (simp_all add: tx_ident_def)
  have log: "snd w2 = snd w @ [(cf_peer (sn_config s), take (16 + er_bytes e) d)]"
    using sf id(3) by simp
  have fields: "sn_transmitting (next_packet s2) = sn_transmitting s" "sn_config (next_packet s2) = sn_config s"
    "sn_stream_id (next_packet s2) = sn_stream_id s" "sn_sequence (next_packet s2) = sn_sequence s + 1"
    "sn_timestamp (next_packet s2) = sn_timestamp s + kFrameSamples"
    using id by (simp_all add: next_packet_def)
  have "sent_one h s w (next_packet s2) w2"
    unfolding sent_one_def using te sf e(5) log m(2) by (auto simp: fields)
  then show ?thesis using that [OF t e(1) _ d sh] te id(8) m(3) e(4) len(2) by (simp add: buffers_ok_def)
qed

lemma send_frame_talks:
  assumes "opus_contract lib" "reliable_encoder lib" "session_encoder (sn_encoder s)" "buffers_ok bufs" "length x = frame_len"
  shows "\<exists>s' w' bufs'. send_frame lib clk (noting send) s w first x bufs = Some (s', w', bufs') \<and> buffers_ok bufs' \<and>
    sent_one (media_header_of s (if first then kTalkspurtStart else 0)) s w s' w' \<and> sn_talkspurt_open s' = sn_talkspurt_open s"
proof -
  obtain payload datagram where b: "bufs = (payload, datagram)" by (cases bufs)
  let ?h = "media_header_of s (if first then kTalkspurtStart else 0)"
  have f: "mh_flags ?h AND NOT kAssignedMask = 0" by simp
  obtain e p s1 d s2 w2 where r: "timed_encode lib clk s x payload = (e, p, s1)" "encode_result_ok e" "tx_ident s1 = tx_ident s"
    "encode_media ?h (take (er_bytes e) p) datagram = Some (16 + er_bytes e, d)"
    "ship (noting send) s1 w (take (16 + er_bytes e) d) = (s2, w2)" "buffers_ok (p, d)"
    "sent_one ?h s w (next_packet s2) w2" "sn_talkspurt_open s2 = sn_talkspurt_open s"
    using encode_and_ship [OF assms(1-3) assms(4) [unfolded b] assms(5) f] by blast
  have h: "media_header_of s1 f = media_header_of s f" for f using header_ident [OF r(3)] .
  have "send_frame lib clk (noting send) s w first x bufs = Some (next_packet s2, w2, p, d)"
    using r(2,4,5) by (simp add: send_frame_def b r(1) h Let_def split del: if_split)
  then show ?thesis using r(6-8) by (simp add: next_packet_def)
qed

lemma end_talkspurt_talks:
  assumes "opus_contract lib" "reliable_encoder lib" "session_encoder (sn_encoder s)" "buffers_ok bufs" "length x = frame_len"
  shows "\<exists>s' w' bufs'. end_talkspurt lib clk (noting send) s w x bufs = Some (s', w', bufs') \<and> buffers_ok bufs' \<and>
    sent_one (media_header_of s kTalkspurtEnd) s w s' w' \<and> \<not> sn_talkspurt_open s'"
proof -
  obtain payload datagram where b: "bufs = (payload, datagram)" by (cases bufs)
  let ?h = "media_header_of s kTalkspurtEnd"
  have f: "mh_flags ?h AND NOT kAssignedMask = 0" by simp
  obtain e p s1 d s2 w2 where r: "timed_encode lib clk s x payload = (e, p, s1)" "encode_result_ok e" "tx_ident s1 = tx_ident s"
    "encode_media ?h (take (er_bytes e) p) datagram = Some (16 + er_bytes e, d)"
    "ship (noting send) s1 w (take (16 + er_bytes e) d) = (s2, w2)" "buffers_ok (p, d)"
    "sent_one ?h s w (next_packet s2) w2" "sn_talkspurt_open s2 = sn_talkspurt_open s"
    using encode_and_ship [OF assms(1-3) assms(4) [unfolded b] assms(5) f] by blast
  have "end_talkspurt lib clk (noting send) s w x bufs = Some ((next_packet s2)\<lparr>sn_talkspurt_open := False\<rparr>, w2, p, d)"
    using r(2,4,5) by (simp add: end_talkspurt_def b r(1) Let_def)
  moreover have "sent_one ?h s w ((next_packet s2)\<lparr>sn_talkspurt_open := False\<rparr>) w2"
    using r(7) by (simp add: sent_one_def)
  ultimately show ?thesis using r(6) by simp
qed

section \<open>Any interleaving\<close>

definition cursor_of :: "('e, 'd) session \<Rightarrow> talk_cursor" where
  "cursor_of s = (if sn_talkspurt_open s then Some (sn_stream_id s, sn_sequence s, sn_timestamp s) else None)"

definition on_wire :: "('e, 'd) session \<Rightarrow> 'w \<times> (endpoint \<times> bytes) list \<Rightarrow> bool" where
  "on_wire s w \<longleftrightarrow> (\<exists>ps. media_log (snd w) = Some ps \<and> talk_run None (map mp_header ps) = Some (cursor_of s)) \<and>
     fst ` set (snd w) \<subseteq> {cf_peer (sn_config s)}"

definition tx_inv :: "('e, 'd) session \<times> ('w \<times> (endpoint \<times> bytes) list) \<times> tx_buffers \<Rightarrow> bool" where
  "tx_inv = (\<lambda>(s, w, bufs). session_encoder (sn_encoder s) \<and> buffers_ok bufs \<and>
     (\<exists>q. ring_queue kTxPcmSamples (sn_tx_pcm s) q) \<and> on_wire s w)"

lemma on_wire_extend:
  assumes "on_wire s0 w" "sent_one h s w s' w'" "sn_config s = sn_config s0" "talk_next (cursor_of s0) h = Some (cursor_of s')"
  shows "on_wire s' w'"
proof -
  obtain ps where ps: "media_log (snd w) = Some ps" "talk_run None (map mp_header ps) = Some (cursor_of s0)"
    "fst ` set (snd w) \<subseteq> {cf_peer (sn_config s0)}"
    using assms(1) by (auto simp: on_wire_def)
  obtain d p where d: "snd w' = snd w @ [(cf_peer (sn_config s), d)]" "parsed_media d = Some p" "mp_header p = h"
    "sn_config s' = sn_config s"
    using assms(2) by (auto simp: sent_one_def)
  have "media_log (snd w') = Some (ps @ [p])" using media_log_snoc [OF ps(1) d(2)] d(1) by simp
  moreover have "talk_run None (map mp_header (ps @ [p])) = Some (cursor_of s')"
    using ps(2) assms(4) d(3) by (simp add: talk_run_snoc)
  moreover have "fst ` set (snd w') \<subseteq> {cf_peer (sn_config s')}" using ps(3) d assms(3) by auto
  ultimately show ?thesis unfolding on_wire_def by blast
qed

lemma on_wire_cong:
  "sn_config s' = sn_config s \<Longrightarrow> cursor_of s' = cursor_of s \<Longrightarrow> on_wire s w \<Longrightarrow> on_wire s' w"
  by (simp add: on_wire_def)

text \<open>One iteration of the loop.\<close>

lemma transmit_frame_talks:
  assumes "opus_contract lib" "reliable_encoder lib" "tx_inv (s, w, bufs)" "sr_size (sn_tx_pcm s) \<ge> frame_len"
  shows "\<exists>s' w' bufs'. transmit_frame lib clk rand (noting send) s w bufs = Some (True, s', w', bufs') \<and> tx_inv (s', w', bufs') \<and>
    sn_config s' = sn_config s"
proof -
  obtain q where q: "ring_queue kTxPcmSamples (sn_tx_pcm s) q" using assms(3) by (auto simp: tx_inv_def)
  have "frame_len \<le> length q"
    using assms(4) q repr_size by (fastforce simp: ring_queue_def sr_size_def)
  obtain tx where tx: "sr_pop_bulk (sn_tx_pcm s) frame_len = Some (take frame_len q, tx)" "ring_queue kTxPcmSamples tx (drop frame_len q)"
    using spsc.get_law [OF q] by blast
  define s0 where "s0 = s\<lparr>sn_tx_pcm := tx\<rparr>"
  obtain first s1 where op: "open_talkspurt rand s0 = (first, s1)" by fastforce
  note ot = open_talkspurt_effect [OF op]
  have len: "length (take frame_len q) = frame_len" using \<open>frame_len \<le> length q\<close> by simp
  have inv: "session_encoder (sn_encoder s1)" "buffers_ok bufs" "on_wire s w" "sn_config s1 = sn_config s"
    "ring_queue kTxPcmSamples (fst (tx_passive s1)) (drop frame_len q)"
    using assms(3) ot tx(2) by (simp_all add: tx_inv_def s0_def tx_passive_def)
  have cur: "cursor_of s0 = cursor_of s" by (simp add: cursor_of_def s0_def)
  have nf: "\<not> first \<Longrightarrow> cursor_of s1 = cursor_of s" using ot cur by simp
  note run = transmit_frame_def [of lib clk rand "noting send" s w bufs, unfolded tx(1) bind.bind_lunit prod.case Let_def len,
      folded s0_def, unfolded op prod.case]
  have fin: "tx_inv (s', w', bufs')" if "sent_one h s1 w s' w'" "talk_next (cursor_of s) h = Some (cursor_of s')" "buffers_ok bufs'" for h s' w' bufs'
    using that on_wire_extend [OF inv(3) that(1) inv(4) that(2)] inv(5) by (auto simp: tx_inv_def sent_one_def tx_passive_def)
  show ?thesis
  proof (cases "sn_transmitting s1")
    case True
    obtain s' w' bufs' where r: "send_frame lib clk (noting send) s1 w first (take frame_len q) bufs = Some (s', w', bufs')"
      "buffers_ok bufs'" "sent_one (media_header_of s1 (if first then kTalkspurtStart else 0)) s1 w s' w'"
      "sn_talkspurt_open s' = sn_talkspurt_open s1"
      using send_frame_talks [OF assms(1,2) inv(1,2) len] by blast
    have o1: "sn_talkspurt_open s1" using ot True by simp
    have c': "cursor_of s' = Some (sn_stream_id s1, sn_sequence s1 + 1, sn_timestamp s1 + kFrameSamples)"
      using r(3,4) o1 by (simp add: cursor_of_def sent_one_def)
    have "talk_next (cursor_of s) (media_header_of s1 (if first then kTalkspurtStart else 0)) = Some (cursor_of s')"
    proof (cases first)
      case True
      then have "cursor_of s = None" using ot cur by (simp add: cursor_of_def)
      then show ?thesis using True by (simp add: talk_next_def talk_after_def c')
    next
      case False
      then show ?thesis using nf o1 by (simp add: talk_next_def talk_after_def c') (simp add: cursor_of_def)
    qed
    from fin [OF r(3) this r(2)] show ?thesis using run True r(1,3) inv(4) by (simp add: sent_one_def)
  next
    case False
    show ?thesis
    proof (cases "sn_talkspurt_open s1")
      case True
      obtain s' w' bufs' where r: "end_talkspurt lib clk (noting send) s1 w (take frame_len q) bufs = Some (s', w', bufs')"
        "buffers_ok bufs'" "sent_one (media_header_of s1 kTalkspurtEnd) s1 w s' w'" "\<not> sn_talkspurt_open s'"
        using end_talkspurt_talks [OF assms(1,2) inv(1,2) len] by blast
      have "\<not> first" using ot False by simp
      then have "talk_next (cursor_of s) (media_header_of s1 kTalkspurtEnd) = Some (cursor_of s')"
        using nf True r(4) by (simp add: talk_next_def talk_after_def cursor_of_def)
      from fin [OF r(3) this r(2)] show ?thesis using run True False r(1,3) inv(4) by (simp add: sent_one_def)
    next
      case closed: False
      have "\<not> first" using ot False by simp
      then have "s1 = s0" using ot by simp
      then have "tx_inv (s1, w, bufs)"
        using inv on_wire_cong [of s1 s w] cur by (auto simp: tx_inv_def tx_passive_def)
      then show ?thesis using run False closed inv(4) by simp
    qed
  qed
qed

lemma tx_step_inv:
  assumes "opus_contract lib" "reliable_encoder lib" "tx_inv st"
  shows "\<exists>st'. tx_step lib clk rand (noting send) st e = Some st' \<and> tx_inv st' \<and> sn_config (fst st') = sn_config (fst st)"
proof -
  obtain s w bufs where st: "st = (s, w, bufs)" by (cases st)
  obtain q where q: "ring_queue kTxPcmSamples (sn_tx_pcm s) q" using assms(3) by (auto simp: tx_inv_def st)
  show ?thesis
  proof (cases e)
    case (TxCapture x)
    obtain tx where tx: "sr_push_bulk (sn_tx_pcm s) x = Some (min (length x) (kTxPcmSamples - length q), tx)"
      "ring_queue kTxPcmSamples tx (q @ take (kTxPcmSamples - length q) x)"
      using spsc.put_law [OF q] by blast
    have "on_wire (s\<lparr>sn_tx_pcm := tx\<rparr>) w" using assms(3) by (auto simp: tx_inv_def st on_wire_def cursor_of_def)
    then show ?thesis using tx assms(3) by (auto simp: st TxCapture on_capture_def tx_inv_def)
  next
    case (TxSet on)
    have "on_wire (set_transmitting s on) w"
      using assms(3) by (auto simp: tx_inv_def st on_wire_def cursor_of_def set_transmitting_def)
    then show ?thesis using assms(3) by (auto simp: st TxSet tx_inv_def set_transmitting_def)
  next
    case TxEnter
    then show ?thesis using assms(3) by (simp add: st tx_inv_def fresh_buffers_def buffers_ok_def)
  next
    case TxFrame
    show ?thesis
    proof (cases "sr_size (sn_tx_pcm s) \<ge> frame_len")
      case True
      obtain s' w' bufs' where "transmit_frame lib clk rand (noting send) s w bufs = Some (True, s', w', bufs')"
        "tx_inv (s', w', bufs')" "sn_config s' = sn_config s"
        using transmit_frame_talks [OF assms(1,2) assms(3) [unfolded st] True] by blast
      then show ?thesis using True by (simp add: st TxFrame)
    next
      case False
      then show ?thesis using assms(3) by (simp add: st TxFrame)
    qed
  qed
qed

lemma tx_run_inv:
  assumes "opus_contract lib" "reliable_encoder lib" "tx_inv st"
  shows "\<exists>st'. tx_run lib clk rand (noting send) st es = Some st' \<and> tx_inv st' \<and> sn_config (fst st') = sn_config (fst st)"
  using assms(3)
proof (induction es arbitrary: st)
  case (Cons e es)
  obtain st1 where 1: "tx_step lib clk rand (noting send) st e = Some st1" "tx_inv st1" "sn_config (fst st1) = sn_config (fst st)"
    using tx_step_inv [OF assms(1,2) Cons.prems] by blast
  then show ?case using Cons.IH [OF 1(2)] by auto
qed auto

section \<open>A started session\<close>

lemma reset_queue: "sr_capacity_ok r \<Longrightarrow> ring_queue (sr_capacity r) (sr_reset r) []"
  unfolding ring_queue_def
  by (intro conjI exI [of _ "[]"] exI [of _ 0]) (simp_all add: ring_repr_def sr_reset_def sr_capacity_def sr_capacity_ok_def)

lemma capacity_powers:
  "sr_capacity r = kTxPcmSamples \<Longrightarrow> sr_capacity_ok r" "sr_capacity r' = kRxCapacity \<Longrightarrow> sr_capacity_ok r'"
proof -
  have "kTxPcmSamples = 2 ^ 14" "kRxCapacity = 2 ^ 6" by (simp_all add: kTxPcmSamples_def kRxCapacity_def)
  then show "sr_capacity r = kTxPcmSamples \<Longrightarrow> sr_capacity_ok r" "sr_capacity r' = kRxCapacity \<Longrightarrow> sr_capacity_ok r'"
    unfolding sr_capacity_ok_def by (intro bexI [of _ 14] bexI [of _ 6]; simp)+
qed

text \<open>The storage of the two rings is allocated once and never changes size.\<close>

definition rings_ok :: "('e, 'd) session \<Rightarrow> bool" where
  "rings_ok s \<longleftrightarrow> sr_capacity (sn_tx_pcm s) = kTxPcmSamples \<and> sr_capacity (sn_rx s) = kRxCapacity"

lemma rings_ok_init: "rings_ok session_init"
  by (simp add: rings_ok_def session_init_def sr_init_def sr_capacity_def)

lemma session_start_cases:
  assumes "session_start lib err s c = (ok, s')" "\<not> sn_running s"
  obtains (encoder) enc where "encoder_open lib (sn_encoder s) (encoder_config_of c) = (False, enc)" "\<not> ok"
      "s' = s\<lparr>sn_config := c, sn_encoder := enc, sn_last_error := enc_last_error enc\<rparr>"
  | (jitter) enc jb where "encoder_open lib (sn_encoder s) (encoder_config_of c) = (True, enc)"
      "jb_open lib (sn_jitter s) (jitter_config_of c) = (False, jb)" "\<not> ok"
      "s' = s\<lparr>sn_config := c, sn_jitter := jb, sn_encoder := encoder_close enc\<rparr>"
  | (socket) enc jb where "encoder_open lib (sn_encoder s) (encoder_config_of c) = (True, enc)"
      "jb_open lib (sn_jitter s) (jitter_config_of c) = (True, jb)" "err \<noteq> 0" "\<not> ok"
      "s' = s\<lparr>sn_config := c, sn_socket_open := False, sn_last_error := err, sn_encoder := encoder_close enc,
          sn_jitter := jb_close jb\<rparr>"
  | (up) enc jb where "encoder_open lib (sn_encoder s) (encoder_config_of c) = (True, enc)"
      "jb_open lib (sn_jitter s) (jitter_config_of c) = (True, jb)" "err = 0" "ok"
      "s' = session_fresh (s\<lparr>sn_config := c, sn_encoder := enc, sn_jitter := jb, sn_socket_open := True\<rparr>)"
proof -
  obtain ok1 enc where e: "encoder_open lib (sn_encoder s) (encoder_config_of c) = (ok1, enc)" by fastforce
  obtain ok2 jb where j: "jb_open lib (sn_jitter s) (jitter_config_of c) = (ok2, jb)" by fastforce
  note run = assms(1) [unfolded session_start_def if_not_P [OF assms(2)] Let_def]
  show ?thesis
  proof (cases "ok1 \<and> ok2 \<and> err = 0")
    case True
    then show ?thesis using up [of enc jb] e j run by (simp split: if_splits)
  next
    case False
    then consider "\<not> ok1" | "ok1" "\<not> ok2" | "ok1" "ok2" "err \<noteq> 0" by blast
    then show ?thesis
    proof cases
      case 1
      then show ?thesis using encoder [of enc] e run by simp
    next
      case 2
      then show ?thesis using jitter [of enc jb] e j run by simp
    next
      case 3
      then show ?thesis using socket [of enc jb] e j run by simp
    qed
  qed
qed

lemma started_tx_inv:
  assumes "session_start lib 0 s0 c = (True, s)" "\<not> sn_running s0" "rings_ok s0"
  shows "tx_inv (s, (w, []), fresh_buffers)" "sn_config s = c"
proof -
  from assms(1,2) obtain enc jb where u: "encoder_open lib (sn_encoder s0) (encoder_config_of c) = (True, enc)"
    "s = session_fresh (s0\<lparr>sn_config := c, sn_encoder := enc, sn_jitter := jb, sn_socket_open := True\<rparr>)"
  proof (cases rule: session_start_cases)
    case (up enc jb)
    then show ?thesis using that by blast
  qed simp_all
  have "session_encoder enc"
    using encoder_open_effect [OF u(1)] by (simp add: session_encoder_def encoder_config_of_def default_encoder_config_def)
  then have e: "session_encoder (sn_encoder s)" by (simp add: u(2) session_fresh_def)
  have cap: "sr_capacity (sn_tx_pcm s0) = kTxPcmSamples" using assms(3) by (simp add: rings_ok_def)
  have q: "ring_queue kTxPcmSamples (sn_tx_pcm s) []"
    using reset_queue [OF capacity_powers(1) [OF cap]] cap by (simp add: u(2) session_fresh_def)
  have w: "on_wire s (w, [])" by (simp add: on_wire_def media_log_def cursor_of_def u(2) session_fresh_def)
  have "buffers_ok fresh_buffers" by (simp add: fresh_buffers_def buffers_ok_def)
  then show "tx_inv (s, (w, []), fresh_buffers)" unfolding tx_inv_def prod.case using e q w by blast
  show "sn_config s = c" by (simp add: u(2) session_fresh_def)
qed

section \<open>The loop ends and keeps the rest of the samples\<close>

lemma encode_media_total:
  assumes "mh_flags h AND NOT kAssignedMask = 0"
  shows "\<exists>r. encode_media h payload out = Some r"
proof (cases "payload = [] \<or> length out < 16 + length payload \<or> 1200 < 16 + length payload")
  case True
  then show ?thesis using encode_media_0 [OF assms] by blast
next
  case False
  then have "payload \<noteq> []" "16 + length payload \<le> length out" "16 + length payload \<le> 1200" by auto
  from encode_media_Some [OF assms this] show ?thesis by blast
qed

lemma send_frame_total: "\<exists>s' w' bufs'. send_frame lib clk send s w first x bufs = Some (s', w', bufs')"
proof -
  obtain payload datagram where b: "bufs = (payload, datagram)" by (cases bufs)
  obtain e p s1 where t: "timed_encode lib clk s x payload = (e, p, s1)" by (cases "timed_encode lib clk s x payload")
  have "mh_flags (media_header_of s1 (if first then kTalkspurtStart else 0)) AND NOT kAssignedMask = 0" by simp
  from encode_media_total [OF this] obtain len d where
    "encode_media (media_header_of s1 (if first then kTalkspurtStart else 0)) (take (er_bytes e) p) datagram = Some (len, d)"
    by (metis surj_pair)
  then show ?thesis by (cases "encode_result_ok e"; cases "len = 0") (simp_all add: send_frame_def b t Let_def split: prod.split)
qed

lemma end_talkspurt_total: "\<exists>s' w' bufs'. end_talkspurt lib clk send s w x bufs = Some (s', w', bufs')"
proof -
  obtain payload datagram where b: "bufs = (payload, datagram)" by (cases bufs)
  obtain e p s1 where t: "timed_encode lib clk s x payload = (e, p, s1)" by (cases "timed_encode lib clk s x payload")
  have "mh_flags (media_header_of s kTalkspurtEnd) AND NOT kAssignedMask = 0" by simp
  from encode_media_total [OF this] obtain len d where
    "encode_media (media_header_of s kTalkspurtEnd) (take (er_bytes e) p) datagram = Some (len, d)"
    by (metis surj_pair)
  then show ?thesis by (cases "encode_result_ok e"; cases "len = 0") (simp_all add: end_talkspurt_def b t Let_def split: prod.split)
qed

lemma transmit_frame_total:
  assumes "ring_queue kTxPcmSamples (sn_tx_pcm s) q" "frame_len \<le> length q"
  shows "\<exists>s' w' bufs'. transmit_frame lib clk rand send s w bufs = Some (True, s', w', bufs') \<and>
    ring_queue kTxPcmSamples (sn_tx_pcm s') (drop frame_len q)"
proof -
  obtain tx where tx: "sr_pop_bulk (sn_tx_pcm s) frame_len = Some (take frame_len q, tx)" "ring_queue kTxPcmSamples tx (drop frame_len q)"
    using spsc.get_law [OF assms(1)] by blast
  obtain first s1 where op: "open_talkspurt rand (s\<lparr>sn_tx_pcm := tx\<rparr>) = (first, s1)" by fastforce
  have s1: "fst (tx_passive s1) = tx" using open_talkspurt_effect [OF op] by (simp add: tx_passive_def)
  obtain s2 w2 b2 where sf: "send_frame lib clk send s1 w first (take frame_len q) bufs = Some (s2, w2, b2)"
    using send_frame_total [of lib clk send s1 w first "take frame_len q" bufs] by blast
  obtain s3 w3 b3 where et: "end_talkspurt lib clk send s1 w (take frame_len q) bufs = Some (s3, w3, b3)"
    using end_talkspurt_total [of lib clk send s1 w "take frame_len q" bufs] by blast
  have "fst (tx_passive s2) = tx" "fst (tx_passive s3) = tx"
    using send_frame_passive [OF sf] end_talkspurt_passive [OF et] s1 by simp_all
  then have "sn_tx_pcm s1 = tx" "sn_tx_pcm s2 = tx" "sn_tx_pcm s3 = tx" using s1 by (simp_all add: tx_passive_def)
  then show ?thesis using tx(2) assms(2) sf et
    by (simp add: transmit_frame_def tx(1) op Let_def)
qed

lemma queue_size: "ring_queue cap r q \<Longrightarrow> sr_size r = length q"
  using repr_size by (fastforce simp: ring_queue_def sr_size_def)

lemma transmit_loop_total:
  assumes "ring_queue kTxPcmSamples (sn_tx_pcm s) q"
  shows "\<exists>s' w'. transmit_loop lib clk rand send s w bufs = Some (s', w') \<and>
    ring_queue kTxPcmSamples (sn_tx_pcm s') (drop (frame_len * (length q div frame_len)) q)"
  using assms
proof (induction "length q" arbitrary: s w bufs q rule: less_induct)
  case less
  show ?case
  proof (cases "frame_len \<le> length q")
    case True
    obtain s1 w1 b1 where 1: "transmit_frame lib clk rand send s w bufs = Some (True, s1, w1, b1)"
      "ring_queue kTxPcmSamples (sn_tx_pcm s1) (drop frame_len q)"
      using transmit_frame_total [OF less.prems True, of lib clk rand send w bufs] by blast
    have "length (drop frame_len q) < length q" using True frame_len_pos by simp
    from less.hyps [OF this 1(2)] obtain s' w' where 2: "transmit_loop lib clk rand send s1 w1 b1 = Some (s', w')"
      "ring_queue kTxPcmSamples (sn_tx_pcm s') (drop (frame_len * (length (drop frame_len q) div frame_len)) (drop frame_len q))"
      by blast
    have "frame_len * ((length q - frame_len) div frame_len) + frame_len = frame_len * (length q div frame_len)"
      using True frame_len_pos by (simp add: le_div_geq)
    then have "drop (frame_len * (length (drop frame_len q) div frame_len)) (drop frame_len q) = drop (frame_len * (length q div frame_len)) q"
      by simp
    moreover have "transmit_loop lib clk rand send s w bufs = Some (s', w')"
      using 1(1) 2(1) True queue_size [OF less.prems] by (subst transmit_loop.simps) simp
    ultimately show ?thesis using 2(2) by simp
  next
    case False
    then show ?thesis using less.prems queue_size [OF less.prems] by (subst transmit_loop.simps) simp
  qed
qed

section \<open>Properties\<close>


text \<open>
  C20. \<open>transmit_available\<close> ends on every input, without leaving its buffers and whatever the codec and the
  socket answer: it takes whole frames from the microphone ring, and exactly the samples after the last whole
  frame are left in it, in order.
\<close>

lemma transmit_takes_whole_frames:
  assumes "ring_queue kTxPcmSamples (sn_tx_pcm s) q"
  shows "\<exists>s' w'. transmit_available lib clk rand send s w = Some (s', w') \<and>
    ring_queue kTxPcmSamples (sn_tx_pcm s') (drop (960 * (length q div 960)) q) \<and> sr_size (sn_tx_pcm s') = length q mod 960"
proof -
  obtain s' w' where r: "transmit_available lib clk rand send s w = Some (s', w')"
    "ring_queue kTxPcmSamples (sn_tx_pcm s') (drop (960 * (length q div 960)) q)"
    using transmit_loop_total [OF assms, of lib clk rand send w "(replicate kMaxPayload 0, replicate kMaxDatagram 0)"]
    unfolding transmit_available_def frame_len_960 by blast
  have "sr_size (sn_tx_pcm s') = length q mod 960"
    using queue_size [OF r(2)] by (simp add: minus_mult_div_eq_mod)
  then show ?thesis using r by blast
qed

text \<open>
  An encoder that fails on the first frame of a talkspurt loses its \<open>TALKSPURT_START\<close>: the talkspurt counts as open, and
  the next packet goes out without the flag.
\<close>

lemma start_flag_lost:
  assumes "transmit_frame lib clk rand send s w bufs = Some (True, s1, w1, bufs1)"
    "sn_transmitting s" "\<not> sn_talkspurt_open s" "nc_encode_failed (sn_counts s1) \<noteq> nc_encode_failed (sn_counts s)"
  shows "sn_talkspurt_open s1 \<and> sn_transmitting s1 \<and> w1 = w \<and> fst (open_talkspurt rand s1) = False"
proof -
  obtain frame tx where pop: "sr_pop_bulk (sn_tx_pcm s) frame_len = Some (frame, tx)"
    using assms(1) by (auto simp: transmit_frame_def split: Option.bind_splits)
  obtain first s2 where op: "open_talkspurt rand (s\<lparr>sn_tx_pcm := tx\<rparr>) = (first, s2)" by fastforce
  note o = open_talkspurt_effect [OF op]
  have c: "sn_transmitting s2" "sn_talkspurt_open s2" "nc_encode_failed (sn_counts s2) = nc_encode_failed (sn_counts s)"
    using o assms(2) by simp_all
  have f: "\<not> length frame < frame_len" using assms(1) by (auto simp: transmit_frame_def pop)
  have sf: "send_frame lib clk send s2 w first frame (fst bufs, snd bufs) = Some (s1, w1, bufs1)"
    using assms(1) f c by (auto simp: transmit_frame_def pop op Let_def)
  from sf have "sn_talkspurt_open s1 \<and> sn_transmitting s1 \<and> w1 = w"
  proof (cases rule: send_frame_cases)
    case (codec e p s3)
    then show ?thesis using c timed_encode_effect [OF codec(1)] by (simp add: encode_failure_def count_up_def tx_ident_def)
  next
    case (packer e p s3 d)
    then show ?thesis using c timed_encode_effect [OF packer(1)] by (simp add: encode_failure_def count_up_def tx_ident_def)
  next
    case (sent e p s3 len d s4)
    then show ?thesis using c assms(4) timed_encode_effect [OF sent(1)] ship_effect [OF sent(5)] by simp
  qed
  then show ?thesis by (simp add: open_talkspurt_def)
qed

section \<open>A concrete session\<close>

definition demo_session_config :: session_config where
  "demo_session_config = default_session_config\<lparr>cf_fec := True, cf_expected_loss_percent := 20\<rparr>"

lemma demo_started: "\<exists>s. session_start silent_opus 0 session_init demo_session_config = (True, s)"
proof -
  have e: "encoder_config_of demo_session_config = voice_config"
    by (simp add: encoder_config_of_def demo_session_config_def default_session_config_def voice_config_def default_encoder_config_def)
  have j: "jitter_config_of demo_session_config = default_jb_config"
    by (simp add: jitter_config_of_def demo_session_config_def default_session_config_def default_jb_config_def)
  show ?thesis
    by (simp add: session_start_def session_init_def Let_def e j voice_open stall_open_eq [OF silent_create])
qed

lemma silent_reliable: "reliable_encoder silent_opus"
  by (simp add: reliable_encoder_def silent_opus_def)


lemma transmit_takes_whole_frames_witness:
  "\<exists>s'. transmit_available silent_opus (\<lambda>_. 0) (\<lambda>_. 7) (\<lambda>w e d. (0, w)) session_init () = Some (s', ()) \<and> sr_size (sn_tx_pcm s') = 0"
proof -
  have "sr_capacity_ok (sr_init kTxPcmSamples (0 :: 16 word))"
    by (rule capacity_powers(1)) (simp add: sr_capacity_def sr_init_def)
  then have "ring_queue kTxPcmSamples (sn_tx_pcm (session_init :: (unit, int) session)) []"
    using ring_queue_init by (simp add: session_init_def)
  from transmit_takes_whole_frames [OF this, of silent_opus "\<lambda>_. 0" "\<lambda>_. 7" "\<lambda>w e d. (0, w)" "()"] show ?thesis by (simp, blast)
qed

section \<open>Starting\<close>

lemma jb_open_opened:
  assumes "opus_contract lib" "jb_open lib b c = (ok, b')"
  shows "decoder_is_open (jb_decoder b') = ok"
proof -
  obtain ok1 d where d: "decoder_open lib (jb_decoder (jb_close b)) (jc_decoder c) = (ok1, d)" by fastforce
  have "ok1 = decoder_is_open d" using decoder_open_effect(2) [OF assms(1), of "jb_decoder (jb_close b)" "jc_decoder c"] d by simp
  then show ?thesis using assms(2) d
    by (auto simp: jb_open_def Let_def decoder_is_open_def decoder_close_def split: if_splits)
qed



end
