(* ===== verification/Session_Rx.thy ===== *)
theory Session_Rx
  imports Session_Tx
begin

text \<open>
  The receiving half of the session: from the socket over the datagram ring into the jitter buffer, the
  accounting beside it, and the samples handed to the device.
\<close>

section \<open>The buffer shows the datagram\<close>

lemma receive_view:
  assumes "memcpy_at buf 0 data = Some buf'"
  shows "take (length data) buf' = data" "length buf' = length buf"
  using assms by (auto simp: memcpy_at_def split: if_splits)

lemma parsed_media_iff: "parsed_media d = Some p \<longleftrightarrow> parse_media d = Some (Inr p)"
  by (auto simp: parsed_media_def split: option.splits sum.splits)

lemma parsed_media_peek: "parsed_media d = Some p \<Longrightarrow> peek_type d = Some (Inr Audio)"
proof -
  assume "parsed_media d = Some p"
  then have "parse_media d = Some (Inr p)" by (simp add: parsed_media_iff)
  then obtain ty where "validate_prefix d = Some (Inr ty)" "is_media ty"
    by (auto simp: parse_media_def split: Option.bind_splits sum.splits if_splits)
  then show ?thesis by (simp add: peek_type_def is_media_def)
qed

text \<open>The payload view over the ring slot is the payload the parser found.\<close>

lemma datagram_packet_parsed:
  assumes "parsed_media data = Some p" "memcpy_at buf 0 data = Some buf'"
  shows "datagram_packet \<lparr>dg_arrival_us = t, dg_header = mp_header p,
    dg_payload_offset = of_nat (length data - length (mp_payload p)),
    dg_payload_length = of_nat (length (mp_payload p)), dg_bytes = buf'\<rparr> = Some p"
proof -
  have p: "media_ok p" "data = wire_media (mp_header p) (mp_payload p)"
    using parse_media_image assms(1) by (simp_all add: parsed_media_iff)
  have len: "length data = 16 + length (mp_payload p)" "length (mp_payload p) \<le> 1184"
    using p(1) arg_cong [OF p(2), of length] by (simp_all add: media_ok_def kMaxPayload_def proto_consts)
  have "take (length data) buf' = data" "length data \<le> length buf'"
    using receive_view [OF assms(2)] assms(2) by (auto simp: memcpy_at_def split: if_splits)
  then have "take (length (mp_payload p)) (drop 16 buf') = drop 16 data" "16 + length (mp_payload p) \<le> length buf'"
    using len(1) by (metis add_diff_cancel_left' drop_take, simp)
  moreover have "drop 16 data = mp_payload p"
    by (subst p(2)) (simp add: wire_media_def be16_bytes_def be32_bytes_def)
  moreover have "unat (of_nat (length data - length (mp_payload p)) :: u16) = 16"
    "unat (of_nat (length (mp_payload p)) :: u16) = length (mp_payload p)"
    using len by (simp_all add: unat_of_nat_small)
  ultimately show ?thesis by (simp add: datagram_packet_def copy_out_def)
qed

section \<open>The accounting\<close>

text \<open>A jitter estimate small enough to be published in whole microseconds.\<close>

definition je_small :: "jitter_estimator \<Rightarrow> bool" where
  "je_small je \<longleftrightarrow> je_inv je \<and> je_peak je \<le> 2 ^ 56"

lemma je_small_init: "je_small je_init"
  by (simp add: je_small_def je_inv_def je_init_def d_of_int_def)

lemma je_small_anchor: "je_small je \<Longrightarrow> je_small (je_reanchor je ts t)"
  using arrival_small [of t] by (simp add: je_small_def je_inv_def je_reanchor_def je_anchor_def)

lemma je_small_observe:
  assumes "je_small je"
  shows "\<exists>je'. je_observe je ts t = Some je' \<and> je_small je'"
proof (cases "je_anchored je")
  case True
  let ?d = "uint (us_to_samples t) - uint (je_prev_arrival je) - distance (je_prev_timestamp je) ts"
  have b: "uint (je_prev_arrival je) < 2 ^ 55" using assms by (simp add: je_small_def je_inv_def)
  have o: "je_observe je ts t = Some (je_update je ?d ts (us_to_samples t))" by (rule je_observe_eq [OF b True])
  have nn: "0 \<le> uint (je_prev_arrival je)" "0 \<le> uint (us_to_samples t)" by simp_all
  have hi: "uint (je_prev_arrival je) < 36028797018963968" "uint (us_to_samples t) < 36028797018963968"
    using b arrival_small [of t] by simp_all
  have di: "- 2147483648 \<le> distance (je_prev_timestamp je) ts" "distance (je_prev_timestamp je) ts < 2147483648"
    using distance_range [of "je_prev_timestamp je" ts] by simp_all
  have "\<bar>?d\<bar> \<le> 72057594037927936" using nn hi di by linarith
  then have "\<bar>?d\<bar> \<le> 2 ^ 56" by simp
  then have "je_small (je_update je ?d ts (us_to_samples t))"
    using assms je_inv_update [OF _ arrival_small] by (simp add: je_small_def) (simp add: je_update_def)
  then show ?thesis using o by blast
next
  case False
  then show ?thesis using je_small_anchor [OF assms, of ts t] by (simp add: je_observe_def je_reanchor_def)
qed

lemma jitter_publishable:
  assumes "je_small je"
  shows "\<exists>n. i64_of_d (je_jitter_us je) = Some n"
proof -
  have p56: "rnd (2 ^ k) = 2 ^ k" for k :: nat using rnd_pow2 [of "int k"] by (simp add: powi_nat)
  have "d_of_int (je_peak je) \<le> d_of_int (2 ^ 56)" using assms by (intro d_of_int_mono; simp add: je_small_def je_inv_def)
  also have "d_of_int (2 ^ 56) = 2 ^ 56" using p56 [of 56] by (simp add: d_of_int_def)
  finally have j: "0 \<le> je_jitter je" "je_jitter je \<le> 2 ^ 56" using assms by (auto simp: je_small_def je_inv_def)
  have m: "0 \<le> d_mul (je_jitter je) 1000" "d_mul (je_jitter je) 1000 \<le> 2 ^ 66"
  proof -
    show "0 \<le> d_mul (je_jitter je) 1000" unfolding d_mul_def using j by (intro rnd_nonneg) simp
    have "je_jitter je * 1000 \<le> 2 ^ 66" using j by simp
    then show "d_mul (je_jitter je) 1000 \<le> 2 ^ 66" unfolding d_mul_def using rnd_mono_nonneg [of "je_jitter je * 1000" "2 ^ 66"] j p56 [of 66] by simp
  qed
  have u: "0 \<le> je_jitter_us je" "je_jitter_us je \<le> 2 ^ 61"
  proof -
    have "0 \<le> d_mul (je_jitter je) 1000 / 48" "d_mul (je_jitter je) 1000 / 48 \<le> 2 ^ 61" using m by simp_all
    then show "0 \<le> je_jitter_us je" "je_jitter_us je \<le> 2 ^ 61"
      unfolding je_jitter_us_def d_div_def using rnd_nonneg rnd_mono_nonneg [of "d_mul (je_jitter je) 1000 / 48" "2 ^ 61"] p56 [of 61] by simp_all
  qed
  have "\<lfloor>je_jitter_us je\<rfloor> \<le> 2 ^ 61" "0 \<le> \<lfloor>je_jitter_us je\<rfloor>" using u floor_mono [OF u(2)] by simp_all
  then show ?thesis using u(1) by (simp add: i64_of_d_def d_trunc_def i64_of_def in_i64_def)
qed

text \<open>The stream being counted and the sequence numbers of it seen so far.\<close>

type_synonym rx_stream = "(u32 \<times> u32 list) option"

definition stream_step :: "rx_stream \<Rightarrow> media_header \<Rightarrow> rx_stream" where
  "stream_step cur h = Some (mh_stream_id h,
     (case cur of Some (sid, qs) \<Rightarrow> if sid = mh_stream_id h then qs else [] | None \<Rightarrow> []) @ [mh_sequence h])"

definition counts_stream :: "('e, 'd) session \<Rightarrow> rx_stream \<Rightarrow> bool" where
  "counts_stream s cur \<longleftrightarrow> je_small (sn_rx_jitter s) \<and>
     (case cur of
        None \<Rightarrow> \<not> sn_rx_stream_open s
      | Some (sid, qs) \<Rightarrow> sn_rx_stream_open s \<and> sn_rx_stream_id s = sid \<and> sn_rx_seq s = seq_run seq_init qs \<and>
          vw_rx_received (sn_view s) = st_received (sn_rx_seq s) \<and> vw_rx_lost (sn_view s) = seq_lost (sn_rx_seq s) \<and>
          vw_rx_duplicates (sn_view s) = st_duplicates (sn_rx_seq s) \<and> vw_rx_reordered (sn_view s) = st_reordered (sn_rx_seq s))"

text \<open>What receiving leaves alone.\<close>

definition rx_keep :: "('e, 'd) session \<Rightarrow> 'e encoder \<times> 'd jitter_buffer \<times> session_config \<times> 16 word ring \<times> pcm \<times> nat \<times> bool \<times> bool" where
  "rx_keep s = (sn_encoder s, sn_jitter s, sn_config s, sn_tx_pcm s, sn_playout s, sn_playout_used s, sn_running s, sn_transmitting s)"

lemma seq_run_snoc: "seq_run t (qs @ [q]) = snd (seq_observe (seq_run t qs) q)"
  by (simp add: seq_run_def)

lemma seq_run_one: "seq_run t [q] = snd (seq_observe t q)"
  by (simp add: seq_run_def)

lemma observe_media_counts:
  assumes "counts_stream s cur"
  shows "\<exists>s'. observe_media s h t = Some s' \<and> counts_stream s' (stream_step cur h) \<and> rx_keep s' = rx_keep s \<and>
    sn_rx s' = sn_rx s \<and> sn_counts s' = sn_counts s"
proof -
  define s1 where "s1 = (if \<not> sn_rx_stream_open s \<or> mh_stream_id h \<noteq> sn_rx_stream_id s
    then s\<lparr>sn_rx_seq := seq_reset (sn_rx_seq s), sn_rx_jitter := je_reset (sn_rx_jitter s),
           sn_rx_stream_id := mh_stream_id h, sn_rx_stream_open := True\<rparr> else s)"
  have s1: "je_small (sn_rx_jitter s1)" "sn_rx_stream_open s1" "sn_rx_stream_id s1 = mh_stream_id h"
    "rx_keep s1 = rx_keep s" "sn_rx s1 = sn_rx s" "sn_counts s1 = sn_counts s"
    using assms je_small_init by (auto simp: s1_def counts_stream_def je_reset_def rx_keep_def)
  have q: "stream_step cur h = Some (mh_stream_id h, qs @ [mh_sequence h])" "sn_rx_seq s1 = seq_run seq_init qs"
    if "qs = (case cur of Some (sid, qs) \<Rightarrow> if sid = mh_stream_id h then qs else [] | None \<Rightarrow> [])" for qs
    using that assms
    by (auto simp: stream_step_def s1_def counts_stream_def seq_reset_def seq_run_def split: option.splits prod.splits)
  obtain je where je: "(if talkspurt_start h then Some (je_reanchor (sn_rx_jitter s1) (mh_timestamp h) t)
      else je_observe (sn_rx_jitter s1) (mh_timestamp h) t) = Some je" "je_small je"
  proof (cases "talkspurt_start h")
    case True
    then show ?thesis using that je_small_anchor [OF s1(1)] by simp
  next
    case False
    then show ?thesis using that je_small_observe [OF s1(1), of "mh_timestamp h" t] by auto
  qed
  obtain n where n: "i64_of_d (je_jitter_us je) = Some n" using jitter_publishable [OF je(2)] by blast
  define s2 where "s2 = s1\<lparr>sn_rx_seq := snd (seq_observe (sn_rx_seq s1) (mh_sequence h)), sn_rx_jitter := je,
    sn_view := (sn_view s1)\<lparr>vw_rx_received := st_received (snd (seq_observe (sn_rx_seq s1) (mh_sequence h))),
      vw_rx_lost := seq_lost (snd (seq_observe (sn_rx_seq s1) (mh_sequence h))),
      vw_rx_duplicates := st_duplicates (snd (seq_observe (sn_rx_seq s1) (mh_sequence h))),
      vw_rx_reordered := st_reordered (snd (seq_observe (sn_rx_seq s1) (mh_sequence h))), vw_rx_jitter_us := n\<rparr>\<rparr>"
  note run = observe_media_def [of s h t, unfolded Let_def, folded s1_def]
  have "observe_media s h t = Some s2"
    using je(1) n by (cases "talkspurt_start h") (simp_all add: run s2_def)
  moreover have "counts_stream s2 (stream_step cur h)"
    using q [OF refl] je(2) s1 by (simp add: counts_stream_def s2_def seq_run_snoc)
  moreover have "rx_keep s2 = rx_keep s" "sn_rx s2 = sn_rx s" "sn_counts s2 = sn_counts s"
    using s1 by (simp_all add: s2_def rx_keep_def)
  ultimately show ?thesis by blast
qed

section \<open>The ring of datagrams\<close>

text \<open>The packets waiting for the playback callback, oldest first, with their arrival times.\<close>

type_synonym arrival = "media_packet \<times> micros"

definition rx_holds :: "('e, 'd) session \<Rightarrow> arrival list \<Rightarrow> bool" where
  "rx_holds s ps \<longleftrightarrow> (\<exists>q. ring_queue kRxCapacity (sn_rx s) q \<and>
     map (\<lambda>dg. (datagram_packet dg, dg_arrival_us dg)) q = map (\<lambda>(p, t). (Some p, t)) ps)"

lemma rx_holds_push:
  assumes "rx_holds s ps" "datagram_packet dg = Some p" "sn_rx s = r"
  shows "\<exists>ok r'. sr_push r dg = Some (ok, r') \<and> rx_holds (s'\<lparr>sn_rx := r'\<rparr>) (take kRxCapacity (ps @ [(p, dg_arrival_us dg)]))"
proof -
  obtain q where q: "ring_queue kRxCapacity r q"
    "map (\<lambda>dg. (datagram_packet dg, dg_arrival_us dg)) q = map (\<lambda>(p, t). (Some p, t)) ps"
    using assms(1,3) by (auto simp: rx_holds_def)
  obtain r' where r': "sr_push_bulk r [dg] = Some (min (length [dg]) (kRxCapacity - length q), r')"
    "ring_queue kRxCapacity r' (q @ take (kRxCapacity - length q) [dg])"
    using spsc.put_law [OF q(1)] by blast
  have len: "length ps = length q" "length q \<le> kRxCapacity"
    using arg_cong [OF q(2), of length] spsc.bounded [OF q(1)] by simp_all
  then have "map (\<lambda>dg. (datagram_packet dg, dg_arrival_us dg)) (q @ take (kRxCapacity - length q) [dg]) =
      map (\<lambda>(p, t). (Some p, t)) (take kRxCapacity (ps @ [(p, dg_arrival_us dg)]))"
    using q(2) assms(2) by (cases "kRxCapacity - length q") simp_all
  then have "rx_holds (s'\<lparr>sn_rx := r'\<rparr>) (take kRxCapacity (ps @ [(p, dg_arrival_us dg)]))"
    unfolding rx_holds_def using r'(2) by (intro exI [of _ "q @ take (kRxCapacity - length q) [dg]"]) simp
  moreover have "sr_push r dg = Some (min (length [dg]) (kRxCapacity - length q) = 1, r')"
    using ring_single_ops [OF q(1), of dg] r'(1) by simp
  ultimately show ?thesis by blast
qed

lemma rx_holds_cong: "sn_rx s' = sn_rx s \<Longrightarrow> rx_holds s' ps = rx_holds s ps"
  by (simp add: rx_holds_def)

lemma rx_holds_bounded: "rx_holds s ps \<Longrightarrow> length ps \<le> kRxCapacity"
proof -
  assume "rx_holds s ps"
  then obtain q where q: "ring_queue kRxCapacity (sn_rx s) q"
    "map (\<lambda>dg. (datagram_packet dg, dg_arrival_us dg)) q = map (\<lambda>(p, t). (Some p, t)) ps"
    unfolding rx_holds_def by blast
  have "length q = length ps" using arg_cong [OF q(2), of length] by (simp only: length_map)
  then show ?thesis using spsc.bounded [OF q(1)] by simp
qed

section \<open>One datagram\<close>

text \<open>How the loop classifies a datagram.\<close>

definition parses_control :: "bytes \<Rightarrow> bool" where
  "parses_control d = (case parse_control d of Some (Inr _) \<Rightarrow> True | _ \<Rightarrow> False)"

definition rx_reject :: "bytes \<Rightarrow> bool" where
  "rx_reject d = (case peek_type d of
     Some (Inr Audio) \<Rightarrow> parsed_media d = None
   | Some (Inr Ping) \<Rightarrow> \<not> parses_control d
   | Some (Inr Pong) \<Rightarrow> \<not> parses_control d
   | Some (Inr _) \<Rightarrow> False
   | _ \<Rightarrow> True)"

definition rx_unhandled :: "bytes \<Rightarrow> bool" where
  "rx_unhandled d = (case peek_type d of Some (Inr ty) \<Rightarrow> ty \<notin> {Audio, Ping, Pong} | _ \<Rightarrow> False)"

definition is_pong :: "bytes \<Rightarrow> bool" where
  "is_pong d \<longleftrightarrow> peek_type d = Some (Inr Pong)"

lemma peek_total: "\<exists>t. peek_type d = Some t"
proof -
  obtain r where "validate_prefix d = Some r" using validate_prefix_total by blast
  then show ?thesis by (cases r) (simp_all add: peek_type_def)
qed

lemma parse_total: "\<exists>r. parse_media d = Some r" "\<exists>r. parse_control d = Some r"
  using media_class_parse [of d] control_class_parse [of d] by blast+

lemma pong_for_total: "\<exists>r. encode_pong_for packet t2 t3 out = Some r"
proof -
  define b where "b = \<lparr>pb_orig_t1 = ch_send_time_us (cp_header packet), pb_recv_t2 = t2\<rparr>"
  have 1: "encode_pong_body b (replicate kPongBodySize 0) = Some (16, wire_pong_body b @ drop 16 (replicate kPongBodySize 0))"
    by (rule encode_pong_body_Some) (simp add: kPongBodySize_def)
  define h where "h = \<lparr>ch_type = Pong, ch_flags = 0, ch_request_id = ch_request_id (cp_header packet), ch_send_time_us = t3\<rparr>"
  have "\<exists>r. encode_control h body out = Some r" for body
  proof (cases "length out < 16 + length body \<or> 1200 < 16 + length body")
    case True
    then show ?thesis using encode_control_0 [where h = h and body = body and out = out] by (simp add: h_def is_media_def)
  next
    case False
    then have "16 + length body \<le> length out" "16 + length body \<le> 1200" by auto
    then show ?thesis using encode_control_Some [where h = h and body = body and out = out] by (simp add: h_def is_media_def)
  qed
  then show ?thesis using 1 by (simp add: encode_pong_for_def b_def h_def Let_def)
qed

text \<open>The effect on the parts that count and carry media.\<close>

definition rx_counts :: "('e, 'd) session \<Rightarrow> u64 \<times> u64 \<times> u64" where
  "rx_counts s = (nc_datagrams_received (sn_counts s), nc_rejected (sn_counts s), nc_unhandled (sn_counts s))"

definition rx_same :: "('e, 'd) session \<Rightarrow> ('e, 'd) session \<Rightarrow> bool" where
  "rx_same s s' \<longleftrightarrow> rx_keep s' = rx_keep s \<and> sn_rx s' = sn_rx s \<and> (\<forall>cur. counts_stream s' cur = counts_stream s cur) \<and>
     rx_counts s' = rx_counts s"

lemma rx_same_refl [simp]: "rx_same s s"
  by (simp add: rx_same_def)

lemma counts_stream_cong:
  "sn_rx_jitter s' = sn_rx_jitter s \<Longrightarrow> sn_rx_stream_open s' = sn_rx_stream_open s \<Longrightarrow> sn_rx_stream_id s' = sn_rx_stream_id s \<Longrightarrow>
   sn_rx_seq s' = sn_rx_seq s \<Longrightarrow> sn_view s' = sn_view s \<Longrightarrow> counts_stream s' cur = counts_stream s cur"
  by (cases cur) (auto simp: counts_stream_def)

lemma rx_sameI:
  "rx_keep s' = rx_keep s \<Longrightarrow> sn_rx s' = sn_rx s \<Longrightarrow> rx_counts s' = rx_counts s \<Longrightarrow> sn_rx_jitter s' = sn_rx_jitter s \<Longrightarrow>
   sn_rx_stream_open s' = sn_rx_stream_open s \<Longrightarrow> sn_rx_stream_id s' = sn_rx_stream_id s \<Longrightarrow>
   sn_rx_seq s' = sn_rx_seq s \<Longrightarrow> sn_view s' = sn_view s \<Longrightarrow> rx_same s s'"
  unfolding rx_same_def by (intro conjI allI counts_stream_cong)

lemma rx_same_fields [simp]:
  "rx_same s (s\<lparr>sn_prober := p\<rparr>)" "rx_same s (s\<lparr>sn_reads := n\<rparr>)"
  "rx_same s (count_up (\<lambda>c. c\<lparr>nc_pongs_sent := f c\<rparr>) (s\<lparr>sn_reads := n\<rparr>))"
  by (rule rx_sameI; simp add: rx_keep_def rx_counts_def count_up_def)+

lemma answer_ping_same:
  assumes "answer_ping clk send s w packet e t2 = Some (s', w')"
  shows "rx_same s s'"
  using assms by (auto simp: answer_ping_def read_clock_def Let_def split: Option.bind_splits prod.splits if_splits)

lemma answer_ping_total: "\<exists>s' w'. answer_ping clk send s w packet e t2 = Some (s', w')"
proof -
  obtain len out where "encode_pong_for packet t2 (clk (sn_reads s)) (replicate (kControlHeaderSize + kPongBodySize) 0) = Some (len, out)"
    using pong_for_total [of packet t2 "clk (sn_reads s)" "replicate (kControlHeaderSize + kPongBodySize) 0"] by auto
  then show ?thesis by (simp add: answer_ping_def read_clock_def Let_def split: prod.split)
qed

lemma reject_datagram_effect [simp]:
  "rx_keep (reject_datagram s) = rx_keep s" "sn_rx (reject_datagram s) = sn_rx s"
  "counts_stream (reject_datagram s) cur = counts_stream s cur"
  "rx_counts (reject_datagram s) = (fst (rx_counts s), fst (snd (rx_counts s)) + 1, snd (snd (rx_counts s)))"
  by (simp_all add: reject_datagram_def count_up_def rx_keep_def rx_counts_def counts_stream_cong [of "s\<lparr>sn_counts := c\<rparr>" s for c])

lemma receive_audio_effect:
  assumes "counts_stream s cur" "rx_holds s ps" "memcpy_at buf0 0 data = Some buf"
  shows "\<exists>s'. receive_audio s buf data t = Some s' \<and> rx_keep s' = rx_keep s \<and>
    (case parsed_media data of
       None \<Rightarrow> counts_stream s' cur \<and> rx_holds s' ps \<and> rx_counts s' = (fst (rx_counts s), fst (snd (rx_counts s)) + 1, snd (snd (rx_counts s)))
     | Some p \<Rightarrow> counts_stream s' (stream_step cur (mp_header p)) \<and> rx_holds s' (take kRxCapacity (ps @ [(p, t)])) \<and> rx_counts s' = rx_counts s)"
proof (cases "parsed_media data")
  case None
  obtain r where "parse_media data = Some r" using parse_total(1) by blast
  with None have "\<exists>x. parse_media data = Some (Inl x)" by (cases r) (auto simp: parsed_media_def)
  then have "receive_audio s buf data t = Some (reject_datagram s)" by (auto simp: receive_audio_def)
  then show ?thesis using None assms(1,2) by (simp add: rx_holds_cong [of "reject_datagram s" s])
next
  case (Some p)
  obtain s1 where s1: "observe_media s (mp_header p) t = Some s1" "counts_stream s1 (stream_step cur (mp_header p))"
    "rx_keep s1 = rx_keep s" "sn_rx s1 = sn_rx s" "sn_counts s1 = sn_counts s"
    using observe_media_counts [OF assms(1)] by blast
  define dg where "dg = \<lparr>dg_arrival_us = t, dg_header = mp_header p, dg_payload_offset = of_nat (length data - length (mp_payload p)),
    dg_payload_length = of_nat (length (mp_payload p)), dg_bytes = buf\<rparr>"
  have dg: "datagram_packet dg = Some p" "dg_arrival_us dg = t"
    using datagram_packet_parsed [OF Some assms(3)] by (simp_all add: dg_def)
  obtain ok r where r: "sr_push (sn_rx s1) dg = Some (ok, r)" "rx_holds (s1\<lparr>sn_rx := r\<rparr>) (take kRxCapacity (ps @ [(p, t)]))"
    using rx_holds_push [of s1 ps dg p "sn_rx s1" s1] dg assms(2) rx_holds_cong [OF s1(4)] by auto
  have "receive_audio s buf data t = Some (s1\<lparr>sn_rx := r\<rparr>)"
    using Some s1(1) r(1) by (simp add: receive_audio_def parsed_media_iff dg_def)
  moreover have "counts_stream (s1\<lparr>sn_rx := r\<rparr>) (stream_step cur (mp_header p))" using s1(2) counts_stream_cong [of "s1\<lparr>sn_rx := r\<rparr>" s1] by simp
  ultimately show ?thesis using Some r(2) s1(3,5) by (simp add: rx_keep_def rx_counts_def)
qed

text \<open>What one datagram adds: to the stream being counted, to the ring, and to the counters.\<close>

definition stream_after :: "rx_stream \<Rightarrow> bytes \<Rightarrow> rx_stream" where
  "stream_after cur d = (case parsed_media d of Some p \<Rightarrow> stream_step cur (mp_header p) | None \<Rightarrow> cur)"

definition ring_after :: "arrival list \<Rightarrow> micros \<Rightarrow> bytes \<Rightarrow> arrival list" where
  "ring_after ps t d = (case parsed_media d of Some p \<Rightarrow> take kRxCapacity (ps @ [(p, t)]) | None \<Rightarrow> ps)"

definition counts_after :: "u64 \<times> u64 \<times> u64 \<Rightarrow> bytes \<Rightarrow> u64 \<times> u64 \<times> u64" where
  "counts_after = (\<lambda>(received, rejected, unhandled) d.
     (received + 1, rejected + of_bool (rx_reject d), unhandled + of_bool (rx_unhandled d)))"

definition received_one ::
  "rx_stream \<Rightarrow> arrival list \<Rightarrow> ('e, 'd) session \<Rightarrow> micros \<Rightarrow> bytes \<Rightarrow> ('e, 'd) session \<Rightarrow> bool" where
  "received_one cur ps s t d s' \<longleftrightarrow> counts_stream s' (stream_after cur d) \<and> rx_holds s' (ring_after ps t d) \<and>
     rx_keep s' = rx_keep s \<and> rx_counts s' = counts_after (rx_counts s) d"

lemma receive_one_effect:
  assumes "counts_stream s cur" "rx_holds s ps" "length buf = kMaxDatagram" "length data \<le> kMaxDatagram"
  shows "(\<forall>s' w' buf'. receive_one clk send s w buf (e, t, data) = Some (s', w', buf') \<longrightarrow>
      received_one cur ps s t data s' \<and> length buf' = kMaxDatagram) \<and>
    (\<not> is_pong data \<longrightarrow> receive_one clk send s w buf (e, t, data) \<noteq> None)"
proof -
  define s1 where "s1 = count_up (\<lambda>c. c\<lparr>nc_datagrams_received := nc_datagrams_received c + 1\<rparr>) s"
  have s1: "counts_stream s1 cur" "rx_holds s1 ps" "rx_keep s1 = rx_keep s"
    "rx_counts s1 = (fst (rx_counts s) + 1, snd (rx_counts s))"
    using assms(1,2) counts_stream_cong [of s1 s] rx_holds_cong [of s1 s]
    by (simp_all add: s1_def count_up_def rx_keep_def rx_counts_def)
  obtain buf1 where m: "memcpy_at buf 0 data = Some buf1" using assms(3,4) by (simp add: memcpy_at_def)
  have b: "take (length data) buf1 = data" "length buf1 = kMaxDatagram" using receive_view [OF m] assms(3) by simp_all
  obtain ty where ty: "peek_type data = Some ty" using peek_total by blast
  note run = receive_one_def [of clk send s w buf "(e, t, data)", unfolded Let_def prod.case m bind.bind_lunit b(1) ty, folded s1_def]
  have none: "parsed_media data = None" if "ty \<noteq> Inr Audio" using that ty parsed_media_peek [of data] by (cases "parsed_media data") auto
  have same: "received_one cur ps s t data s'" if "rx_same s1 s'" "ty \<noteq> Inr Audio" "\<not> rx_reject data" "\<not> rx_unhandled data" for s'
    using that s1 none rx_holds_cong [of s' s1]
    by (auto simp: received_one_def stream_after_def ring_after_def counts_after_def rx_same_def split: prod.split)
  have rej: "received_one cur ps s t data (reject_datagram s1)" if "ty \<noteq> Inr Audio" "rx_reject data" "\<not> rx_unhandled data"
    using that s1 none rx_holds_cong [of "reject_datagram s1" s1]
    by (auto simp: received_one_def stream_after_def ring_after_def counts_after_def split: prod.split)
  obtain pc where pc: "parse_control data = Some pc" using parse_total(2) by blast
  show ?thesis
  proof (cases ty)
    case (Inl x)
    then have "rx_reject data" "\<not> rx_unhandled data" using ty by (simp_all add: rx_reject_def rx_unhandled_def)
    then show ?thesis using rej Inl run b(2) by simp
  next
    case (Inr k)
    consider "k = Audio" | "k = Ping" | "k = Pong" | "k \<notin> {Audio, Ping, Pong}" by blast
    then show ?thesis
    proof cases
      case 1
      obtain s' where s': "receive_audio s1 buf1 data t = Some s'" "rx_keep s' = rx_keep s1"
        "case parsed_media data of
           None \<Rightarrow> counts_stream s' cur \<and> rx_holds s' ps \<and> rx_counts s' = (fst (rx_counts s1), fst (snd (rx_counts s1)) + 1, snd (snd (rx_counts s1)))
         | Some p \<Rightarrow> counts_stream s' (stream_step cur (mp_header p)) \<and> rx_holds s' (take kRxCapacity (ps @ [(p, t)])) \<and> rx_counts s' = rx_counts s1"
        using receive_audio_effect [OF s1(1,2) m] by blast
      have "rx_reject data \<longleftrightarrow> parsed_media data = None" "\<not> rx_unhandled data"
        using ty Inr 1 by (simp_all add: rx_reject_def rx_unhandled_def)
      then have "received_one cur ps s t data s'"
        using s'(2,3) s1(3,4) by (auto simp: received_one_def stream_after_def ring_after_def counts_after_def split: prod.split option.splits)
      then show ?thesis using run Inr 1 s'(1) b(2) by simp
    next
      case 2
      have u: "\<not> rx_unhandled data" "rx_reject data \<longleftrightarrow> \<not> parses_control data" using ty Inr 2 by (simp_all add: rx_unhandled_def rx_reject_def)
      have ne: "ty \<noteq> Inr Audio" using Inr 2 by simp
      show ?thesis
      proof (cases pc)
        case (Inl x)
        then have "rx_reject data" using u pc by (simp add: parses_control_def)
        then show ?thesis using rej [OF ne _ u(1)] run Inr 2 b(2) pc Inl by (simp add: receive_ping_def)
      next
        case c: (Inr packet)
        then have "\<not> rx_reject data" using u pc by (simp add: parses_control_def)
        moreover obtain s2 w2 where a: "answer_ping clk send s1 w packet e t = Some (s2, w2)"
          using answer_ping_total [of clk send s1 w packet e t] by blast
        ultimately show ?thesis using same [OF answer_ping_same [OF a] ne _ u(1)] run Inr 2 b(2) pc c by (simp add: receive_ping_def)
      qed
    next
      case 3
      have u: "\<not> rx_unhandled data" "rx_reject data \<longleftrightarrow> \<not> parses_control data" "is_pong data"
        using ty Inr 3 by (simp_all add: rx_unhandled_def rx_reject_def is_pong_def)
      have ne: "ty \<noteq> Inr Audio" using Inr 3 by simp
      show ?thesis
      proof (cases pc)
        case (Inl x)
        then have "rx_reject data" using u pc by (simp add: parses_control_def)
        then show ?thesis using rej [OF ne _ u(1)] run Inr 3 b(2) pc Inl by (simp add: receive_pong_def)
      next
        case c: (Inr packet)
        then have "\<not> rx_reject data" using u pc by (simp add: parses_control_def)
        then show ?thesis using same [OF rx_same_fields(1) ne _ u(1)] run Inr 3 b(2) pc c u(3) by (auto simp: receive_pong_def)
      qed
    next
      case 4
      have u: "\<not> rx_reject data" "rx_unhandled data" using ty Inr 4 by (auto simp: rx_unhandled_def rx_reject_def split: ptype.split)
      have ne: "ty \<noteq> Inr Audio" using Inr 4 by simp
      let ?s' = "count_up (\<lambda>c. c\<lparr>nc_unhandled := nc_unhandled c + 1\<rparr>) s1"
      have "counts_stream ?s' cur" "rx_holds ?s' ps" "rx_keep ?s' = rx_keep s1"
        "rx_counts ?s' = (fst (rx_counts s1), fst (snd (rx_counts s1)), snd (snd (rx_counts s1)) + 1)"
        using s1(1,2) counts_stream_cong [of ?s' s1] rx_holds_cong [of ?s' s1]
        by (simp_all add: count_up_def rx_keep_def rx_counts_def)
      then have "received_one cur ps s t data ?s'"
        using s1 none [OF ne] u by (auto simp: received_one_def stream_after_def ring_after_def counts_after_def split: prod.split)
      then show ?thesis using run Inr 4 b(2) by (cases k) simp_all
    qed
  qed
qed

section \<open>All datagrams of a call\<close>

definition arrivals :: "(endpoint \<times> micros \<times> bytes) list \<Rightarrow> arrival list" where
  "arrivals rs = List.map_filter (\<lambda>(_, t, d). map_option (\<lambda>p. (p, t)) (parsed_media d)) rs"

lemma arrivals_simps [simp]:
  "arrivals [] = []"
  "arrivals ((e, t, d) # rs) = (case parsed_media d of Some p \<Rightarrow> (p, t) # arrivals rs | None \<Rightarrow> arrivals rs)"
  by (simp_all add: arrivals_def List.map_filter_def split: option.split)

definition stream_run :: "rx_stream \<Rightarrow> arrival list \<Rightarrow> rx_stream" where
  "stream_run = foldl (\<lambda>cur (p, _). stream_step cur (mp_header p))"

definition fits_buffer :: "(endpoint \<times> micros \<times> bytes) list \<Rightarrow> bool" where
  "fits_buffer rs \<longleftrightarrow> list_all (\<lambda>(_, _, d). length d \<le> kMaxDatagram) rs"

definition received_all ::
  "rx_stream \<Rightarrow> arrival list \<Rightarrow> ('e, 'd) session \<Rightarrow> (endpoint \<times> micros \<times> bytes) list \<Rightarrow> ('e, 'd) session \<Rightarrow> bool" where
  "received_all cur ps s rs s' \<longleftrightarrow> counts_stream s' (stream_run cur (arrivals rs)) \<and>
     rx_holds s' (take kRxCapacity (ps @ arrivals rs)) \<and> rx_keep s' = rx_keep s \<and>
     rx_counts s' = foldl counts_after (rx_counts s) (map (snd \<circ> snd) rs)"

lemma receive_available_effect:
  assumes "counts_stream s cur" "rx_holds s ps" "length buf = kMaxDatagram" "fits_buffer rs"
  shows "(\<forall>s' w'. receive_available clk send s w buf rs = Some (s', w') \<longrightarrow> received_all cur ps s rs s') \<and>
    (list_all (\<lambda>(_, _, d). \<not> is_pong d) rs \<longrightarrow> receive_available clk send s w buf rs \<noteq> None)"
  using assms
proof (induction rs arbitrary: s w buf cur ps)
  case Nil
  have "length ps \<le> kRxCapacity" using rx_holds_bounded [OF Nil.prems(2)] .
  then show ?case using Nil.prems by (simp add: received_all_def stream_run_def)
next
  case (Cons r rs)
  obtain e t d where r: "r = (e, t, d)" by (cases r)
  have d: "length d \<le> kMaxDatagram" "fits_buffer rs" using Cons.prems(4) by (simp_all add: fits_buffer_def r)
  note one = receive_one_effect [OF Cons.prems(1-3) d(1), of clk send w e t]
  show ?case
  proof (cases "receive_one clk send s w buf r")
    case None
    then show ?thesis using one by (simp add: r)
  next
    case (Some x)
    then obtain s1 w1 buf1 where x: "receive_one clk send s w buf (e, t, d) = Some (s1, w1, buf1)" by (cases x) (simp add: r)
    then have s1: "received_one cur ps s t d s1" "length buf1 = kMaxDatagram" using one by blast+
    have s1': "counts_stream s1 (stream_after cur d)" "rx_holds s1 (ring_after ps t d)" using s1(1) by (simp_all add: received_one_def)
    note ih = Cons.IH [OF s1' s1(2) d(2), of w1]
    have "received_all cur ps s (r # rs) s'" if "received_all (stream_after cur d) (ring_after ps t d) s1 rs s'" for s'
    proof -
      have "take kRxCapacity (take kRxCapacity (ps @ [x]) @ ys) = take kRxCapacity (ps @ x # ys)" for x ys
        using take_add [of "length ps + 1"] by (cases "length ps < kRxCapacity") (simp_all add: min_def)
      then show ?thesis using that s1(1)
        by (auto simp: received_all_def received_one_def r stream_after_def ring_after_def stream_run_def split: option.splits)
    qed
    then show ?thesis using ih one x by (auto simp: r)
  qed
qed

section \<open>The playback callback empties the ring\<close>

definition push_all :: "('e, 'd) opus \<Rightarrow> 'd jitter_buffer \<Rightarrow> arrival list \<Rightarrow> 'd jitter_buffer" where
  "push_all lib = foldl (\<lambda>b (p, t). snd (jb_push lib b p t))"

lemma drain_rx_pushes:
  assumes "rx_holds s ps"
  shows "\<exists>r. drain_rx lib s = Some (s\<lparr>sn_rx := r, sn_jitter := push_all lib (sn_jitter s) ps\<rparr>) \<and> ring_queue kRxCapacity r []"
  using assms
proof (induction ps arbitrary: s)
  case Nil
  then have q: "ring_queue kRxCapacity (sn_rx s) []" by (simp add: rx_holds_def)
  obtain r where "sr_pop_bulk (sn_rx s) 1 = Some ([], r)" "ring_queue kRxCapacity r []"
    using spsc.get_law [OF q, of 1] by auto
  then have "sr_pop (sn_rx s) = Some (None, r)" "ring_queue kRxCapacity r []" using ring_single_ops [OF q] by auto
  then show ?case by (intro exI [of _ r]) (subst drain_rx.simps, simp add: push_all_def)
next
  case (Cons pt ps)
  obtain p t where pt: "pt = (p, t)" by (cases pt)
  obtain dg q where q: "ring_queue kRxCapacity (sn_rx s) (dg # q)" "datagram_packet dg = Some p" "dg_arrival_us dg = t"
    "map (\<lambda>dg. (datagram_packet dg, dg_arrival_us dg)) q = map (\<lambda>(p, t). (Some p, t)) ps"
    using Cons.prems by (auto simp: rx_holds_def pt)
  obtain r where "sr_pop_bulk (sn_rx s) 1 = Some ([dg], r)" "ring_queue kRxCapacity r q"
    using spsc.get_law [OF q(1), of 1] by auto
  then have r: "sr_pop (sn_rx s) = Some (Some dg, r)" "ring_queue kRxCapacity r q" using ring_single_ops [OF q(1)] by auto
  define s1 where "s1 = s\<lparr>sn_rx := r, sn_jitter := snd (jb_push lib (sn_jitter s) p t)\<rparr>"
  have "rx_holds s1 ps" using r(2) q(4) by (auto simp: rx_holds_def s1_def)
  from Cons.IH [OF this] obtain r' where "drain_rx lib s1 = Some (s1\<lparr>sn_rx := r', sn_jitter := push_all lib (sn_jitter s1) ps\<rparr>)"
    "ring_queue kRxCapacity r' []" by blast
  moreover have "drain_rx lib s = drain_rx lib s1"
    using r(1) q(2,3) by (subst drain_rx.simps) (simp add: jitter_push_def s1_def)
  ultimately show ?case by (intro exI [of _ r']) (simp add: s1_def pt push_all_def)
qed

section \<open>Serving the device\<close>

text \<open>The staging array and the buffer it is filled from.\<close>

definition playout_ok :: "('e, 'd) opus \<Rightarrow> ('e, 'd) session \<Rightarrow> bool" where
  "playout_ok lib s \<longleftrightarrow> jb_inv lib (sn_jitter s) \<and> length (sn_playout s) = frame_len \<and> sn_playout_used s \<le> frame_len"

lemma pull_frame_ok:
  assumes "opus_contract lib" "playout_ok lib s"
  shows "playout_ok lib (pull_frame lib clk s)" "sn_rx (pull_frame lib clk s) = sn_rx s"
proof -
  let ?now = "clk (Suc (sn_reads s))"
  obtain pulled x b where p: "jb_pull lib (sn_jitter s) (sn_playout s) ?now = (pulled, x, b)" by (cases "jb_pull lib (sn_jitter s) (sn_playout s) ?now")
  have inv: "jb_inv lib (sn_jitter s)" "length (sn_playout s) = frame_len" using assms(2) by (simp_all add: playout_ok_def)
  have "jb_inv lib b \<and> length x = length (sn_playout s)"
  proof (cases "length (sn_playout s) < unat (jb_frame_pcm (sn_jitter s)) \<or> \<not> decoder_is_open (jb_decoder (sn_jitter s))")
    case True
    then show ?thesis using jb_pull_refused [OF True, of lib ?now] p inv by simp
  next
    case False
    then have "tick_ok lib (sn_jitter s) (sn_playout s) (jb_pull lib (sn_jitter s) (sn_playout s) ?now)"
      using assms(1) inv by (intro jb_pull_tick) simp_all
    then show ?thesis using p by (simp add: tick_ok_def)
  qed
  then show "playout_ok lib (pull_frame lib clk s)" "sn_rx (pull_frame lib clk s) = sn_rx s"
    using inv by (simp_all add: pull_frame_def read_clock_def Let_def p playout_ok_def)
qed

text \<open>The staging array is refilled when it is used up.\<close>

definition refill :: "('e, 'd) opus \<Rightarrow> clock_readings \<Rightarrow> ('e, 'd) session \<Rightarrow> ('e, 'd) session" where
  "refill lib clk s = (if sn_playout_used s \<ge> frame_len then pull_frame lib clk s else s)"

lemma refill_ok:
  assumes "opus_contract lib" "playout_ok lib s"
  shows "playout_ok lib (refill lib clk s)" "sn_playout_used (refill lib clk s) < frame_len" "sn_rx (refill lib clk s) = sn_rx s"
  using pull_frame_ok [OF assms] assms(2) frame_len_pos by (simp_all add: refill_def)

definition staged :: "('e, 'd) session \<Rightarrow> nat \<Rightarrow> pcm" where
  "staged s n = take n (drop (sn_playout_used s) (sn_playout s))"

lemma serve_0 [simp]: "serve lib clk s out w 0 = Some (s, out)"
  by (subst serve.simps) simp

lemma serve_step:
  fixes clk :: clock_readings
  assumes "opus_contract lib" "playout_ok lib s" "0 < r" "w + r \<le> length out"
  defines "t \<equiv> refill lib clk s"
  defines "n \<equiv> min r (frame_len - sn_playout_used t)"
  shows "serve lib clk s out w r = serve lib clk (t\<lparr>sn_playout_used := sn_playout_used t + n\<rparr>)
      (take w out @ staged t n @ drop (w + n) out) (w + n) (r - n)"
    "0 < n" "n \<le> r" "length (staged t n) = n" "playout_ok lib (t\<lparr>sn_playout_used := sn_playout_used t + n\<rparr>)"
proof -
  have t: "playout_ok lib t" "sn_playout_used t < frame_len" using refill_ok [OF assms(1,2)] by (simp_all add: t_def)
  then have len: "length (sn_playout t) = frame_len" by (simp add: playout_ok_def)
  show n: "0 < n" "n \<le> r" using assms(3) t(2) by (simp_all add: n_def)
  have b: "sn_playout_used t + n \<le> frame_len" using t(2) by (simp add: n_def)
  then show st: "length (staged t n) = n" using len by (simp add: staged_def)
  show "playout_ok lib (t\<lparr>sn_playout_used := sn_playout_used t + n\<rparr>)" using t(1) b by (simp add: playout_ok_def)
  have c: "copy_out (sn_playout t) (sn_playout_used t) n = Some (staged t n)" using b len by (simp add: copy_out_def staged_def)
  have m: "memcpy_at out w (staged t n) = Some (take w out @ staged t n @ drop (w + n) out)"
    using assms(4) n(2) st by (simp add: memcpy_at_def)
  show "serve lib clk s out w r = serve lib clk (t\<lparr>sn_playout_used := sn_playout_used t + n\<rparr>)
      (take w out @ staged t n @ drop (w + n) out) (w + n) (r - n)"
    using assms(3) c m by (subst serve.simps) (simp add: Let_def t_def [symmetric, unfolded refill_def] n_def)
qed

lemma serve_total:
  assumes "opus_contract lib" "playout_ok lib s" "w + r \<le> length out"
  shows "\<exists>s' x. serve lib clk s out w r = Some (s', take w out @ x @ drop (w + r) out) \<and> length x = r \<and> playout_ok lib s' \<and>
    sn_rx s' = sn_rx s"
  using assms(2,3)
proof (induction r arbitrary: s out w rule: less_induct)
  case (less r)
  show ?case
  proof (cases "r = 0")
    case True
    then show ?thesis using less.prems(1) by simp
  next
    case False
    define t where "t = refill lib clk s"
    define n where "n = min r (frame_len - sn_playout_used t)"
    define s1 where "s1 = t\<lparr>sn_playout_used := sn_playout_used t + n\<rparr>"
    define out1 where "out1 = take w out @ staged t n @ drop (w + n) out"
    from serve_step [OF assms(1) less.prems(1) _ less.prems(2), of clk] False
    have st: "serve lib clk s out w r = serve lib clk s1 out1 (w + n) (r - n)" "0 < n" "n \<le> r" "length (staged t n) = n" "playout_ok lib s1"
      by (simp_all add: t_def n_def s1_def out1_def)
    have rx: "sn_rx s1 = sn_rx s" using refill_ok(3) [OF assms(1) less.prems(1)] by (simp add: s1_def t_def)
    have len: "length out1 = length out" using st(3,4) less.prems(2) by (simp add: out1_def)
    have "r - n < r" using st(2,3) by simp
    from less.IH [OF this st(5), of "w + n" out1] st(3) less.prems(2) len
    obtain s' x where ih: "serve lib clk s1 out1 (w + n) (r - n) = Some (s', take (w + n) out1 @ x @ drop (w + n + (r - n)) out1)"
      "length x = r - n" "playout_ok lib s'" "sn_rx s' = sn_rx s1" by auto
    have "take (w + n) out1 @ x @ drop (w + n + (r - n)) out1 = take w out @ (staged t n @ x) @ drop (w + r) out"
      using st(3,4) less.prems(2) by (simp add: out1_def add.commute)
    then show ?thesis using st ih rx by (intro exI [of _ s'] exI [of _ "staged t n @ x"]) simp
  qed
qed

lemma staged_split: "staged t (a + n) = staged t a @ staged (t\<lparr>sn_playout_used := sn_playout_used t + a\<rparr>) n"
  by (simp add: staged_def take_add add.commute)

text \<open>Serving is a stream: how the device cuts it into requests makes no difference.\<close>

lemma serve_split:
  assumes "opus_contract lib" "playout_ok lib s" "w + a + b \<le> length out"
  shows "serve lib clk s out w (a + b) = do { (s, out) \<leftarrow> serve lib clk s out w a; serve lib clk s out (w + a) b }"
  using assms(2,3)
proof (induction a arbitrary: s out w rule: less_induct)
  case (less a)
  show ?case
  proof (cases "a = 0 \<or> b = 0")
    case True
    then show ?thesis using serve_total [OF assms(1) less.prems(1), of w a out clk] less.prems(2) by (cases "a = 0") auto
  next
    case False
    define t where "t = refill lib clk s"
    define k where "k = frame_len - sn_playout_used t"
    define after where "after n = t\<lparr>sn_playout_used := sn_playout_used t + n\<rparr>" for n
    define put where "put n = take w out @ staged t n @ drop (w + n) out" for n
    have k: "0 < k" using refill_ok(2) [OF assms(1) less.prems(1)] by (simp add: k_def t_def)
    have ab: "serve lib clk s out w (a + b) = serve lib clk (after (min (a + b) k)) (put (min (a + b) k)) (w + min (a + b) k) (a + b - min (a + b) k)"
      "length (staged t (min (a + b) k)) = min (a + b) k"
      using serve_step(1,4) [OF assms(1) less.prems(1), of "a + b" w out clk] False less.prems(2)
      by (simp_all add: t_def k_def after_def put_def add.assoc)
    have aa: "serve lib clk s out w a = serve lib clk (after (min a k)) (put (min a k)) (w + min a k) (a - min a k)"
      "length (staged t (min a k)) = min a k" "playout_ok lib (after (min a k))"
      using serve_step(1,4,5) [OF assms(1) less.prems(1), of a w out clk] False less.prems(2)
      by (simp_all add: t_def k_def after_def put_def)
    show ?thesis
    proof (cases "k \<le> a")
      case True
      then have m: "min (a + b) k = k" "min a k = k" by simp_all
      have "length (put k) = length out" using aa(2) less.prems(2) True by (simp add: put_def m)
      then have "serve lib clk (after k) (put k) (w + k) ((a - k) + b) =
          do { (s, out) \<leftarrow> serve lib clk (after k) (put k) (w + k) (a - k); serve lib clk s out (w + k + (a - k)) b }"
        using less.IH [of "a - k" "after k" "w + k" "put k"] True k less.prems(2) aa(3) by (simp add: m)
      then show ?thesis using ab(1) aa(1) True by (simp add: m)
    next
      case short: False
      then have m: "min a k = a" "min (a + b) k = a + min b (k - a)" by simp_all
      let ?n = "min b (k - a)"
      have len: "length (put a) = length out" using aa(2) less.prems(2) by (simp add: put_def m)
      have used: "sn_playout_used (after a) < frame_len" using short by (simp add: after_def k_def)
      then have rf: "refill lib clk (after a) = after a" by (simp add: refill_def)
      have kk: "frame_len - sn_playout_used (after a) = k - a" by (simp add: after_def k_def)
      have "w + a + b \<le> length (put a)" using less.prems(2) len by simp
      from serve_step(1) [OF assms(1) aa(3) [unfolded m] _ this, of clk] False
      have bb: "serve lib clk (after a) (put a) (w + a) b = serve lib clk
          ((after a)\<lparr>sn_playout_used := sn_playout_used (after a) + ?n\<rparr>)
          (take (w + a) (put a) @ staged (after a) ?n @ drop (w + a + ?n) (put a)) (w + a + ?n) (b - ?n)"
        by (simp add: rf kk)
      have "(after a)\<lparr>sn_playout_used := sn_playout_used (after a) + ?n\<rparr> = after (a + ?n)" by (simp add: after_def)
      moreover have "take (w + a) (put a) @ staged (after a) ?n @ drop (w + a + ?n) (put a) = put (a + ?n)"
        using aa(2) less.prems(2) by (simp add: put_def staged_split after_def m ac_simps)
      moreover have "a + b - (a + ?n) = b - ?n" "w + (a + ?n) = w + a + ?n" by simp_all
      ultimately have "serve lib clk s out w (a + b) = serve lib clk (after a) (put a) (w + a) b"
        using ab(1) bb unfolding m by presburger
      then show ?thesis using aa(1) unfolding m by simp
    qed
  qed
qed

text \<open>A request touches only its own part of the buffer.\<close>

lemma serve_frame:
  assumes "opus_contract lib" "playout_ok lib s" "w + r \<le> length out"
  shows "serve lib clk s (pre @ out @ post) (length pre + w) r = map_option (\<lambda>(s, out). (s, pre @ out @ post)) (serve lib clk s out w r)"
  using assms(2,3)
proof (induction r arbitrary: s out w rule: less_induct)
  case (less r)
  show ?case
  proof (cases "r = 0")
    case False
    define t where "t = refill lib clk s"
    define n where "n = min r (frame_len - sn_playout_used t)"
    define s1 where "s1 = t\<lparr>sn_playout_used := sn_playout_used t + n\<rparr>"
    define out1 where "out1 = take w out @ staged t n @ drop (w + n) out"
    from serve_step [OF assms(1) less.prems(1) _ less.prems(2), of clk] False
    have st: "serve lib clk s out w r = serve lib clk s1 out1 (w + n) (r - n)" "0 < n" "n \<le> r" "length (staged t n) = n" "playout_ok lib s1"
      by (simp_all add: t_def n_def s1_def out1_def)
    have "length pre + w + r \<le> length (pre @ out @ post)" using less.prems(2) by simp
    from serve_step(1) [OF assms(1) less.prems(1) _ this, of clk] False
    have big: "serve lib clk s (pre @ out @ post) (length pre + w) r = serve lib clk s1 (pre @ out1 @ post) (length pre + (w + n)) (r - n)"
      using less.prems(2) st(3) by (simp add: t_def n_def s1_def out1_def add.assoc)
    have "r - n < r" "w + n + (r - n) \<le> length out1" using st(2-4) less.prems(2) by (simp_all add: out1_def)
    from less.IH [OF this(1) st(5) this(2)] show ?thesis using st(1) big by simp
  qed simp
qed

lemma drain_empty:
  assumes "ring_queue kRxCapacity (sn_rx s) []"
  shows "drain_rx lib s = Some s"
proof -
  obtain sent k where "ring_repr (sn_rx s) sent k" "drop k sent = []" using assms unfolding ring_queue_def by metis
  then have "sr_read (sn_rx s) = sr_write (sn_rx s)" by (simp add: ring_repr_def)
  then have "sr_pop (sn_rx s) = Some (None, sn_rx s)" by (simp add: sr_pop_def)
  then show ?thesis by (subst drain_rx.simps) simp
qed

section \<open>Properties\<close>


lemma started_rx:
  assumes "session_start lib 0 s0 c = (True, s)" "\<not> sn_running s0" "rings_ok s0"
  shows "counts_stream s None" "rx_holds s []" "rx_counts s = (0, 0, 0)"
proof -
  from assms(1,2) obtain enc jb where u: "s = session_fresh (s0\<lparr>sn_config := c, sn_encoder := enc, sn_jitter := jb, sn_socket_open := True\<rparr>)"
  proof (cases rule: session_start_cases)
    case (up enc jb)
    then show ?thesis using that by blast
  qed simp_all
  have cap: "sr_capacity (sn_rx s0) = kRxCapacity" using assms(3) by (simp add: rings_ok_def)
  have "ring_queue kRxCapacity (sr_reset (sn_rx s0)) []" using reset_queue [OF capacity_powers(2) [OF cap]] cap by simp
  then show "counts_stream s None" "rx_holds s []" "rx_counts s = (0, 0, 0)"
    using je_small_init by (simp_all add: u session_fresh_def counts_stream_def rx_holds_def rx_counts_def zero_counts_def je_reset_def)
qed

text \<open>
  C18. The receive path loses nothing it has room for and reorders nothing: after any batch of datagrams the playback
  callback pushes into the jitter buffer exactly the packets that parse as media, with their arrival times, in order of
  arrival, up to the capacity of the ring; the payload it reconstructs over the ring slot is the payload the parser found.
\<close>

lemma media_reaches_jitter_buffer:
  assumes "counts_stream s cur" "rx_holds s ps" "length buf = kMaxDatagram" "fits_buffer rs"
    "receive_available clk send s w buf rs = Some (s', w')"
  shows "\<exists>s''. drain_rx lib s' = Some s'' \<and>
    sn_jitter s'' = push_all lib (sn_jitter s) (take kRxCapacity (ps @ arrivals rs)) \<and> rx_holds s'' []"
proof -
  have "received_all cur ps s rs s'" using receive_available_effect [OF assms(1-4), of clk send w] assms(5) by blast
  then have h: "rx_holds s' (take kRxCapacity (ps @ arrivals rs))" "sn_jitter s' = sn_jitter s"
    by (simp_all add: received_all_def rx_keep_def)
  obtain r where "drain_rx lib s' = Some (s'\<lparr>sn_rx := r, sn_jitter := push_all lib (sn_jitter s') (take kRxCapacity (ps @ arrivals rs))\<rparr>)"
    "ring_queue kRxCapacity r []"
    using drain_rx_pushes [OF h(1)] by blast
  then show ?thesis using h(2) by (simp add: rx_holds_def)
qed

lemma count_rejected: "foldl counts_after (a, b, c) ds =
    (a + of_nat (length ds), b + of_nat (length (filter rx_reject ds)), c + of_nat (length (filter rx_unhandled ds)))"
  by (induction ds arbitrary: a b c) (simp_all add: counts_after_def)

text \<open>
  C17. Every datagram is accounted for: after any batch, malformed ones included, the screen shows as many
  datagrams, rejections and unhandled types as the batch had, and for the stream of the last media packet
  exactly the received, lost, duplicate and reordered counts of a tracker that saw the sequence numbers of that stream,
  whatever came between them.
\<close>

lemma receive_accounts:
  assumes "counts_stream s cur" "rx_holds s ps" "length buf = kMaxDatagram" "fits_buffer rs"
    "receive_available clk send s w buf rs = Some (s', w')"
  defines "shown \<equiv> session_snapshot_of s'" and "ds \<equiv> map (snd \<circ> snd) rs"
  shows "nc_datagrams_received (sp_counts shown) = nc_datagrams_received (sn_counts s) + of_nat (length ds) \<and>
    nc_rejected (sp_counts shown) = nc_rejected (sn_counts s) + of_nat (length (filter rx_reject ds)) \<and>
    nc_unhandled (sp_counts shown) = nc_unhandled (sn_counts s) + of_nat (length (filter rx_unhandled ds)) \<and>
    (case stream_run cur (arrivals rs) of
       None \<Rightarrow> arrivals rs = [] \<and> cur = None
     | Some (sid, qs) \<Rightarrow> (let t = seq_run seq_init qs in
         vw_rx_received (sp_view shown) = st_received t \<and> vw_rx_lost (sp_view shown) = seq_lost t \<and>
         vw_rx_duplicates (sp_view shown) = st_duplicates t \<and> vw_rx_reordered (sp_view shown) = st_reordered t))"
proof -
  have r: "received_all cur ps s rs s'" using receive_available_effect [OF assms(1-4), of clk send w] assms(5) by blast
  then have c: "counts_stream s' (stream_run cur (arrivals rs))" and n: "rx_counts s' = foldl counts_after (rx_counts s) ds"
    by (simp_all add: received_all_def ds_def)
  have none: "stream_run cur as = None \<longleftrightarrow> as = [] \<and> cur = None" for cur as
    by (induction as arbitrary: cur) (auto simp: stream_run_def stream_step_def)
  have v: "sp_view shown = sn_view s'" "sp_counts shown = sn_counts s'" by (simp_all add: shown_def session_snapshot_of_def Let_def)
  have "case stream_run cur (arrivals rs) of
       None \<Rightarrow> arrivals rs = [] \<and> cur = None
     | Some (sid, qs) \<Rightarrow> (let t = seq_run seq_init qs in
         vw_rx_received (sn_view s') = st_received t \<and> vw_rx_lost (sn_view s') = seq_lost t \<and>
         vw_rx_duplicates (sn_view s') = st_duplicates t \<and> vw_rx_reordered (sn_view s') = st_reordered t)"
    using c none [of cur "arrivals rs"] by (auto simp: counts_stream_def Let_def split: option.splits prod.splits)
  then show ?thesis using n unfolding v by (simp add: rx_counts_def count_rejected)
qed

end
