(* ===== verification/Session_Link.thy ===== *)
theory Session_Link
  imports Session_Rx
begin

text \<open>
  Two sessions facing each other: what one puts on the wire and the network delivers reaches the jitter
  buffer of the other.
\<close>

section \<open>Consecutive sequence numbers\<close>

definition consecutive :: "u32 \<Rightarrow> nat \<Rightarrow> u32 list" where
  "consecutive q n = map (\<lambda>i. q + of_nat i) [0..<n]"

lemma consecutive_Suc: "consecutive q (Suc n) = consecutive q n @ [q + of_nat n]"
  by (simp add: consecutive_def)

lemma length_consecutive [simp]: "length (consecutive q n) = n"
  by (simp add: consecutive_def)

lemma distance_of_nat: "n < 2 ^ 31 \<Longrightarrow> distance q (q + of_nat n) = int n"
  using distance_add [of q q "int n"] by simp

lemma distance_next: "distance (q + of_nat n) (q + of_nat (Suc n)) = 1"
  using distance_of_nat [of 1 "q + of_nat n"] by (simp add: algebra_simps)

lemma seq_run_consecutive:
  fixes q :: u32
  defines "t n \<equiv> seq_run seq_init (consecutive q (Suc n))"
  shows "st_started (t n) \<and> st_base (t n) = q \<and> st_highest (t n) = q + of_nat n \<and> st_received (t n) = of_nat (Suc n) \<and>
    st_duplicates (t n) = 0 \<and> st_reordered (t n) = 0"
proof (induction n)
  case 0
  show ?case by (simp add: t_def consecutive_def seq_run_def seq_observe_def seq_init_def)
next
  case (Suc n)
  have s: "t (Suc n) = snd (seq_observe (t n) (q + of_nat (Suc n)))"
    unfolding t_def consecutive_Suc [of q "Suc n"] seq_run_snoc ..
  show ?case using Suc distance_next [of q n] by (simp add: s seq_observe_def algebra_simps)
qed

lemma no_loss_in_order:
  assumes "0 < n" "n \<le> 2 ^ 31"
  shows "st_received (seq_run seq_init (consecutive q n)) = of_nat n" "seq_lost (seq_run seq_init (consecutive q n)) = 0"
    "st_duplicates (seq_run seq_init (consecutive q n)) = 0" "st_reordered (seq_run seq_init (consecutive q n)) = 0"
proof -
  obtain m where m: "n = Suc m" using assms(1) by (cases n) auto
  let ?t = "seq_run seq_init (consecutive q n)"
  have t: "st_started ?t" "st_base ?t = q" "st_highest ?t = q + of_nat m" "st_received ?t = of_nat n"
    "st_duplicates ?t = 0" "st_reordered ?t = 0"
    using seq_run_consecutive [of q m] by (simp_all add: m)
  then show "st_received ?t = of_nat n" "st_duplicates ?t = 0" "st_reordered ?t = 0" by simp_all
  have "seq_expected ?t = of_nat (n + 0)"
    using t distance_of_nat [of m q] assms(2) by (simp add: seq_expected_def m)
  from seq_lost_sum [OF this t(4)] assms(2) show "seq_lost ?t = 0" by simp
qed

section \<open>A talkspurt as the receiver counts it\<close>

definition starts :: "media_header list \<Rightarrow> u32 list" where
  "starts hs = map mh_stream_id (filter talkspurt_start hs)"

definition header_run :: "rx_stream \<Rightarrow> media_header list \<Rightarrow> rx_stream" where
  "header_run = foldl stream_step"

lemma stream_run_headers: "stream_run cur as = header_run cur (map (mp_header \<circ> fst) as)"
  by (induction as arbitrary: cur) (auto simp: stream_run_def header_run_def)

text \<open>
  After a run of talkspurts with stream ids of their own the receiver counts the last one, from its first
  sequence number and without a gap.
\<close>

lemma talk_counted:
  assumes "talk_run None hs = Some cur" "distinct (starts hs)" "hs \<noteq> []"
  shows "\<exists>sid q n. header_run None hs = Some (sid, consecutive q (Suc n)) \<and> Suc n \<le> length hs \<and> sid \<in> set (starts hs) \<and>
    (case cur of Some (sid', q', _) \<Rightarrow> sid' = sid \<and> q' = q + of_nat (Suc n) | None \<Rightarrow> True)"
  using assms
proof (induction hs arbitrary: cur rule: rev_induct)
  case (snoc h hs)
  obtain c where c: "talk_run None hs = Some c" "talk_next c h = Some cur"
    using snoc.prems(1) by (auto simp: talk_run_snoc split: Option.bind_splits)
  have d: "distinct (starts hs)" using snoc.prems(2) by (simp add: starts_def split: if_splits)
  have r: "header_run None (hs @ [h]) = stream_step (header_run None hs) h" by (simp add: header_run_def)
  show ?case
  proof (cases "talkspurt_start h")
    case True
    have "mh_stream_id h \<notin> set (starts hs)" using True snoc.prems(2) by (simp add: starts_def)
    moreover have "(\<exists>sid qs. header_run None hs = Some (sid, qs) \<and> sid \<in> set (starts hs)) \<or> header_run None hs = None"
      using snoc.IH [OF c(1) d] by (cases "hs = []") (auto simp: header_run_def)
    ultimately have "stream_step (header_run None hs) h = Some (mh_stream_id h, consecutive (mh_sequence h) (Suc 0))"
      by (auto simp: stream_step_def consecutive_def)
    moreover have "cur = Some (mh_stream_id h, mh_sequence h + 1, mh_timestamp h + kFrameSamples)"
      using c(2) True by (auto simp: talk_next_def talk_after_def split: if_splits)
    ultimately show ?thesis unfolding r using True
      by (intro exI [of _ "mh_stream_id h"] exI [of _ "mh_sequence h"] exI [of _ 0]) (simp add: starts_def)
  next
    case False
    then have c': "c = Some (mh_stream_id h, mh_sequence h, mh_timestamp h)" "cur = talk_after h"
      using c(2) by (auto simp: talk_next_def split: if_splits)
    have "hs \<noteq> []" using c(1) c'(1) by auto
    then obtain sid q n where ih: "header_run None hs = Some (sid, consecutive q (Suc n))" "Suc n \<le> length hs"
      "sid \<in> set (starts hs)" "mh_stream_id h = sid" "mh_sequence h = q + of_nat (Suc n)"
      using snoc.IH [OF c(1) d] by (auto simp: c'(1))
    have "stream_step (header_run None hs) h = Some (sid, consecutive q (Suc (Suc n)))"
      by (simp only: ih stream_step_def option.case prod.case if_P consecutive_Suc [of q "Suc n"])
    moreover have "case cur of Some (sid', q', _) \<Rightarrow> sid' = sid \<and> q' = q + of_nat (Suc (Suc n)) | None \<Rightarrow> True"
      using ih by (simp add: c'(2) talk_after_def algebra_simps)
    moreover have "sid \<in> set (starts (hs @ [h]))" using ih(3) by (auto simp: starts_def)
    ultimately show ?thesis unfolding r using ih(2)
      by (intro exI [of _ sid] exI [of _ q] exI [of _ "Suc n"]) simp
  qed
qed simp

section \<open>A batch of media\<close>

definition all_media :: "(endpoint \<times> micros \<times> bytes) list \<Rightarrow> bool" where
  "all_media rs \<longleftrightarrow> list_all (\<lambda>(_, _, d). parsed_media d \<noteq> None) rs"

lemma all_media_iff: "all_media rs \<longleftrightarrow> (\<forall>d \<in> set (map (snd \<circ> snd) rs). parsed_media d \<noteq> None)"
  by (induction rs) (auto simp: all_media_def)

lemma media_clean:
  assumes "parsed_media d = Some p"
  shows "\<not> rx_reject d" "\<not> rx_unhandled d" "\<not> is_pong d" "length d \<le> kMaxDatagram"
proof -
  have ty: "peek_type d = Some (Inr Audio)" by (rule parsed_media_peek [OF assms])
  then show "\<not> rx_reject d" "\<not> rx_unhandled d" "\<not> is_pong d"
    using assms by (simp_all add: rx_reject_def rx_unhandled_def is_pong_def)
  have p: "media_ok p" "d = wire_media (mp_header p) (mp_payload p)"
    using parse_media_image assms by (simp_all add: parsed_media_iff)
  show "length d \<le> kMaxDatagram"
    using p(1) arg_cong [OF p(2), of length] by (simp add: media_ok_def wire_media_def kMaxPayload_def proto_consts)
qed

lemma all_media_arrivals:
  assumes "all_media rs"
  shows "map (\<lambda>(p, t). (Some p, t)) (arrivals rs) = map (\<lambda>(_, t, d). (parsed_media d, t)) rs"
    "map (Some \<circ> fst) (arrivals rs) = map (parsed_media \<circ> snd \<circ> snd) rs"
    "length (arrivals rs) = length rs" "fits_buffer rs" "list_all (\<lambda>(_, _, d). \<not> is_pong d) rs"
  using assms by (induction rs) (auto simp: all_media_def fits_buffer_def media_clean)

lemma all_media_counts: "all_media rs \<Longrightarrow> foldl counts_after (a, 0, 0) (map (snd \<circ> snd) rs) = (a + of_nat (length rs), 0, 0)"
  by (induction rs arbitrary: a) (auto simp: all_media_def counts_after_def media_clean)

text \<open>A session that has just started takes a batch of media without loss, up to the capacity of its ring.\<close>

lemma started_takes_media:
  assumes "session_start lib 0 s0 c = (True, s)" "\<not> sn_running s0" "rings_ok s0" "all_media rs"
  shows "\<exists>s' w'. receive_available clk send s w (replicate kMaxDatagram 0) rs = Some (s', w') \<and>
    received_all None [] s rs s' \<and> rx_counts s' = (of_nat (length rs), 0, 0)"
proof -
  note st = started_rx [OF assms(1-3)]
  note m = all_media_arrivals [OF assms(4)]
  have l: "length (replicate kMaxDatagram 0 :: bytes) = kMaxDatagram" by simp
  note e = receive_available_effect [OF st(1,2) l m(4), of clk send w]
  then obtain s' w' where r: "receive_available clk send s w (replicate kMaxDatagram 0) rs = Some (s', w')" using m(5) by auto
  then have "received_all None [] s rs s'" using e by blast
  moreover from this have "rx_counts s' = (of_nat (length rs), 0, 0)"
    using all_media_counts [OF assms(4), of 0] st(3) by (simp add: received_all_def)
  ultimately show ?thesis using r by blast
qed

lemma those_Some: "those xs = Some ys \<Longrightarrow> xs = map Some ys"
  by (induction xs arbitrary: ys) (auto split: option.splits)

lemma media_log_parsed:
  assumes "media_log sent = Some ps"
  shows "map (parsed_media \<circ> snd) sent = map Some ps"
  using those_Some [OF assms [unfolded media_log_def]] by (simp add: comp_def case_prod_beta')

section \<open>Properties\<close>



section \<open>A concrete link\<close>

definition demo_net :: "unit net_send" where
  "demo_net = (\<lambda>w e d. (0, w))"

definition demo_events :: "tx_event list" where
  "demo_events = [TxSet True, TxCapture (replicate 960 0), TxFrame]"

definition demo_sends :: "(unit, int) session \<Rightarrow> bytes \<Rightarrow> bool" where
  "demo_sends a d \<longleftrightarrow> (\<exists>a' bufs. tx_run silent_opus (\<lambda>_. 0) (\<lambda>_. 7) (noting demo_net) (a, ((), []), fresh_buffers) demo_events =
     Some (a', ((), [(no_endpoint, d)]), bufs))"

lemma started_idle:
  assumes "session_start lib 0 s0 c = (True, s)" "\<not> sn_running s0" "rings_ok s0"
  shows "\<not> sn_talkspurt_open s" "ring_queue kTxPcmSamples (sn_tx_pcm s) []"
proof -
  from assms(1,2) obtain enc jb where u: "s = session_fresh (s0\<lparr>sn_config := c, sn_encoder := enc, sn_jitter := jb, sn_socket_open := True\<rparr>)"
  proof (cases rule: session_start_cases)
    case (up enc jb)
    then show ?thesis using that by blast
  qed simp_all
  have cap: "sr_capacity (sn_tx_pcm s0) = kTxPcmSamples" using assms(3) by (simp add: rings_ok_def)
  have "ring_queue kTxPcmSamples (sr_reset (sn_tx_pcm s0)) []" using reset_queue [OF capacity_powers(1) [OF cap]] cap by simp
  then show "\<not> sn_talkspurt_open s" "ring_queue kTxPcmSamples (sn_tx_pcm s) []" by (simp_all add: u session_fresh_def)
qed

lemma demo_sends:
  assumes "session_start silent_opus 0 session_init demo_session_config = (True, a)"
  shows "\<exists>d p. demo_sends a d \<and> parsed_media d = Some p \<and> talkspurt_start (mp_header p)"
proof -
  let ?x = "replicate 960 0 :: pcm"
  have nr: "\<not> sn_running (session_init :: (unit, int) session)" by (simp add: session_init_def)
  note inv = started_tx_inv [OF assms nr rings_ok_init]
  have a: "sn_config a = demo_session_config" "\<not> sn_talkspurt_open a" "ring_queue kTxPcmSamples (sn_tx_pcm a) []"
    "session_encoder (sn_encoder a)"
    using started_idle [OF assms nr rings_ok_init] inv(1) [of "()"] inv(2) by (simp_all add: tx_inv_def)
  obtain tx where tx: "sr_push_bulk (sn_tx_pcm a) ?x = Some (min (length ?x) (kTxPcmSamples - 0), tx)"
    "ring_queue kTxPcmSamples tx (take (kTxPcmSamples - 0) ?x)"
    using spsc.put_law [OF a(3), of ?x] by auto
  then have q: "ring_queue kTxPcmSamples tx ?x" by (simp add: kTxPcmSamples_def)
  obtain tx' where tx': "sr_pop_bulk tx frame_len = Some (?x, tx')"
    using spsc.get_law [OF q, of frame_len] by (auto simp: frame_len_960)
  define s1 where "s1 = (set_transmitting a True)\<lparr>sn_tx_pcm := tx\<rparr>"
  define s2 where "s2 = snd (open_talkspurt (\<lambda>_. 7) (s1\<lparr>sn_tx_pcm := tx'\<rparr>))"
  have op: "open_talkspurt (\<lambda>_. 7) (s1\<lparr>sn_tx_pcm := tx'\<rparr>) = (True, s2)"
    using a(2) by (simp add: s2_def s1_def set_transmitting_def open_talkspurt_def)
  have s2: "session_encoder (sn_encoder s2)" "sn_transmitting s2" "sn_config s2 = demo_session_config"
    using open_talkspurt_effect [OF op] a by (simp_all add: s1_def set_transmitting_def)
  have b: "buffers_ok fresh_buffers" by (simp add: fresh_buffers_def buffers_ok_def)
  have len: "length ?x = frame_len" by (simp add: frame_len_960)
  obtain s3 w3 b3 where s3: "send_frame silent_opus (\<lambda>_. 0) (noting demo_net) s2 ((), []) True ?x fresh_buffers = Some (s3, w3, b3)"
    "sent_one (media_header_of s2 kTalkspurtStart) s2 ((), []) s3 w3"
    using send_frame_talks [OF silent_opus_contract silent_reliable s2(1) b len, of "\<lambda>_. 0" demo_net "((), [])" True] by auto
  then obtain d p where d: "snd w3 = [(no_endpoint, d)]" "parsed_media d = Some p" "mp_header p = media_header_of s2 kTalkspurtStart"
    by (auto simp: sent_one_def s2(3) demo_session_config_def default_session_config_def)
  have pop: "sr_pop_bulk (sn_tx_pcm s1) frame_len = Some (?x, tx')" using tx' by (simp add: s1_def)
  have "transmit_frame silent_opus (\<lambda>_. 0) (\<lambda>_. 7) (noting demo_net) s1 ((), []) fresh_buffers = Some (True, s3, w3, b3)"
    unfolding transmit_frame_def pop bind.bind_lunit prod.case Let_def op len using s3(1) s2(2) by simp
  moreover have "frame_len \<le> sr_size (sn_tx_pcm s1)" using queue_size [OF q] by (simp add: s1_def frame_len_960)
  moreover have "on_capture (set_transmitting a True) ?x = Some s1" using tx(1) by (simp add: on_capture_def s1_def set_transmitting_def)
  ultimately have "demo_sends a d"
    using d(1) by (cases w3) (simp add: demo_sends_def demo_events_def)
  then show ?thesis using d(2,3) by auto
qed

lemma demo_link:
  obtains a :: "(unit, int) session" and d p a' bufs where
    "session_start silent_opus 0 session_init demo_session_config = (True, a)"
    "tx_run silent_opus (\<lambda>_. 0) (\<lambda>_. 7) (noting demo_net) (a, ((), []), fresh_buffers) demo_events =
       Some (a', ((), [(no_endpoint, d)]), bufs)"
    "parsed_media d = Some p" "talkspurt_start (mp_header p)" "\<not> sn_running (session_init :: (unit, int) session)"
proof -
  obtain a where a: "session_start silent_opus 0 session_init demo_session_config = (True, a)" using demo_started by blast
  moreover obtain d p where "demo_sends a d" "parsed_media d = Some p" "talkspurt_start (mp_header p)" using demo_sends [OF a] by blast
  ultimately show ?thesis using that unfolding demo_sends_def by (auto simp: session_init_def)
qed



lemma media_reaches_jitter_buffer_witness:
  "\<exists>(s :: (unit, int) session) s' s'' p d. parsed_media d = Some p \<and>
    receive_available (\<lambda>_. 0) demo_net s () (replicate kMaxDatagram 0) [(no_endpoint, 5, d), (no_endpoint, 6, [])] = Some (s', ()) \<and>
    drain_rx silent_opus s' = Some s'' \<and> sn_jitter s'' = push_all silent_opus (sn_jitter s) [(p, 5)]"
proof -
  from demo_link obtain s :: "(unit, int) session" and d p where
    l: "session_start silent_opus 0 session_init demo_session_config = (True, s)" "parsed_media d = Some p"
    "\<not> sn_running (session_init :: (unit, int) session)" by metis
  note st = started_rx [OF l(1,3) rings_ok_init]
  let ?rs = "[(no_endpoint, 5, d), (no_endpoint, 6, [])] :: (endpoint \<times> micros \<times> bytes) list"
  have e: "validate_prefix [] = Some (Inl TooShort)" by (simp add: validate_prefix_def kPrefixSize_def)
  then have n: "parsed_media [] = None" "\<not> is_pong []" by (simp_all add: parsed_media_def parse_media_def is_pong_def peek_type_def)
  have f: "fits_buffer ?rs" "list_all (\<lambda>(_, _, d). \<not> is_pong d) ?rs" using media_clean [OF l(2)] n(2) by (simp_all add: fits_buffer_def)
  have b: "length (replicate kMaxDatagram 0 :: bytes) = kMaxDatagram" by simp
  obtain s' where r: "receive_available (\<lambda>_. 0) demo_net s () (replicate kMaxDatagram 0) ?rs = Some (s', ())"
    using receive_available_effect [OF st(1,2) b f(1), of "\<lambda>_. 0" demo_net "()"] f(2) by auto
  have t: "take kRxCapacity ([] @ arrivals ?rs) = [(p, 5)]" using l(2) n(1) by (simp add: kRxCapacity_def)
  obtain s'' where "drain_rx silent_opus s' = Some s''" "sn_jitter s'' = push_all silent_opus (sn_jitter s) [(p, 5)]"
    using media_reaches_jitter_buffer [OF st(1,2) b f(1) r, of silent_opus] unfolding t by blast
  then show ?thesis using l(2) r by blast
qed

lemma receive_accounts_witness:
  "\<exists>(s :: (unit, int) session) s' d. parsed_media d \<noteq> None \<and>
    receive_available (\<lambda>_. 0) demo_net s () (replicate kMaxDatagram 0) [(no_endpoint, 5, d), (no_endpoint, 6, [])] = Some (s', ()) \<and>
    nc_datagrams_received (sp_counts (session_snapshot_of s')) = 2 \<and> nc_rejected (sp_counts (session_snapshot_of s')) = 1"
proof -
  from demo_link obtain s :: "(unit, int) session" and d p where
    l: "session_start silent_opus 0 session_init demo_session_config = (True, s)" "parsed_media d = Some p"
    "\<not> sn_running (session_init :: (unit, int) session)" by metis
  note st = started_rx [OF l(1,3) rings_ok_init]
  let ?rs = "[(no_endpoint, 5, d), (no_endpoint, 6, [])] :: (endpoint \<times> micros \<times> bytes) list"
  have p: "peek_type [] = Some (Inl TooShort)" by (simp add: peek_type_def validate_prefix_def kPrefixSize_def)
  then have n: "rx_reject []" "\<not> is_pong []" by (simp_all add: rx_reject_def is_pong_def)
  have f: "fits_buffer ?rs" "list_all (\<lambda>(_, _, d). \<not> is_pong d) ?rs" using media_clean [OF l(2)] n(2) by (simp_all add: fits_buffer_def)
  have b: "length (replicate kMaxDatagram 0 :: bytes) = kMaxDatagram" by simp
  obtain s' where r: "receive_available (\<lambda>_. 0) demo_net s () (replicate kMaxDatagram 0) ?rs = Some (s', ())"
    using receive_available_effect [OF st(1,2) b f(1), of "\<lambda>_. 0" demo_net "()"] f(2) by auto
  have z: "nc_datagrams_received (sn_counts s) = 0" "nc_rejected (sn_counts s) = 0" using st(3) by (simp_all add: rx_counts_def)
  have "nc_datagrams_received (sp_counts (session_snapshot_of s')) = 2" "nc_rejected (sp_counts (session_snapshot_of s')) = 1"
    using receive_accounts [OF st(1,2) b f(1) r] media_clean [OF l(2)] n(1) z by simp_all
  then show ?thesis using l(2) r by blast
qed


end
