(* ===== verification/Session_Safe.thy ===== *)
theory Session_Safe
  imports Session_Rx
begin

text \<open>
  The three threads of the session in any interleaving: the steps are the audio callbacks, the button, one
  datagram, one frame and one turn of the prober.
\<close>

section \<open>Events\<close>

datatype session_event =
    EvCapture pcm | EvPlayout pcm | EvButton bool | EvReceive "endpoint \<times> micros \<times> bytes" | EvEnter | EvFrame | EvProbe

type_synonym ('e, 'd, 'w) session_state = "('e, 'd) session \<times> 'w \<times> tx_buffers \<times> bytes"

fun session_step ::
  "('e, 'd) opus \<Rightarrow> clock_readings \<Rightarrow> random_numbers \<Rightarrow> 'w net_send \<Rightarrow> ('e, 'd, 'w) session_state \<Rightarrow> session_event \<Rightarrow>
   ('e, 'd, 'w) session_state option" where
  "session_step lib clk rand send (s, w, bufs, buf) (EvCapture x) = map_option (\<lambda>s. (s, w, bufs, buf)) (on_capture s x)"
| "session_step lib clk rand send (s, w, bufs, buf) (EvPlayout out) =
     map_option (\<lambda>(s, out). (s, w, bufs, buf)) (on_playout lib clk s out)"
| "session_step lib clk rand send (s, w, bufs, buf) (EvButton on) = Some (set_transmitting s on, w, bufs, buf)"
| "session_step lib clk rand send (s, w, bufs, buf) (EvReceive r) =
     map_option (\<lambda>(s, w, buf). (s, w, bufs, buf)) (receive_one clk send s w buf r)"
| "session_step lib clk rand send (s, w, bufs, buf) EvEnter = Some (s, w, fresh_buffers, buf)"
| "session_step lib clk rand send (s, w, bufs, buf) EvFrame =
     (if sr_size (sn_tx_pcm s) \<ge> frame_len
      then map_option (\<lambda>(_, s, w, bufs). (s, w, bufs, buf)) (transmit_frame lib clk rand send s w bufs)
      else Some (s, w, bufs, buf))"
| "session_step lib clk rand send (s, w, bufs, buf) EvProbe =
     map_option (\<lambda>(s, w). (s, w, bufs, buf)) (probe_tick clk send s w)"

fun session_run ::
  "('e, 'd) opus \<Rightarrow> clock_readings \<Rightarrow> random_numbers \<Rightarrow> 'w net_send \<Rightarrow> ('e, 'd, 'w) session_state \<Rightarrow> session_event list \<Rightarrow>
   ('e, 'd, 'w) session_state option" where
  "session_run lib clk rand send st [] = Some st"
| "session_run lib clk rand send st (e # es) =
     do { st \<leftarrow> session_step lib clk rand send st e; session_run lib clk rand send st es }"

text \<open>
  What the network may deliver: anything that fits the buffer, at a time below \<open>2^61\<close>; the times a PONG claims
  are below it too.
\<close>

definition pong_sane :: "bytes \<Rightarrow> bool" where
  "pong_sane d = (case parse_control d of Some (Inr packet) \<Rightarrow> pong_small packet | _ \<Rightarrow> True)"

fun sane_event :: "session_event \<Rightarrow> bool" where
  "sane_event (EvReceive (e, t, d)) \<longleftrightarrow> length d \<le> kMaxDatagram \<and> t < 2 ^ 61 \<and> (is_pong d \<longrightarrow> pong_sane d)"
| "sane_event _ \<longleftrightarrow> True"

section \<open>The invariant\<close>

definition session_ok :: "('e, 'd) opus \<Rightarrow> ('e, 'd) session \<Rightarrow> bool" where
  "session_ok lib s \<longleftrightarrow> (\<exists>q. ring_queue kTxPcmSamples (sn_tx_pcm s) q) \<and> (\<exists>cur. counts_stream s cur) \<and>
     (\<exists>ps. rx_holds s ps) \<and> playout_ok lib s \<and> slots_small (sn_prober s)"

text \<open>The parts the audio callbacks never touch, and the parts they own.\<close>

definition net_side :: "('e, 'd) session \<Rightarrow> jitter_estimator \<times> bool \<times> u32 \<times> seq_tracker \<times> session_view \<times> prober" where
  "net_side s = (sn_rx_jitter s, sn_rx_stream_open s, sn_rx_stream_id s, sn_rx_seq s, sn_view s, sn_prober s)"

definition audio_side :: "('e, 'd) session \<Rightarrow> 16 word ring \<times> rx_datagram ring \<times> 'd jitter_buffer \<times> pcm \<times> nat" where
  "audio_side s = (sn_tx_pcm s, sn_rx s, sn_jitter s, sn_playout s, sn_playout_used s)"

lemma net_side_counts: "net_side s' = net_side s \<Longrightarrow> counts_stream s' cur = counts_stream s cur"
  by (rule counts_stream_cong) (simp_all add: net_side_def)

lemma session_ok_cong:
  assumes "net_side s' = net_side s" "audio_side s' = audio_side s" "session_ok lib s"
  shows "session_ok lib s'"
  using assms net_side_counts [OF assms(1)] rx_holds_cong [of s' s]
  by (simp add: session_ok_def audio_side_def playout_ok_def) (simp add: net_side_def)

section \<open>The audio callbacks\<close>

lemma pull_frame_net: "net_side (pull_frame lib clk s) = net_side s" "sn_tx_pcm (pull_frame lib clk s) = sn_tx_pcm s"
  by (simp_all add: pull_frame_def read_clock_def net_side_def Let_def split: prod.split)

lemma serve_net:
  assumes "serve lib clk s out w r = Some (s', out')"
  shows "net_side s' = net_side s \<and> sn_tx_pcm s' = sn_tx_pcm s"
  using assms
proof (induction lib clk s out w r rule: serve.induct)
  case (1 lib clk s out w r)
  show ?case
  proof (cases "r = 0")
    case False
    let ?s = "if sn_playout_used s \<ge> frame_len then pull_frame lib clk s else s"
    let ?n = "min r (frame_len - sn_playout_used ?s)"
    obtain out1 where o: "Option.bind (copy_out (sn_playout ?s) (sn_playout_used ?s) ?n) (memcpy_at out w) = Some out1"
      "serve lib clk (?s\<lparr>sn_playout_used := sn_playout_used ?s + ?n\<rparr>) out1 (w + ?n) (r - ?n) = Some (s', out')"
      using 1(2) False by (subst (asm) serve.simps) (auto simp: Let_def split: option.splits)
    from 1(1) [OF False refl refl o] show ?thesis
      using pull_frame_net [of lib clk s] by (simp add: net_side_def split: if_splits)
  qed (use 1(2) in simp)
qed

lemma push_all_inv: "opus_contract lib \<Longrightarrow> jb_inv lib b \<Longrightarrow> jb_inv lib (push_all lib b ps)"
  by (induction ps arbitrary: b) (auto simp: push_all_def jb_push_inv(1))

lemma playout_step:
  assumes "opus_contract lib" "session_ok lib s"
  shows "\<exists>s' out'. on_playout lib clk s out = Some (s', out') \<and> session_ok lib s'"
proof -
  obtain q cur ps where ok: "ring_queue kTxPcmSamples (sn_tx_pcm s) q" "counts_stream s cur" "rx_holds s ps" "playout_ok lib s"
    "slots_small (sn_prober s)" using assms(2) unfolding session_ok_def by blast
  obtain r where r: "drain_rx lib s = Some (s\<lparr>sn_rx := r, sn_jitter := push_all lib (sn_jitter s) ps\<rparr>)" "ring_queue kRxCapacity r []"
    using drain_rx_pushes [OF ok(3)] by blast
  define s1 where "s1 = s\<lparr>sn_rx := r, sn_jitter := push_all lib (sn_jitter s) ps\<rparr>"
  have p: "playout_ok lib s1" using ok(4) push_all_inv [OF assms(1)] by (simp add: playout_ok_def s1_def)
  obtain s2 x where x: "serve lib clk s1 out 0 (length out) = Some (s2, x)" "playout_ok lib s2" "sn_rx s2 = r"
    using serve_total [OF assms(1) p, of 0 "length out" out clk] by (auto simp: s1_def)
  have n: "net_side s2 = net_side s" "sn_tx_pcm s2 = sn_tx_pcm s"
    using serve_net [OF x(1)] by (simp_all add: s1_def net_side_def)
  have "rx_holds s2 []" using r(2) x(3) by (simp add: rx_holds_def)
  moreover have "counts_stream s2 cur" using net_side_counts [OF n(1)] ok(2) by simp
  moreover have "slots_small (sn_prober s2)" using n(1) ok(5) by (simp add: net_side_def)
  ultimately have "session_ok lib s2" using x(2) n(2) ok(1) unfolding session_ok_def by auto
  then show ?thesis using r(1) x(1) by (auto simp: on_playout_def s1_def)
qed

lemma capture_step:
  assumes "session_ok lib s"
  shows "\<exists>s'. on_capture s x = Some s' \<and> session_ok lib s'"
proof -
  obtain q where q: "ring_queue kTxPcmSamples (sn_tx_pcm s) q" using assms by (auto simp: session_ok_def)
  obtain tx where tx: "sr_push_bulk (sn_tx_pcm s) x = Some (min (length x) (kTxPcmSamples - length q), tx)"
    "ring_queue kTxPcmSamples tx (q @ take (kTxPcmSamples - length q) x)"
    using spsc.put_law [OF q] by blast
  have "session_ok lib (s\<lparr>sn_tx_pcm := tx\<rparr>)"
    using assms tx(2) net_side_counts [of "s\<lparr>sn_tx_pcm := tx\<rparr>" s] rx_holds_cong [of "s\<lparr>sn_tx_pcm := tx\<rparr>" s]
    by (auto simp: session_ok_def playout_ok_def net_side_def)
  then show ?thesis using tx(1) by (simp add: on_capture_def)
qed

section \<open>The network thread\<close>

lemma observe_media_prober: "observe_media s h t = Some s' \<Longrightarrow> sn_prober s' = sn_prober s"
  by (auto simp: observe_media_def Let_def split: Option.bind_splits if_splits)

lemma answer_ping_prober: "answer_ping clk send s w packet e t = Some (s', w') \<Longrightarrow> sn_prober s' = sn_prober s"
  by (auto simp: answer_ping_def read_clock_def count_up_def Let_def split: Option.bind_splits prod.splits if_splits)

lemma receive_one_prober:
  assumes "receive_one clk send s w buf (e, t, d) = Some (s', w', buf')" "slots_small (sn_prober s)"
  shows "slots_small (sn_prober s')"
proof -
  have "sn_prober s' = sn_prober s \<or> (\<exists>packet. pr_on_pong (sn_prober s) packet t = Some (sn_prober s'))"
    using assms(1)
    by (auto simp: receive_one_def receive_pong_def receive_ping_def receive_audio_def count_up_def reject_datagram_def Let_def
        split: Option.bind_splits sum.splits ptype.splits dest!: observe_media_prober answer_ping_prober)
  then show ?thesis using assms(2) slots_small_keep(2) [OF assms(2)] by auto
qed

lemma receive_pong_defined:
  assumes "is_pong d" "pong_sane d" "slots_small (sn_prober s)" "t < 2 ^ 61" "length buf = kMaxDatagram" "length d \<le> kMaxDatagram"
  shows "receive_one clk send s w buf (e, t, d) \<noteq> None"
proof -
  obtain buf1 where m: "memcpy_at buf 0 d = Some buf1" using assms(5,6) by (simp add: memcpy_at_def)
  obtain pc where pc: "parse_control d = Some pc" using parse_total(2) by blast
  have "receive_pong (count_up (\<lambda>c. c\<lparr>nc_datagrams_received := nc_datagrams_received c + 1\<rparr>) s) d t \<noteq> None"
  proof (cases pc)
    case (Inr packet)
    then have "pong_small packet" using assms(2) pc by (simp add: pong_sane_def)
    from on_pong_defined [OF assms(3) this assms(4)] show ?thesis by (auto simp: receive_pong_def pc Inr count_up_def)
  qed (simp add: receive_pong_def pc)
  then show ?thesis using assms(1) m receive_view(1) [OF m] by (simp add: receive_one_def Let_def is_pong_def)
qed

lemma receive_step:
  assumes "session_ok lib s" "length buf = kMaxDatagram" "sane_event (EvReceive (e, t, d))"
  shows "\<exists>s' w' buf'. receive_one clk send s w buf (e, t, d) = Some (s', w', buf') \<and> session_ok lib s' \<and> length buf' = kMaxDatagram"
proof -
  obtain q cur ps where ok: "ring_queue kTxPcmSamples (sn_tx_pcm s) q" "counts_stream s cur" "rx_holds s ps" "playout_ok lib s"
    "slots_small (sn_prober s)" using assms(1) unfolding session_ok_def by blast
  have d: "length d \<le> kMaxDatagram" "t < 2 ^ 61" "is_pong d \<longrightarrow> pong_sane d" using assms(3) by simp_all
  note one = receive_one_effect [OF ok(2,3) assms(2) d(1), of clk send w e t]
  have "receive_one clk send s w buf (e, t, d) \<noteq> None"
    using one receive_pong_defined [OF _ _ ok(5) d(2) assms(2) d(1), of clk send w e] d(3) by blast
  then obtain s' w' buf' where r: "receive_one clk send s w buf (e, t, d) = Some (s', w', buf')" by auto
  then have o: "received_one cur ps s t d s'" "length buf' = kMaxDatagram" using one by blast+
  then have "counts_stream s' (stream_after cur d)" "rx_holds s' (ring_after ps t d)" "sn_tx_pcm s' = sn_tx_pcm s"
    "sn_jitter s' = sn_jitter s" "sn_playout s' = sn_playout s" "sn_playout_used s' = sn_playout_used s"
    by (simp_all add: received_one_def rx_keep_def)
  then have "session_ok lib s'"
    using ok(1,4) receive_one_prober [OF r ok(5)] unfolding session_ok_def playout_ok_def by auto
  then show ?thesis using r o(2) by blast
qed

lemma transmit_frame_passive:
  assumes "transmit_frame lib clk rand send s w bufs = Some (again, s', w', bufs')"
  shows "snd (tx_passive s') = snd (tx_passive s)"
proof -
  obtain frame tx where pop: "sr_pop_bulk (sn_tx_pcm s) frame_len = Some (frame, tx)"
    using assms by (auto simp: transmit_frame_def split: Option.bind_splits)
  obtain first s1 where op: "open_talkspurt rand (s\<lparr>sn_tx_pcm := tx\<rparr>) = (first, s1)" by fastforce
  have s1: "snd (tx_passive s1) = snd (tx_passive s)" using open_talkspurt_effect [OF op] by (simp add: tx_passive_def)
  have s0: "snd (tx_passive (s\<lparr>sn_tx_pcm := tx\<rparr>)) = snd (tx_passive s)" by (simp add: tx_passive_def)
  show ?thesis
    using assms s1 s0 by (auto simp: transmit_frame_def pop op Let_def split: if_splits
        dest!: end_talkspurt_passive send_frame_passive)
qed

lemma frame_step:
  assumes "session_ok lib s" "frame_len \<le> sr_size (sn_tx_pcm s)"
  shows "\<exists>s' w' bufs'. transmit_frame lib clk rand send s w bufs = Some (True, s', w', bufs') \<and> session_ok lib s'"
proof -
  obtain q where q: "ring_queue kTxPcmSamples (sn_tx_pcm s) q" using assms by (auto simp: session_ok_def)
  then have "frame_len \<le> length q" using assms(2) queue_size [OF q] by simp
  from transmit_frame_total [OF q this, of lib clk rand send w bufs] obtain s' w' bufs' where
    r: "transmit_frame lib clk rand send s w bufs = Some (True, s', w', bufs')" "ring_queue kTxPcmSamples (sn_tx_pcm s') (drop frame_len q)"
    by blast
  have p: "net_side s' = net_side s" "sn_rx s' = sn_rx s" "sn_jitter s' = sn_jitter s" "sn_playout s' = sn_playout s"
    "sn_playout_used s' = sn_playout_used s"
    using transmit_frame_passive [OF r(1)] by (simp_all add: tx_passive_def net_side_def)
  have "session_ok lib s'"
    using assms(1) r(2) p net_side_counts [OF p(1)] rx_holds_cong [OF p(2)]
    by (auto simp: session_ok_def playout_ok_def net_side_def)
  then show ?thesis using r(1) by blast
qed

lemma probe_if_due_effect:
  assumes "slots_small (sn_prober s)" "now < 2 ^ 61"
  shows "\<exists>w' p. probe_if_due send s w now = Some (s\<lparr>sn_prober := p\<rparr>, w') \<and> slots_small p"
proof -
  obtain probe out p where d: "pr_due_probe (sn_prober s) now (replicate kControlHeaderSize 0) = Some (probe, out, p)"
    using due_probe_total [of "sn_prober s" now "replicate kControlHeaderSize 0"] by (metis surj_pair)
  have small: "slots_small p" by (rule slots_small_keep(1) [OF assms(1) d assms(2)])
  obtain err w' where w: "send w (cf_peer (sn_config s)) (take (po_length probe) out) = (err, w')" by fastforce
  show ?thesis
  proof (cases "probe_ready probe \<and> err \<noteq> 0")
    case True
    then have "probe_if_due send s w now = Some (s\<lparr>sn_prober := pr_withdraw p (po_request_id probe)\<rparr>, w')"
      by (simp add: probe_if_due_def d w Let_def)
    then show ?thesis using slots_small_keep(4) [OF small] by blast
  next
    case False
    then have "probe_if_due send s w now = Some (s\<lparr>sn_prober := p\<rparr>, if probe_ready probe then w' else w)"
      by (auto simp: probe_if_due_def d w Let_def)
    then show ?thesis using small by blast
  qed
qed

lemma probe_step:
  assumes "session_ok lib s" "\<forall>n. clk n < 2 ^ 61"
  shows "\<exists>s' w'. probe_tick clk send s w = Some (s', w') \<and> session_ok lib s'"
proof -
  define now where "now = clk (sn_reads s)"
  define s0 where "s0 = s\<lparr>sn_reads := Suc (sn_reads s)\<rparr>"
  have "slots_small (sn_prober s0)" "now < 2 ^ 61" using assms by (simp_all add: session_ok_def s0_def now_def)
  from probe_if_due_effect [OF this, of send w] obtain w' p where
    p: "probe_if_due send s0 w now = Some (s0\<lparr>sn_prober := p\<rparr>, w')" "slots_small p" by blast
  define s' where "s' = publish_probe_stats (s0\<lparr>sn_prober := pr_expire p now\<rparr>) now"
  have "probe_tick clk send s w = Some (s', w')"
    using p(1) by (simp add: probe_tick_def read_clock_def s'_def s0_def now_def)
  moreover have e: "audio_side s' = audio_side s" "sn_prober s' = pr_expire p now" "sn_rx s' = sn_rx s"
    by (simp_all add: s'_def s0_def publish_probe_stats_def audio_side_def Let_def)
  have c: "counts_stream s' cur = counts_stream s cur" for cur
    by (cases cur) (auto simp: s'_def s0_def publish_probe_stats_def counts_stream_def Let_def)
  have "session_ok lib s'"
    using assms(1) slots_small_keep(3) [OF p(2)] rx_holds_cong [OF e(3)] c e
    by (simp add: session_ok_def audio_side_def playout_ok_def)
  ultimately show ?thesis by blast
qed

section \<open>Any interleaving\<close>

lemma session_step_ok:
  assumes "opus_contract lib" "\<forall>n. clk n < 2 ^ 61" "session_ok lib s" "length buf = kMaxDatagram" "sane_event e"
  shows "\<exists>s' w' bufs' buf'. session_step lib clk rand send (s, w, bufs, buf) e = Some (s', w', bufs', buf') \<and>
    session_ok lib s' \<and> length buf' = kMaxDatagram"
proof (cases e)
  case (EvCapture x)
  then show ?thesis using capture_step [OF assms(3), of x] assms(4) by auto
next
  case (EvPlayout out)
  then show ?thesis using playout_step [OF assms(1,3), of clk out] assms(4) by auto
next
  case (EvButton on)
  have "session_ok lib (set_transmitting s on)"
    by (rule session_ok_cong [OF _ _ assms(3)]) (simp_all add: set_transmitting_def net_side_def audio_side_def)
  then show ?thesis using assms(4) EvButton by simp
next
  case (EvReceive r)
  obtain ep t d where r: "r = (ep, t, d)" by (cases r)
  show ?thesis using receive_step [OF assms(3,4), of ep t d clk send w] assms(5) by (auto simp: EvReceive r)
next
  case EvFrame
  then show ?thesis using frame_step [OF assms(3), of clk rand send w bufs] assms(3,4)
    by (cases "frame_len \<le> sr_size (sn_tx_pcm s)") auto
next
  case EvProbe
  then show ?thesis using probe_step [OF assms(3,2), of send w] assms(4) by auto
qed (use assms in simp)

lemma session_run_ok:
  assumes "opus_contract lib" "\<forall>n. clk n < 2 ^ 61" "session_ok lib s" "length buf = kMaxDatagram" "list_all sane_event es"
  shows "\<exists>s' w' bufs' buf'. session_run lib clk rand send (s, w, bufs, buf) es = Some (s', w', bufs', buf') \<and> session_ok lib s'"
  using assms(3-5)
proof (induction es arbitrary: s w bufs buf)
  case (Cons e es)
  obtain s1 w1 bufs1 buf1 where 1: "session_step lib clk rand send (s, w, bufs, buf) e = Some (s1, w1, bufs1, buf1)"
    "session_ok lib s1" "length buf1 = kMaxDatagram"
    using session_step_ok [OF assms(1,2) Cons.prems(1,2), of e rand send w bufs] Cons.prems(3) by auto
  then show ?case using Cons.IH [OF 1(2,3), of w1 bufs1] Cons.prems(3) by simp
qed simp

lemma started_ok:
  assumes "opus_contract lib" "session_start lib 0 s0 c = (True, s)" "\<not> sn_running s0" "rings_ok s0" "playout_ok lib s0"
  shows "session_ok lib (network_start clk s)"
proof -
  from assms(2,3) obtain enc jb where u: "jb_open lib (sn_jitter s0) (jitter_config_of c) = (True, jb)"
    "s = session_fresh (s0\<lparr>sn_config := c, sn_encoder := enc, sn_jitter := jb, sn_socket_open := True\<rparr>)"
  proof (cases rule: session_start_cases)
    case (up enc jb)
    then show ?thesis using that by blast
  qed simp_all
  have j: "jb_inv lib jb" using jb_inv_open [OF assms(1), of "sn_jitter s0" "jitter_config_of c"] assms(5) u(1)
    by (simp add: playout_ok_def)
  define s' where "s' = network_start clk s"
  have e: "sn_tx_pcm s' = sn_tx_pcm s" "sn_rx s' = sn_rx s" "sn_jitter s' = jb" "sn_playout s' = sn_playout s0"
    "sn_playout_used s' = frame_len" "counts_stream s' None = counts_stream s None"
    by (simp_all add: s'_def network_start_def read_clock_def u(2) session_fresh_def counts_stream_def Let_def)
  have cap: "sr_capacity (sn_tx_pcm s0) = kTxPcmSamples" using assms(4) by (simp add: rings_ok_def)
  have "ring_queue kTxPcmSamples (sn_tx_pcm s') []"
    using reset_queue [OF capacity_powers(1) [OF cap]] cap by (simp add: e u(2) session_fresh_def)
  moreover have "counts_stream s' None" "rx_holds s' []" using started_rx(1,2) [OF assms(2-4)] rx_holds_cong [OF e(2)] e(6) by simp_all
  moreover have "playout_ok lib s'" using j e assms(5) by (simp add: playout_ok_def)
  moreover have "slots_small (sn_prober s')"
    unfolding s'_def network_start_def read_clock_def Let_def
    by (simp add: slots_small_def pr_start_def pr_reset_def free_slot_def Let_def)
  ultimately show ?thesis unfolding session_ok_def s'_def by blast
qed

section \<open>Property\<close>



end
