(* ===== verification/Udp_Socket.thy ===== *)
theory Udp_Socket
  imports Endpoint Proto Clock "HOL-Library.Multiset"
begin

text \<open>
  The UDP socket (core/include/radio/udp_socket.hpp, core/src/net/udp_socket.cpp). The system calls are an
  argument: functions on a kernel state with the value they return and the errno they set. The theory proves that
  the class owns its descriptor under every sequence of operations, moves included, that addresses survive the
  conversion to the structures of the socket API, and that the poll helper reports each socket under its own index.
\<close>

section \<open>Addresses of the socket API\<close>

text \<open>\<open>htons\<close> and \<open>ntohs\<close> on a little-endian machine; a \<open>sockaddr_storage\<close> by its family.\<close>

definition htons :: "u16 \<Rightarrow> u16" where "htons p = push_bit 8 p OR drop_bit 8 p"
definition ntohs :: "u16 \<Rightarrow> u16" where "ntohs p = push_bit 8 p OR drop_bit 8 p"

datatype sockaddr =
    Sock_In (sin_port: u16) (sin_addr: bytes)
  | Sock_In6 (sin6_port: u16) (sin6_addr: bytes) (sin6_scope_id: u32)
  | Sock_Other

text \<open>The 16 bytes are copied 4 or 16 at a time; \<open>None\<close> is the return value false.\<close>

definition to_sockaddr :: "endpoint \<Rightarrow> sockaddr option" where
  "to_sockaddr e =
     (case ep_family e of
        V4 \<Rightarrow> Some (Sock_In (htons (ep_port e)) (take 4 (ep_address e)))
      | V6 \<Rightarrow> Some (Sock_In6 (htons (ep_port e)) (take 16 (ep_address e)) (ep_scope_id e))
      | Unspecified \<Rightarrow> None)"

definition from_sockaddr :: "sockaddr \<Rightarrow> endpoint option" where
  "from_sockaddr a =
     (case a of
        Sock_In port addr \<Rightarrow> ep_v4 addr (ntohs port)
      | Sock_In6 port addr scope \<Rightarrow> Some (ep_v6 addr (ntohs port) scope)
      | Sock_Other \<Rightarrow> Some no_endpoint)"

datatype address_family = AF_Inet | AF_Inet6

definition family_to_af :: "family \<Rightarrow> address_family" where
  "family_to_af f = (if f = V6 then AF_Inet6 else AF_Inet)"

section \<open>The system calls\<close>

datatype sock_option = Reuse_Addr int | V6_Only int | Rcv_Buf int | Snd_Buf int

text \<open>
  Each call takes and returns the kernel state. A result is the return value and \<open>errno\<close>; \<open>recvmsg\<close> also gives
  the bytes it stored, the sender and whether \<open>MSG_TRUNC\<close> is set, \<open>poll\<close> which of the descriptors have \<open>POLLIN\<close>.
\<close>

record 'k posix =
  sy_socket :: "'k \<Rightarrow> address_family \<Rightarrow> (int \<times> int) \<times> 'k"
  sy_close :: "'k \<Rightarrow> int \<Rightarrow> 'k"
  sy_setsockopt :: "'k \<Rightarrow> int \<Rightarrow> sock_option \<Rightarrow> (int \<times> int) \<times> 'k"
  sy_getfl :: "'k \<Rightarrow> int \<Rightarrow> (int \<times> int) \<times> 'k"
  sy_setfl :: "'k \<Rightarrow> int \<Rightarrow> int \<Rightarrow> (int \<times> int) \<times> 'k"
  sy_bind :: "'k \<Rightarrow> int \<Rightarrow> sockaddr \<Rightarrow> (int \<times> int) \<times> 'k"
  sy_getsockname :: "'k \<Rightarrow> int \<Rightarrow> (int \<times> sockaddr) \<times> 'k"
  sy_recvmsg :: "'k \<Rightarrow> int \<Rightarrow> nat \<Rightarrow> ((int \<times> int) \<times> bytes \<times> sockaddr \<times> bool) \<times> 'k"
  sy_sendto :: "'k \<Rightarrow> int \<Rightarrow> bytes \<Rightarrow> sockaddr \<Rightarrow> (int \<times> int) \<times> 'k"
  sy_poll :: "'k \<Rightarrow> int list \<Rightarrow> int \<Rightarrow> ((int \<times> int) \<times> bool list) \<times> 'k"
  sy_now_us :: "'k \<Rightarrow> micros \<times> 'k"
  sy_o_nonblock :: int
  sy_eintr :: int
  sy_eagain :: int
  sy_ewouldblock :: int
  sy_ebadf :: int
  sy_einval :: int

text \<open>The loops \<open>do ... while (result < 0 && errno == EINTR)\<close>, which need not end.\<close>

partial_function (option) retry_call :: "int \<Rightarrow> ('k \<Rightarrow> ((int \<times> int) \<times> 'r) \<times> 'k) \<Rightarrow> 'k \<Rightarrow> (((int \<times> int) \<times> 'r) \<times> 'k) option" where
  "retry_call eintr call k =
     (case call k of ((result, x), k') \<Rightarrow>
        if fst result < 0 \<and> snd result = eintr then retry_call eintr call k' else Some ((result, x), k'))"

section \<open>State\<close>

record udp_stats =
  ut_datagrams_sent :: u64
  ut_datagrams_received :: u64
  ut_bytes_sent :: u64
  ut_bytes_received :: u64
  ut_send_errors :: u64
  ut_recv_errors :: u64
  ut_truncated :: u64

definition zero_udp_stats :: udp_stats where
  "zero_udp_stats = \<lparr>ut_datagrams_sent = 0, ut_datagrams_received = 0, ut_bytes_sent = 0, ut_bytes_received = 0,
     ut_send_errors = 0, ut_recv_errors = 0, ut_truncated = 0\<rparr>"

record udp_options =
  uo_family :: family
  uo_port :: u16
  uo_bind_address :: endpoint
  uo_reuse_addr :: bool
  uo_recv_buffer_bytes :: int
  uo_send_buffer_bytes :: int
  uo_dual_stack :: bool

definition default_udp_options :: udp_options where
  "default_udp_options = \<lparr>uo_family = V4, uo_port = 0, uo_bind_address = no_endpoint, uo_reuse_addr = True,
     uo_recv_buffer_bytes = 2 ^ 20, uo_send_buffer_bytes = 2 ^ 20, uo_dual_stack = True\<rparr>"

record udp_socket =
  us_fd :: int
  us_last_error :: int
  us_local :: endpoint
  us_stats :: udp_stats

definition udp_init :: udp_socket where
  "udp_init = \<lparr>us_fd = -1, us_last_error = 0, us_local = no_endpoint, us_stats = zero_udp_stats\<rparr>"

definition udp_is_open :: "udp_socket \<Rightarrow> bool" where "udp_is_open s \<longleftrightarrow> us_fd s \<ge> 0"

definition udp_reset_stats :: "udp_socket \<Rightarrow> udp_socket" where "udp_reset_stats s = s\<lparr>us_stats := zero_udp_stats\<rparr>"

section \<open>Opening and closing\<close>

definition udp_close :: "'k posix \<Rightarrow> 'k \<Rightarrow> udp_socket \<Rightarrow> 'k \<times> udp_socket" where
  "udp_close sys k s = (if us_fd s \<ge> 0 then (sy_close sys k (us_fd s), s\<lparr>us_fd := -1\<rparr>) else (k, s))"

text \<open>The constructor and the assignment that move.\<close>

definition udp_move_new :: "udp_socket \<Rightarrow> udp_socket \<times> udp_socket" where
  "udp_move_new other = (other, other\<lparr>us_fd := -1\<rparr>)"

definition udp_move_assign :: "'k posix \<Rightarrow> 'k \<Rightarrow> udp_socket \<Rightarrow> udp_socket \<Rightarrow> 'k \<times> udp_socket \<times> udp_socket" where
  "udp_move_assign sys k this other =
     (let (k, this) = udp_close sys k this in
      (k, this\<lparr>us_fd := us_fd other, us_last_error := us_last_error other, us_local := us_local other,
               us_stats := us_stats other\<rparr>, other\<lparr>us_fd := -1\<rparr>))"

text \<open>The lambda \<open>fail\<close>, with the errno of the call that failed.\<close>

definition udp_fail :: "'k posix \<Rightarrow> 'k \<Rightarrow> udp_socket \<Rightarrow> int \<Rightarrow> bool \<times> 'k \<times> udp_socket" where
  "udp_fail sys k s errno = (False, udp_close sys k (s\<lparr>us_last_error := errno\<rparr>))"

text \<open>The address to bind to.\<close>

definition bind_target :: "udp_options \<Rightarrow> sockaddr option" where
  "bind_target opts =
     (if ep_valid (uo_bind_address opts) then to_sockaddr (uo_bind_address opts)
      else if family_to_af (uo_family opts) = AF_Inet then Some (Sock_In (htons (uo_port opts)) (replicate 4 0))
      else Some (Sock_In6 (htons (uo_port opts)) (replicate 16 0) 0))"

definition udp_bind :: "'k posix \<Rightarrow> 'k \<Rightarrow> udp_socket \<Rightarrow> udp_options \<Rightarrow> (bool \<times> 'k \<times> udp_socket) option" where
  "udp_bind sys k s opts =
     (case bind_target opts of
        None \<Rightarrow> Some (udp_fail sys k s (sy_einval sys))
      | Some target \<Rightarrow>
          let ((bound, errno), k) = sy_bind sys k (us_fd s) target in
          if bound < 0 then Some (udp_fail sys k s errno)
          else
            let ((named, actual), k) = sy_getsockname sys k (us_fd s) in
            if named = 0
            then map_option (\<lambda>e. (True, k, s\<lparr>us_local := e, us_last_error := 0\<rparr>)) (from_sockaddr actual)
            else Some (True, k, s\<lparr>us_last_error := 0\<rparr>))"

definition udp_nonblocking :: "'k posix \<Rightarrow> 'k \<Rightarrow> udp_socket \<Rightarrow> udp_options \<Rightarrow> (bool \<times> 'k \<times> udp_socket) option" where
  "udp_nonblocking sys k s opts =
     (let ((flags, errno), k) = sy_getfl sys k (us_fd s) in
      if flags < 0 then Some (udp_fail sys k s errno)
      else
        let ((set_fl, errno), k) = sy_setfl sys k (us_fd s) (flags OR sy_o_nonblock sys) in
        if set_fl < 0 then Some (udp_fail sys k s errno) else udp_bind sys k s opts)"

definition udp_buffers :: "'k posix \<Rightarrow> 'k \<Rightarrow> udp_socket \<Rightarrow> udp_options \<Rightarrow> 'k" where
  "udp_buffers sys k s opts =
     (let k = (if uo_recv_buffer_bytes opts > 0 then snd (sy_setsockopt sys k (us_fd s) (Rcv_Buf (uo_recv_buffer_bytes opts))) else k) in
      if uo_send_buffer_bytes opts > 0 then snd (sy_setsockopt sys k (us_fd s) (Snd_Buf (uo_send_buffer_bytes opts))) else k)"

definition udp_v6only :: "'k posix \<Rightarrow> 'k \<Rightarrow> udp_socket \<Rightarrow> udp_options \<Rightarrow> (bool \<times> 'k \<times> udp_socket) option" where
  "udp_v6only sys k s opts =
     (if family_to_af (uo_family opts) = AF_Inet6 then
        let ((ok, errno), k) = sy_setsockopt sys k (us_fd s) (V6_Only (if uo_dual_stack opts then 0 else 1)) in
        if ok < 0 then Some (udp_fail sys k s errno) else udp_nonblocking sys (udp_buffers sys k s opts) s opts
      else udp_nonblocking sys (udp_buffers sys k s opts) s opts)"

definition udp_open :: "'k posix \<Rightarrow> 'k \<Rightarrow> udp_socket \<Rightarrow> udp_options \<Rightarrow> (bool \<times> 'k \<times> udp_socket) option" where
  "udp_open sys k s opts =
     (let (k, s) = udp_close sys k s;
          ((fd, errno), k) = sy_socket sys k (family_to_af (uo_family opts));
          s = s\<lparr>us_fd := fd\<rparr> in
      if fd < 0 then Some (False, k, s\<lparr>us_last_error := errno\<rparr>)
      else if uo_reuse_addr opts then
        let ((ok, errno), k) = sy_setsockopt sys k (us_fd s) (Reuse_Addr 1) in
        if ok < 0 then Some (udp_fail sys k s errno) else udp_v6only sys k s opts
      else udp_v6only sys k s opts)"

section \<open>Receiving and sending\<close>

record recv_result =
  rr_bytes :: nat
  rr_from :: endpoint
  rr_arrival_us :: micros
  rr_error :: int

definition no_recv :: recv_result where
  "no_recv = \<lparr>rr_bytes = 0, rr_from = no_endpoint, rr_arrival_us = 0, rr_error = 0\<rparr>"

definition would_block :: "'k posix \<Rightarrow> recv_result \<Rightarrow> bool" where
  "would_block sys r \<longleftrightarrow> rr_error r = sy_eagain sys \<or> rr_error r = sy_ewouldblock sys"

text \<open>\<open>None\<close> covers a write outside \<open>buffer\<close> and a loop that never ends.\<close>

definition udp_recv_from ::
  "'k posix \<Rightarrow> 'k \<Rightarrow> udp_socket \<Rightarrow> bytes \<Rightarrow> (recv_result \<times> bytes \<times> 'k \<times> udp_socket) option" where
  "udp_recv_from sys k s buffer =
     (if us_fd s < 0 then Some (no_recv\<lparr>rr_error := sy_ebadf sys\<rparr>, buffer, k, s)
      else do {
        (((received, errno), data, from_ad, truncated), k) \<leftarrow>
          retry_call (sy_eintr sys) (\<lambda>k. sy_recvmsg sys k (us_fd s) (length buffer)) k;
        let (arrival, k) = sy_now_us sys k;
        let result = no_recv\<lparr>rr_arrival_us := arrival\<rparr>;
        if received < 0 then
          let result = result\<lparr>rr_error := errno\<rparr> in
          Some (result, buffer, k,
            if would_block sys result then s
            else s\<lparr>us_stats := (us_stats s)\<lparr>ut_recv_errors := ut_recv_errors (us_stats s) + 1\<rparr>\<rparr>)
        else do {
          buffer \<leftarrow> memcpy_at buffer 0 data;
          from_ep \<leftarrow> from_sockaddr from_ad;
          let st = us_stats s;
          let st = (if truncated then st\<lparr>ut_truncated := ut_truncated st + 1\<rparr> else st);
          let st = st\<lparr>ut_datagrams_received := ut_datagrams_received st + 1,
                      ut_bytes_received := ut_bytes_received st + of_int received\<rparr>;
          Some (result\<lparr>rr_bytes := nat received, rr_from := from_ep\<rparr>, buffer, k, s\<lparr>us_stats := st\<rparr>)
        }
      })"

text \<open>The result is the number of bytes and the error.\<close>

definition udp_send_to ::
  "'k posix \<Rightarrow> 'k \<Rightarrow> udp_socket \<Rightarrow> endpoint \<Rightarrow> bytes \<Rightarrow> ((nat \<times> int) \<times> 'k \<times> udp_socket) option" where
  "udp_send_to sys k s to_ep payload =
     (let st = us_stats s; fault = s\<lparr>us_stats := st\<lparr>ut_send_errors := ut_send_errors st + 1\<rparr>\<rparr> in
      if us_fd s < 0 then Some ((0, sy_ebadf sys), k, s)
      else case to_sockaddr to_ep of
        None \<Rightarrow> Some ((0, sy_einval sys), k, fault)
      | Some target \<Rightarrow> do {
          (((sent, errno), _), k) \<leftarrow>
            retry_call (sy_eintr sys) (\<lambda>k. let (r, k) = sy_sendto sys k (us_fd s) payload target in ((r, ()), k)) k;
          Some (if sent < 0 then ((0, errno), k, fault)
                else ((nat sent, 0), k, s\<lparr>us_stats := st\<lparr>ut_datagrams_sent := ut_datagrams_sent st + 1,
                        ut_bytes_sent := ut_bytes_sent st + of_int sent\<rparr>\<rparr>))
        })"

section \<open>Waiting\<close>

definition udp_wait_readable :: "'k posix \<Rightarrow> 'k \<Rightarrow> udp_socket \<Rightarrow> int \<Rightarrow> (bool \<times> 'k \<times> udp_socket) option" where
  "udp_wait_readable sys k s timeout_ms =
     (if us_fd s < 0 then Some (False, k, s)
      else do {
        (((ready, errno), revents), k) \<leftarrow> retry_call (sy_eintr sys) (\<lambda>k. sy_poll sys k [us_fd s] timeout_ms) k;
        if ready < 0 then Some (False, k, s\<lparr>us_last_error := errno\<rparr>)
        else do { pollin \<leftarrow> rd revents 0; Some (ready > 0 \<and> pollin, k, s) }
      })"

definition kMaxPolledSockets :: nat where "kMaxPolledSockets = 16"

text \<open>The descriptors of the sockets that are polled: not null, and open.\<close>

fun polled_fds :: "udp_socket option list \<Rightarrow> int list" where
  "polled_fds [] = []"
| "polled_fds (None # ss) = polled_fds ss"
| "polled_fds (Some s # ss) = (if udp_is_open s then us_fd s # polled_fds ss else polled_fds ss)"

text \<open>The second loop: \<open>i\<close> runs over the sockets, \<open>slot\<close> over the descriptors.\<close>

fun map_back :: "udp_socket option list \<Rightarrow> bool list \<Rightarrow> nat \<Rightarrow> nat \<Rightarrow> bool list \<Rightarrow> int \<Rightarrow> (bool list \<times> int) option" where
  "map_back [] revents i slot readable found = Some (readable, found)"
| "map_back (None # ss) revents i slot readable found = map_back ss revents (i + 1) slot readable found"
| "map_back (Some s # ss) revents i slot readable found =
     (if \<not> udp_is_open s then map_back ss revents (i + 1) slot readable found
      else do {
        pollin \<leftarrow> rd revents slot;
        readable \<leftarrow> (if pollin then wr readable i True else Some readable);
        map_back ss revents (i + 1) (slot + 1) readable (if pollin then found + 1 else found)
      })"

definition wait_any_readable ::
  "'k posix \<Rightarrow> 'k \<Rightarrow> udp_socket option list \<Rightarrow> bool list \<Rightarrow> int \<Rightarrow> (int \<times> bool list \<times> 'k) option" where
  "wait_any_readable sys k sockets readable timeout_ms =
     (if sockets = [] \<or> length readable \<noteq> length sockets \<or> length sockets > kMaxPolledSockets then Some (-1, readable, k)
      else
        let readable = map (\<lambda>_. False) sockets; fds = polled_fds sockets in
        if fds = [] then Some (-1, readable, k)
        else do {
          (((ready, errno), revents), k) \<leftarrow> retry_call (sy_eintr sys) (\<lambda>k. sy_poll sys k fds timeout_ms) k;
          if ready \<le> 0 then Some (ready, readable, k)
          else do { (readable, found) \<leftarrow> map_back sockets revents 0 0 readable 0; Some (found, readable, k) }
        })"

section \<open>Addresses survive\<close>

lemma ntohs_htons [simp]: "ntohs (htons p) = p"
proof (rule bit_word_eqI)
  fix n assume "n < LENGTH(16)"
  then show "bit (ntohs (htons p)) n \<longleftrightarrow> bit p n"
    by (cases "n < 8") (auto simp: ntohs_def htons_def bit_simps dest: bit_imp_le_length)
qed

lemma htons_eq_iff [simp]: "htons p = htons q \<longleftrightarrow> p = q"
  by (metis ntohs_htons)

text \<open>
  C39. The address a datagram is sent to is the address its receiver would report: every valid endpoint the
  constructors build is converted to a socket address and back unchanged; only an endpoint without a family is refused.
\<close>

lemma sockaddr_roundtrip:
  assumes "ep_ok e"
  shows "case to_sockaddr e of Some a \<Rightarrow> from_sockaddr a = Some e | None \<Rightarrow> \<not> ep_valid e"
proof (cases "ep_family e")
  case Unspecified
  then show ?thesis by (simp add: to_sockaddr_def ep_valid_def)
next
  case V4
  have len: "length (ep_address e) = 16" "drop 4 (ep_address e) = replicate 12 0" "ep_scope_id e = 0"
    using assms V4 by (simp_all add: ep_ok_def)
  have "take 4 (ep_address e) @ replicate 12 0 = ep_address e" using len(2) append_take_drop_id [of 4 "ep_address e"] by simp
  then show ?thesis using V4 len
    by (simp add: to_sockaddr_def from_sockaddr_def ep_v4_def no_endpoint_def memcpy_at_def kV4Bytes_def)
next
  case V6
  then show ?thesis using assms by (simp add: to_sockaddr_def from_sockaddr_def ep_v6_def no_endpoint_def ep_ok_def)
qed

lemma sockaddr_roundtrip_witness:
  "to_sockaddr (ep_v6 (replicate 16 1) 0x1234 7) = Some (Sock_In6 0x3412 (replicate 16 1) 7) \<and>
   from_sockaddr (Sock_In6 0x3412 (replicate 16 1) 7) = Some (ep_v6 (replicate 16 1) 0x1234 7)"
proof -
  have ok: "ep_ok (ep_v6 (replicate 16 1) 0x1234 7)" by (simp add: ep_ok_def ep_v6_def no_endpoint_def)
  have t: "to_sockaddr (ep_v6 (replicate 16 1) 0x1234 7) = Some (Sock_In6 0x3412 (replicate 16 1) 7)"
    by (simp add: to_sockaddr_def ep_v6_def no_endpoint_def htons_def)
  from sockaddr_roundtrip [OF ok] show ?thesis by (simp add: t)
qed

section \<open>The descriptor\<close>

definition held :: "udp_socket \<Rightarrow> int multiset" where
  "held s = (if us_fd s \<ge> 0 then {#us_fd s#} else {#})"

text \<open>
  What POSIX says of the descriptors a process has open, \<open>opened k\<close>: \<open>socket\<close> returns one that was not open,
  or a negative number; \<open>close\<close> removes its argument; no other call opens or closes one.
\<close>

definition fd_contract :: "'k posix \<Rightarrow> ('k \<Rightarrow> int set) \<Rightarrow> bool" where
  "fd_contract sys opened \<longleftrightarrow>
     (\<forall>k af. case sy_socket sys k af of ((fd, e), k') \<Rightarrow>
        if fd \<ge> 0 then fd \<notin> opened k \<and> opened k' = insert fd (opened k) else opened k' = opened k) \<and>
     (\<forall>k fd. opened (sy_close sys k fd) = opened k - {fd}) \<and>
     (\<forall>k fd opt. opened (snd (sy_setsockopt sys k fd opt)) = opened k) \<and>
     (\<forall>k fd. opened (snd (sy_getfl sys k fd)) = opened k) \<and> (\<forall>k fd fl. opened (snd (sy_setfl sys k fd fl)) = opened k) \<and>
     (\<forall>k fd a. opened (snd (sy_bind sys k fd a)) = opened k) \<and> (\<forall>k fd. opened (snd (sy_getsockname sys k fd)) = opened k) \<and>
     (\<forall>k fd n. opened (snd (sy_recvmsg sys k fd n)) = opened k) \<and> (\<forall>k fd d a. opened (snd (sy_sendto sys k fd d a)) = opened k) \<and>
     (\<forall>k fds t. opened (snd (sy_poll sys k fds t)) = opened k) \<and> (\<forall>k. opened (snd (sy_now_us sys k)) = opened k)"

lemma contract_calls:
  assumes "fd_contract sys opened"
  shows "opened (sy_close sys k fd) = opened k - {fd}" "opened (snd (sy_setsockopt sys k fd opt)) = opened k"
    "opened (snd (sy_getfl sys k fd)) = opened k" "opened (snd (sy_setfl sys k fd fl)) = opened k"
    "opened (snd (sy_bind sys k fd a)) = opened k" "opened (snd (sy_getsockname sys k fd)) = opened k"
    "opened (snd (sy_recvmsg sys k fd n)) = opened k" "opened (snd (sy_sendto sys k fd d a)) = opened k"
    "opened (snd (sy_poll sys k fds t)) = opened k" "opened (snd (sy_now_us sys k)) = opened k"
  using assms by (simp_all add: fd_contract_def)

lemma contract_socket:
  assumes "fd_contract sys opened" "sy_socket sys k af = ((fd, e), k')"
  shows "if fd \<ge> 0 then fd \<notin> opened k \<and> opened k' = insert fd (opened k) else opened k' = opened k"
proof -
  have "\<forall>k af. case sy_socket sys k af of ((fd, e), k') \<Rightarrow>
      if fd \<ge> 0 then fd \<notin> opened k \<and> opened k' = insert fd (opened k) else opened k' = opened k"
    using assms(1) unfolding fd_contract_def by (elim conjE)
  from this [rule_format, of k af] show ?thesis by (simp only: assms(2) prod.case)
qed

text \<open>What an operation opens and closes is what its socket gains and loses.\<close>

definition transfers :: "('k \<Rightarrow> int set) \<Rightarrow> 'k \<Rightarrow> udp_socket \<Rightarrow> 'k \<Rightarrow> udp_socket \<Rightarrow> bool" where
  "transfers opened k s k' s' \<longleftrightarrow> (\<forall>x. of_bool (x \<in> opened k') + count (held s) x = of_bool (x \<in> opened k) + count (held s') x)"

lemma transfersD:
  "transfers opened k s k' s' \<Longrightarrow> of_bool (x \<in> opened k') + count (held s) x = (of_bool (x \<in> opened k) + count (held s') x :: nat)"
  by (simp add: transfers_def)

lemma transfers_same: "opened k' = opened k \<Longrightarrow> us_fd s' = us_fd s \<Longrightarrow> transfers opened k s k' s'"
  by (simp add: transfers_def held_def)

lemma transfers_trans: "transfers opened k s k1 s1 \<Longrightarrow> transfers opened k1 s1 k2 s2 \<Longrightarrow> transfers opened k s k2 s2"
  unfolding transfers_def
proof (intro allI)
  fix x
  assume a: "\<forall>x. of_bool (x \<in> opened k1) + count (held s) x = (of_bool (x \<in> opened k) + count (held s1) x :: nat)"
    "\<forall>x. of_bool (x \<in> opened k2) + count (held s1) x = (of_bool (x \<in> opened k1) + count (held s2) x :: nat)"
  from a(1) [rule_format, of x] a(2) [rule_format, of x]
  show "of_bool (x \<in> opened k2) + count (held s) x = (of_bool (x \<in> opened k) + count (held s2) x :: nat)" by linarith
qed

definition holding :: "('k \<Rightarrow> int set) \<Rightarrow> 'k \<Rightarrow> udp_socket \<Rightarrow> bool" where
  "holding opened k s \<longleftrightarrow> us_fd s \<ge> 0 \<longrightarrow> us_fd s \<in> opened k"

lemma close_transfers:
  assumes "fd_contract sys opened" "holding opened k s" "udp_close sys k s = (k', s')"
  shows "transfers opened k s k' s' \<and> us_fd s' < 0 \<and> us_last_error s' = us_last_error s"
proof -
  show ?thesis using assms(2,3) contract_calls(1) [OF assms(1)] by (auto simp: udp_close_def transfers_def held_def holding_def split: if_splits)
qed

lemma fail_transfers:
  assumes "fd_contract sys opened" "holding opened k s" "udp_fail sys k s e = (ok, k', s')"
  shows "transfers opened k s k' s' \<and> \<not> ok \<and> us_fd s' < 0 \<and> us_last_error s' = e"
proof -
  obtain k1 s1 where c: "udp_close sys k (s\<lparr>us_last_error := e\<rparr>) = (k1, s1)" by fastforce
  have "holding opened k (s\<lparr>us_last_error := e\<rparr>)" using assms(2) by (simp add: holding_def)
  note cl = close_transfers [OF assms(1) this c]
  moreover have "k' = k1" "s' = s1" "\<not> ok" using assms(3) c by (simp_all add: udp_fail_def)
  moreover have "held (s\<lparr>us_last_error := e\<rparr>) = held s" by (simp add: held_def)
  ultimately show ?thesis by (simp add: transfers_def)
qed

text \<open>The outcome of a stage of \<open>open\<close>.\<close>

definition open_outcome :: "('k \<Rightarrow> int set) \<Rightarrow> 'k \<Rightarrow> udp_socket \<Rightarrow> bool \<times> 'k \<times> udp_socket \<Rightarrow> bool" where
  "open_outcome opened k s = (\<lambda>(ok, k', s'). transfers opened k s k' s' \<and> (ok \<longleftrightarrow> us_fd s' \<ge> 0) \<and> (ok \<longrightarrow> us_last_error s' = 0))"

lemma outcome_fail:
  assumes "fd_contract sys opened" "holding opened k1 s" "opened k1 = opened k"
  shows "open_outcome opened k s (udp_fail sys k1 s e)"
proof -
  obtain ok k' s' where f: "udp_fail sys k1 s e = (ok, k', s')" by (metis surj_pair)
  from fail_transfers [OF assms(1,2) f] assms(3) show ?thesis by (simp add: f open_outcome_def transfers_def)
qed

lemma outcome_later: "open_outcome opened k1 s r \<Longrightarrow> opened k1 = opened k \<Longrightarrow> open_outcome opened k s r"
  by (cases r) (simp add: open_outcome_def transfers_def)

lemma bind_opens:
  assumes "fd_contract sys opened" "us_fd s \<ge> 0" "us_fd s \<in> opened k" "udp_bind sys k s opts = Some r"
  shows "open_outcome opened k s r"
proof (cases "bind_target opts")
  case None
  then show ?thesis using assms outcome_fail [OF assms(1), of k s k] by (auto simp: udp_bind_def holding_def)
next
  case (Some target)
  obtain b e k1 where b: "sy_bind sys k (us_fd s) target = ((b, e), k1)" by (metis surj_pair)
  obtain nm a k2 where n: "sy_getsockname sys k1 (us_fd s) = ((nm, a), k2)" by (metis surj_pair)
  have o: "opened k1 = opened k" "opened k2 = opened k"
    using contract_calls(5) [OF assms(1), of k "us_fd s" target] contract_calls(6) [OF assms(1), of k1 "us_fd s"] by (simp_all add: b n)
  show ?thesis
  proof (cases "b < 0")
    case True
    then have "r = udp_fail sys k1 s e" using assms(4) Some by (simp add: udp_bind_def b)
    then show ?thesis using outcome_fail [OF assms(1) _ o(1)] assms(3) o(1) by (simp add: holding_def)
  next
    case False
    then obtain l where "r = (True, k2, s\<lparr>us_local := l, us_last_error := 0\<rparr>) \<or> r = (True, k2, s\<lparr>us_last_error := 0\<rparr>)"
      using assms(4) Some by (auto simp: udp_bind_def b n split: if_splits)
    then show ?thesis using assms(2) o(2) transfers_same [of opened k2 k] by (elim disjE) (simp_all add: open_outcome_def)
  qed
qed

lemma nonblocking_opens:
  assumes "fd_contract sys opened" "us_fd s \<ge> 0" "us_fd s \<in> opened k" "udp_nonblocking sys k s opts = Some r"
  shows "open_outcome opened k s r"
proof -
  obtain fl e k1 where g: "sy_getfl sys k (us_fd s) = ((fl, e), k1)" by (metis surj_pair)
  obtain b e' k2 where b: "sy_setfl sys k1 (us_fd s) (fl OR sy_o_nonblock sys) = ((b, e'), k2)" by (metis surj_pair)
  have o: "opened k1 = opened k" "opened k2 = opened k"
    using contract_calls(3) [OF assms(1), of k "us_fd s"] contract_calls(4) [OF assms(1), of k1 "us_fd s" "fl OR sy_o_nonblock sys"]
    by (simp_all add: g b)
  have h: "holding opened k1 s" "holding opened k2 s" using assms(3) o by (simp_all add: holding_def)
  consider "fl < 0" | "fl \<ge> 0" "b < 0" | "fl \<ge> 0" "b \<ge> 0" by linarith
  then show ?thesis
  proof cases
    case 1
    then show ?thesis using assms(4) outcome_fail [OF assms(1) h(1) o(1)] by (auto simp: udp_nonblocking_def g)
  next
    case 2
    then show ?thesis using assms(4) outcome_fail [OF assms(1) h(2) o(2)] by (auto simp: udp_nonblocking_def g b)
  next
    case 3
    then have "udp_bind sys k2 s opts = Some r" using assms(4) by (simp add: udp_nonblocking_def g b)
    from bind_opens [OF assms(1,2) _ this] assms(3) o(2) show ?thesis by (auto intro: outcome_later)
  qed
qed

lemma buffers_open:
  assumes "fd_contract sys opened"
  shows "opened (udp_buffers sys k s opts) = opened k"
  by (simp add: udp_buffers_def Let_def contract_calls(2) [OF assms])

lemma v6only_opens:
  assumes "fd_contract sys opened" "us_fd s \<ge> 0" "us_fd s \<in> opened k" "udp_v6only sys k s opts = Some r"
  shows "open_outcome opened k s r"
proof -
  let ?opt = "V6_Only (if uo_dual_stack opts then 0 else 1)"
  obtain b e k1 where b: "sy_setsockopt sys k (us_fd s) ?opt = ((b, e), k1)" by (metis surj_pair)
  have o: "opened k1 = opened k" using contract_calls(2) [OF assms(1), of k "us_fd s" ?opt] by (simp add: b)
  have go: "open_outcome opened k s r" if "udp_nonblocking sys (udp_buffers sys k2 s opts) s opts = Some r" "opened k2 = opened k" for k2
    using nonblocking_opens [OF assms(1,2) _ that(1)] assms(3) that(2) buffers_open [OF assms(1), of k2 s opts]
    by (auto intro: outcome_later)
  show ?thesis
  proof (cases "family_to_af (uo_family opts) = AF_Inet6")
    case True
    show ?thesis
    proof (cases "b < 0")
      case neg: True
      then have "r = udp_fail sys k1 s e" using assms(4) True b by (simp add: udp_v6only_def)
      then show ?thesis using outcome_fail [OF assms(1) _ o] assms(3) o by (simp add: holding_def)
    next
      case False
      then show ?thesis using assms(4) True b o by (intro go [of k1]) (simp_all add: udp_v6only_def)
    qed
  next
    case False
    then show ?thesis using assms(4) by (intro go [of k]) (simp_all add: udp_v6only_def)
  qed
qed

lemma open_opens:
  assumes "fd_contract sys opened" "holding opened k s" "udp_open sys k s opts = Some r"
  shows "open_outcome opened k s r"
proof -
  obtain k1 s1 where c: "udp_close sys k s = (k1, s1)" by fastforce
  note cl = close_transfers [OF assms(1,2) c]
  obtain fd e k2 where f: "sy_socket sys k1 (family_to_af (uo_family opts)) = ((fd, e), k2)" by (metis surj_pair)
  define s2 where "s2 = s1\<lparr>us_fd := fd\<rparr>"
  have o: "fd \<ge> 0 \<Longrightarrow> fd \<notin> opened k1 \<and> opened k2 = insert fd (opened k1)" "fd < 0 \<Longrightarrow> opened k2 = opened k1"
    using contract_socket [OF assms(1) f] by (simp_all split: if_splits)
  have t2: "transfers opened k s k2 s2"
  proof (rule transfers_trans [of opened k s k1 s1])
    show "transfers opened k s k1 s1" using cl by blast
    show "transfers opened k1 s1 k2 s2" using cl o by (cases "fd \<ge> 0") (auto simp: transfers_def held_def s2_def)
  qed
  have fin: "open_outcome opened k s r'" if "open_outcome opened k2 s2 r'" for r'
    using that transfers_trans [OF t2] by (cases r') (auto simp: open_outcome_def)
  obtain b e' k3 where b: "sy_setsockopt sys k2 (us_fd s2) (Reuse_Addr 1) = ((b, e'), k3)" by (metis surj_pair)
  have o3: "opened k3 = opened k2" using contract_calls(2) [OF assms(1), of k2 "us_fd s2" "Reuse_Addr 1"] by (simp add: b)
  show ?thesis
  proof (cases "fd < 0")
    case True
    then have "r = (False, k2, s2\<lparr>us_last_error := e\<rparr>)" using assms(3) c f by (simp add: udp_open_def s2_def)
    then show ?thesis using True t2 by (auto simp: open_outcome_def transfers_def held_def s2_def)
  next
    case False
    then have fd: "us_fd s2 \<ge> 0" "us_fd s2 \<in> opened k2" using o(1) by (simp_all add: s2_def)
    note run = assms(3) [unfolded udp_open_def c f Let_def prod.case if_not_P [OF False], folded s2_def]
    show ?thesis
    proof (cases "uo_reuse_addr opts")
      case True
      show ?thesis
      proof (cases "b < 0")
        case neg: True
        then have "r = udp_fail sys k3 s2 e'" using run True b by simp
        then show ?thesis using outcome_fail [OF assms(1) _ o3] fd(2) o3 by (auto simp: holding_def intro: fin)
      next
        case False
        then have "udp_v6only sys k3 s2 opts = Some r" using run True b by simp
        from v6only_opens [OF assms(1) fd(1) _ this] fd(2) o3 show ?thesis by (auto intro: fin outcome_later)
      qed
    next
      case False
      then have "udp_v6only sys k2 s2 opts = Some r" using run by simp
      from v6only_opens [OF assms(1) fd this] show ?thesis by (rule fin)
    qed
  qed
qed

section \<open>Calls that were interrupted\<close>

lemma retry_keeps:
  assumes "retry_call eintr call k = Some (r, k')" "\<And>k. opened (snd (call k)) = opened k"
  shows "opened k' = opened k"
proof -
  have "opened (snd rk) = opened k" if "retry_call eintr call k = Some rk" for rk
  proof (rule retry_call.raw_induct [where P = "\<lambda>e c k rk. c = call \<longrightarrow> opened (snd rk) = opened k", OF _ that, THEN mp])
    fix f :: "int \<Rightarrow> _" and e c k y
    assume ih: "\<And>e c k y. f e c k = Some y \<Longrightarrow> c = call \<longrightarrow> opened (snd y) = opened k"
      and run: "(case c k of ((result, x), k') \<Rightarrow>
        if fst result < 0 \<and> snd result = e then f e c k' else Some ((result, x), k')) = Some y"
    obtain res x k1 where c: "c k = ((res, x), k1)" by (metis surj_pair)
    show "c = call \<longrightarrow> opened (snd y) = opened k"
    proof
      assume cc: "c = call"
      then have o: "opened k1 = opened k" using assms(2) [of k] c by simp
      show "opened (snd y) = opened k"
      proof (cases "fst res < 0 \<and> snd res = e")
        case True
        then have "f e c k1 = Some y" using run c by simp
        from ih [OF this] cc o show ?thesis by simp
      next
        case False
        then show ?thesis using run c o by auto
      qed
    qed
  qed simp
  from this [OF assms(1)] show ?thesis by simp
qed

text \<open>The calls return once the kernel stops interrupting them, and only then.\<close>

fun after_calls :: "('k \<Rightarrow> 'r \<times> 'k) \<Rightarrow> nat \<Rightarrow> 'k \<Rightarrow> 'k" where
  "after_calls call 0 k = k"
| "after_calls call (Suc n) k = after_calls call n (snd (call k))"

definition interrupted :: "int \<Rightarrow> ('k \<Rightarrow> ((int \<times> int) \<times> 'r) \<times> 'k) \<Rightarrow> 'k \<Rightarrow> bool" where
  "interrupted eintr call k \<longleftrightarrow> (case call k of ((result, x), k') \<Rightarrow> fst result < 0 \<and> snd result = eintr)"

lemma retry_returns:
  assumes "\<not> interrupted eintr call (after_calls call n k)"
  shows "\<exists>r. retry_call eintr call k = Some r"
  using assms
proof (induction n arbitrary: k)
  case 0
  obtain res x k1 where c: "call k = ((res, x), k1)" by (metis surj_pair)
  then show ?case using 0 by (subst retry_call.simps) (auto simp: interrupted_def)
next
  case (Suc n)
  obtain res x k1 where c: "call k = ((res, x), k1)" by (metis surj_pair)
  from Suc.IH [of k1] Suc.prems c have "\<exists>r. retry_call eintr call k1 = Some r" by simp
  then show ?case using c by (subst retry_call.simps) auto
qed

section \<open>A program's sockets\<close>

datatype udp_op =
    UdpMake | UdpMoveNew nat | UdpMoveAssign nat nat | UdpDrop nat | UdpOpen nat udp_options | UdpClose nat
  | UdpRecv nat bytes | UdpSend nat endpoint bytes | UdpWait nat int

text \<open>
  The objects alive, in a list: constructors append, the destructor removes. Assigning an object to itself does
  nothing. An operation on an object that does not exist is not a run.
\<close>

fun udp_step :: "'k posix \<Rightarrow> 'k \<times> udp_socket list \<Rightarrow> udp_op \<Rightarrow> ('k \<times> udp_socket list) option" where
  "udp_step sys (k, ss) UdpMake = Some (k, ss @ [udp_init])"
| "udp_step sys (k, ss) (UdpMoveNew i) =
     do { s \<leftarrow> rd ss i; let (new, old) = udp_move_new s; Some (k, ss[i := old] @ [new]) }"
| "udp_step sys (k, ss) (UdpMoveAssign i j) =
     do { this \<leftarrow> rd ss i; other \<leftarrow> rd ss j;
          if i = j then Some (k, ss)
          else let (k, this, other) = udp_move_assign sys k this other in Some (k, ss[i := this, j := other]) }"
| "udp_step sys (k, ss) (UdpDrop i) =
     do { s \<leftarrow> rd ss i; let (k, s) = udp_close sys k s; Some (k, take i ss @ drop (Suc i) ss) }"
| "udp_step sys (k, ss) (UdpOpen i opts) =
     do { s \<leftarrow> rd ss i; (ok, k, s) \<leftarrow> udp_open sys k s opts; Some (k, ss[i := s]) }"
| "udp_step sys (k, ss) (UdpClose i) =
     do { s \<leftarrow> rd ss i; let (k, s) = udp_close sys k s; Some (k, ss[i := s]) }"
| "udp_step sys (k, ss) (UdpRecv i buffer) =
     do { s \<leftarrow> rd ss i; (r, buffer, k, s) \<leftarrow> udp_recv_from sys k s buffer; Some (k, ss[i := s]) }"
| "udp_step sys (k, ss) (UdpSend i e d) =
     do { s \<leftarrow> rd ss i; (r, k, s) \<leftarrow> udp_send_to sys k s e d; Some (k, ss[i := s]) }"
| "udp_step sys (k, ss) (UdpWait i t) =
     do { s \<leftarrow> rd ss i; (r, k, s) \<leftarrow> udp_wait_readable sys k s t; Some (k, ss[i := s]) }"

fun udp_run :: "'k posix \<Rightarrow> 'k \<times> udp_socket list \<Rightarrow> udp_op list \<Rightarrow> ('k \<times> udp_socket list) option" where
  "udp_run sys st [] = Some st"
| "udp_run sys st (p # ps) = do { st \<leftarrow> udp_step sys st p; udp_run sys st ps }"

text \<open>The descriptors the objects hold, and that they are, with \<open>base\<close>, exactly the open ones, each held once.\<close>

definition all_held :: "udp_socket list \<Rightarrow> int multiset" where
  "all_held ss = sum_list (map held ss)"

definition owns :: "('k \<Rightarrow> int set) \<Rightarrow> int set \<Rightarrow> 'k \<times> udp_socket list \<Rightarrow> bool" where
  "owns opened base = (\<lambda>(k, ss). \<forall>x. of_bool (x \<in> base) + count (all_held ss) x = (of_bool (x \<in> opened k) :: nat))"

lemma all_held_update: "i < length ss \<Longrightarrow> all_held (ss[i := s]) + held (ss ! i) = all_held ss + held s"
proof (induction ss arbitrary: i)
  case (Cons x ss)
  then show ?case by (cases i) (auto simp: all_held_def ac_simps dest: meta_spec [of _ "i - 1"])
qed simp

lemma all_held_append [simp]: "all_held (ss @ ts) = all_held ss + all_held ts" "all_held [s] = held s"
  by (simp_all add: all_held_def)

lemma held_none [simp]: "us_fd s < 0 \<Longrightarrow> held s = {#}"
  by (simp add: held_def)

lemma owns_holding:
  assumes "owns opened base (k, ss)" "i < length ss"
  shows "holding opened k (ss ! i)"
proof -
  have "all_held (ss[i := udp_init]) + held (ss ! i) = all_held ss"
    using all_held_update [OF assms(2), of udp_init] by (simp add: udp_init_def)
  then have c: "count (held (ss ! i)) x \<le> count (all_held ss) x" for x by (metis count_union le_add2)
  show ?thesis unfolding holding_def
  proof
    assume "us_fd (ss ! i) \<ge> 0"
    then have "count (held (ss ! i)) (us_fd (ss ! i)) = 1" by (simp add: held_def)
    then have "count (all_held ss) (us_fd (ss ! i)) \<noteq> 0" using c [of "us_fd (ss ! i)"] by linarith
    moreover have "of_bool (us_fd (ss ! i) \<in> base) + count (all_held ss) (us_fd (ss ! i)) = (of_bool (us_fd (ss ! i) \<in> opened k) :: nat)"
      using assms(1) by (simp add: owns_def)
    ultimately show "us_fd (ss ! i) \<in> opened k" by (metis add_is_0 of_bool_eq(1))
  qed
qed

lemma owns_update:
  assumes "owns opened base (k, ss)" "i < length ss" "transfers opened k (ss ! i) k' s'"
  shows "owns opened base (k', ss[i := s'])"
  unfolding owns_def prod.case
proof
  fix x
  have "count (all_held (ss[i := s'])) x + count (held (ss ! i)) x = count (all_held ss) x + count (held s') x"
    using arg_cong [OF all_held_update [OF assms(2), of s'], of "\<lambda>m. count m x"] by simp
  moreover have "of_bool (x \<in> base) + count (all_held ss) x = (of_bool (x \<in> opened k) :: nat)" using assms(1) by (simp add: owns_def)
  ultimately show "of_bool (x \<in> base) + count (all_held (ss[i := s'])) x = (of_bool (x \<in> opened k') :: nat)"
    using transfersD [OF assms(3), of x] by linarith
qed

lemma owns_moved:
  "owns opened base (k, ss) \<Longrightarrow> all_held ss' = all_held ss \<Longrightarrow> owns opened base (k, ss')"
  by (simp add: owns_def)

text \<open>Sending, receiving and waiting open and close nothing.\<close>

lemma io_transfers:
  assumes "fd_contract sys opened"
  shows "udp_recv_from sys k s buffer = Some (r, buffer', k', s') \<Longrightarrow> transfers opened k s k' s'"
    "udp_send_to sys k s e d = Some (r', k', s') \<Longrightarrow> transfers opened k s k' s'"
    "udp_wait_readable sys k s t = Some (r'', k', s') \<Longrightarrow> transfers opened k s k' s'"
proof -
  note c = contract_calls [OF assms]
  have snd: "opened (snd (let (r, k) = sy_sendto sys k fd d a in ((r, ()), k))) = opened k" for k fd d a
    using c(8) [of k fd d a] by (cases "sy_sendto sys k fd d a") simp
  show "transfers opened k s k' s'" if "udp_recv_from sys k s buffer = Some (r, buffer', k', s')"
  proof (rule transfers_same)
    show "us_fd s' = us_fd s" "opened k' = opened k"
      using that c(10)
      by (auto simp: udp_recv_from_def Let_def split: if_splits Option.bind_splits prod.splits
          dest!: retry_keeps [where opened = opened, OF _ c(7)] dest: arg_cong [of _ _ "\<lambda>x. opened (snd x)"])
  qed
  show "transfers opened k s k' s'" if send: "udp_send_to sys k s e d = Some (r', k', s')"
  proof (cases "us_fd s < 0")
    case True
    then show ?thesis using send by (auto simp: udp_send_to_def Let_def intro: transfers_same)
  next
    case opn: False
    show ?thesis
    proof (cases "to_sockaddr e")
      case None
      then show ?thesis using send opn by (auto simp: udp_send_to_def Let_def intro: transfers_same)
    next
      case (Some target)
      define call where "call = (\<lambda>k. let (r, k) = sy_sendto sys k (us_fd s) d target in ((r, ()), k))"
      have keep: "opened (snd (call k)) = opened k" for k unfolding call_def by (rule snd)
      note run = send [unfolded udp_send_to_def Some option.case, folded call_def, unfolded if_not_P [OF opn] Let_def if_not_P [OF opn]]
      obtain sent errno u k1 where r: "retry_call (sy_eintr sys) call k = Some (((sent, errno), u), k1)"
        using run by (cases "retry_call (sy_eintr sys) call k") auto
      have "opened k1 = opened k" by (rule retry_keeps [where opened = opened, OF r keep])
      then show ?thesis using run by (intro transfers_same) (auto simp: r split: if_splits)
    qed
  qed
  show "transfers opened k s k' s'" if "udp_wait_readable sys k s t = Some (r'', k', s')"
  proof (rule transfers_same)
    show "us_fd s' = us_fd s" "opened k' = opened k"
      using that
      by (auto simp: udp_wait_readable_def split: if_splits Option.bind_splits prod.splits
          dest!: retry_keeps [where opened = opened, OF _ c(9)])
  qed
qed

lemma step_owns:
  assumes "fd_contract sys opened" "owns opened base st" "udp_step sys st p = Some st'"
  shows "owns opened base st'"
proof -
  obtain k ss where st: "st = (k, ss)" by (cases st)
  note o = assms(2) [unfolded st]
  have upd: "owns opened base (k', ss[i := s'])" if "i < length ss" "transfers opened k (ss ! i) k' s'" for i k' s'
    by (rule owns_update [OF o that])
  show ?thesis
  proof (cases p)
    case UdpMake
    then show ?thesis using assms(3) st o owns_moved [OF o, of "ss @ [udp_init]"] by (simp add: udp_init_def)
  next
    case (UdpMoveNew i)
    have "all_held (ss[i := (ss ! i)\<lparr>us_fd := - 1\<rparr>] @ [ss ! i]) = all_held ss" if "i < length ss"
      using all_held_update [OF that, of "(ss ! i)\<lparr>us_fd := - 1\<rparr>"] by simp
    from owns_moved [OF o this] show ?thesis
      using assms(3) UdpMoveNew st by (auto simp: rd_def udp_move_new_def split: if_splits)
  next
    case (UdpMoveAssign i j)
    have ij: "i < length ss" "j < length ss" using assms(3) UdpMoveAssign st by (auto simp: rd_def split: if_splits Option.bind_splits)
    show ?thesis
    proof (cases "i = j")
      case True
      then show ?thesis using assms(3) UdpMoveAssign st o ij by (simp add: rd_def)
    next
      case False
      obtain k1 s1 where c: "udp_close sys k (ss ! i) = (k1, s1)" by fastforce
      note cl = close_transfers [OF assms(1) owns_holding [OF o ij(1)] c]
      have o1: "owns opened base (k1, ss[i := s1])" using upd [OF ij(1)] cl by blast
      define t where "t = s1\<lparr>us_fd := us_fd (ss ! j), us_last_error := us_last_error (ss ! j), us_local := us_local (ss ! j),
        us_stats := us_stats (ss ! j)\<rparr>"
      define e where "e = (ss ! j)\<lparr>us_fd := - 1\<rparr>"
      have h: "held t = held (ss ! j)" "held e = {#}" "held s1 = {#}" using cl by (simp_all add: held_def t_def e_def)
      have "all_held (ss[i := t]) + held s1 = all_held (ss[i := s1]) + held t"
        using all_held_update [of i "ss[i := s1]" t] ij by simp
      moreover have "all_held (ss[i := t, j := e]) + held (ss ! j) = all_held (ss[i := t]) + held e"
        using all_held_update [of j "ss[i := t]" e] ij False by simp
      ultimately have "all_held (ss[i := t, j := e]) = all_held (ss[i := s1])" using h by simp
      from owns_moved [OF o1 this] show ?thesis
        using assms(3) False ij c by (auto simp: UdpMoveAssign st rd_def udp_move_assign_def t_def e_def)
    qed
  next
    case (UdpDrop i)
    have i: "i < length ss" using assms(3) UdpDrop st by (auto simp: rd_def split: if_splits Option.bind_splits)
    obtain k1 s1 where c: "udp_close sys k (ss ! i) = (k1, s1)" by fastforce
    note cl = close_transfers [OF assms(1) owns_holding [OF o i] c]
    have "all_held (take i ss @ drop (Suc i) ss) = all_held (ss[i := s1])"
      using cl i by (simp add: upd_conv_take_nth_drop all_held_def)
    from owns_moved [OF upd [OF i] this] cl show ?thesis using assms(3) i c by (auto simp: UdpDrop st rd_def)
  next
    case (UdpOpen i opts)
    have i: "i < length ss" using assms(3) UdpOpen st by (auto simp: rd_def split: if_splits Option.bind_splits)
    obtain ok k1 s1 where op: "udp_open sys k (ss ! i) opts = Some (ok, k1, s1)" "st' = (k1, ss[i := s1])"
      using assms(3) i by (auto simp: UdpOpen st rd_def split: Option.bind_splits)
    from open_opens [OF assms(1) owns_holding [OF o i] op(1)] show ?thesis
      using upd [OF i] op(2) by (simp add: open_outcome_def)
  next
    case (UdpClose i)
    have i: "i < length ss" using assms(3) UdpClose st by (auto simp: rd_def split: if_splits Option.bind_splits)
    obtain k1 s1 where c: "udp_close sys k (ss ! i) = (k1, s1)" by fastforce
    from close_transfers [OF assms(1) owns_holding [OF o i] c] show ?thesis
      using assms(3) i c upd [OF i] by (auto simp: UdpClose st rd_def)
  next
    case (UdpRecv i b)
    then show ?thesis using assms(3) upd io_transfers(1) [OF assms(1)]
      by (auto simp: st rd_def split: if_splits Option.bind_splits)
  next
    case (UdpSend i e d)
    then show ?thesis using assms(3) upd io_transfers(2) [OF assms(1)]
      by (auto simp: st rd_def split: if_splits Option.bind_splits)
  next
    case (UdpWait i t)
    then show ?thesis using assms(3) upd io_transfers(3) [OF assms(1)]
      by (auto simp: st rd_def split: if_splits Option.bind_splits)
  qed
qed

lemma run_owns:
  assumes "fd_contract sys opened" "owns opened base st" "udp_run sys st ps = Some st'"
  shows "owns opened base st'"
  using assms(2,3)
proof (induction ps arbitrary: st)
  case (Cons p ps)
  then obtain st1 where 1: "udp_step sys st p = Some st1" "udp_run sys st1 ps = Some st'" by (auto split: Option.bind_splits)
  show ?case by (rule Cons.IH [OF step_owns [OF assms(1) Cons.prems(1) 1(1)] 1(2)])
qed simp


text \<open>A kernel that keeps the list of open descriptors, for the instances.\<close>

definition tiny_posix :: "int list posix" where
  "tiny_posix = \<lparr>
     sy_socket = (\<lambda>k af. let fd = foldr max k 2 + 1 in ((fd, 0), fd # k)),
     sy_close = (\<lambda>k fd. removeAll fd k),
     sy_setsockopt = (\<lambda>k fd opt. ((0, 0), k)),
     sy_getfl = (\<lambda>k fd. ((2, 0), k)),
     sy_setfl = (\<lambda>k fd fl. ((0, 0), k)),
     sy_bind = (\<lambda>k fd a. if a = Sock_In (htons 53) (replicate 4 0) then ((-1, 13), k) else ((0, 0), k)),
     sy_getsockname = (\<lambda>k fd. ((0, Sock_In (htons 40000) [0, 0, 0, 0]), k)),
     sy_recvmsg = (\<lambda>k fd n. (((-1, 11), [], Sock_Other, False), k)),
     sy_sendto = (\<lambda>k fd d a. ((int (length d), 0), k)),
     sy_poll = (\<lambda>k fds t. (((int (length fds), 0), map (\<lambda>fd. fd > 3) fds), k)),
     sy_now_us = (\<lambda>k. (0, k)),
     sy_o_nonblock = 2048, sy_eintr = 4, sy_eagain = 11, sy_ewouldblock = 11, sy_ebadf = 9, sy_einval = 22\<rparr>"

lemma below_foldr_max: "x \<in> set xs \<Longrightarrow> x \<le> foldr max xs (a::int)"
  by (induction xs) auto

lemma foldr_max_ge: "(a::int) \<le> foldr max xs a"
  by (induction xs) auto

lemma tiny_contract: "fd_contract tiny_posix set"
proof -
  have "foldr max k 2 + 1 \<notin> set k" "foldr max k (2::int) + 1 \<ge> 0" for k
    using below_foldr_max [of "foldr max k 2 + 1" k 2] foldr_max_ge [of 2 k] by auto
  then show ?thesis by (auto simp: fd_contract_def tiny_posix_def Let_def)
qed

text \<open>Two opens, the second on a privileged port refused by the kernel, a move and the end of the first object.\<close>

definition demo_udp_ops :: "udp_op list" where
  "demo_udp_ops = [UdpMake, UdpOpen 0 default_udp_options, UdpMake, UdpOpen 1 (default_udp_options\<lparr>uo_port := 53\<rparr>),
     UdpMoveNew 0, UdpSend 2 (ep_v6 (replicate 16 1) 9 0) [1, 2], UdpDrop 0]"

lemmas demo_open_defs = udp_open_def udp_close_def udp_v6only_def udp_buffers_def udp_nonblocking_def udp_bind_def bind_target_def udp_fail_def
  udp_init_def default_udp_options_def tiny_posix_def Let_def ep_valid_def no_endpoint_def family_to_af_def from_sockaddr_def


section \<open>The poll helper\<close>

lemma map_back_maps:
  assumes "length pre = i" "revents = rpre @ map f (polled_fds ss)" "length rpre = slot"
  shows "map_back ss revents i slot (pre @ map (\<lambda>_. False) ss) found =
    Some (pre @ map (\<lambda>x. case x of Some s \<Rightarrow> udp_is_open s \<and> f (us_fd s) | None \<Rightarrow> False) ss,
      found + int (length (filter (\<lambda>x. case x of Some s \<Rightarrow> udp_is_open s \<and> f (us_fd s) | None \<Rightarrow> False) ss)))"
  using assms
proof (induction ss arbitrary: i slot pre rpre found)
  case (Cons x ss)
  show ?case
  proof (cases x)
    case None
    from Cons.IH [of "pre @ [False]" "i + 1" rpre slot found] Cons.prems None show ?thesis by simp
  next
    case (Some s)
    show ?thesis
    proof (cases "udp_is_open s")
      case False
      from Cons.IH [of "pre @ [False]" "i + 1" rpre slot found] Cons.prems Some False show ?thesis by simp
    next
      case True
      have r: "rd revents slot = Some (f (us_fd s))" using Cons.prems Some True by (simp add: rd_def nth_append)
      have w: "wr (pre @ False # map (\<lambda>_. False) ss) i True = Some ((pre @ [True]) @ map (\<lambda>_. False) ss)"
        using Cons.prems(1) by (simp add: wr_def list_update_append)
      have e: "revents = (rpre @ [f (us_fd s)]) @ map f (polled_fds ss)" using Cons.prems Some True by simp
      show ?thesis
      proof (cases "f (us_fd s)")
        case t: True
        from Cons.IH [of "pre @ [True]" "i + 1" "rpre @ [f (us_fd s)]" "slot + 1" "found + 1", OF _ e] Cons.prems
        show ?thesis using Some True r w t by simp
      next
        case False
        from Cons.IH [of "pre @ [False]" "i + 1" "rpre @ [f (us_fd s)]" "slot + 1" found, OF _ e] Cons.prems
        show ?thesis using Some True r False by simp
      qed
    qed
  qed
qed simp

text \<open>
  C24. The poll helper reports every socket under its own index, although closed and null sockets are skipped: when the
  kernel finds the descriptors of \<open>f\<close> readable, the flag of socket \<open>i\<close> is set exactly if it is open and in \<open>f\<close>, and
  the result is the number of flags set.
\<close>

lemma wait_any_maps_back:
  assumes "length readable = length ss" "length ss \<le> 16" "polled_fds ss \<noteq> []"
    "sy_poll sys k (polled_fds ss) t = (((ready, e), map f (polled_fds ss)), k')" "ready > 0"
  shows "\<exists>flags. wait_any_readable sys k ss readable t = Some (int (length (filter id flags)), flags, k') \<and> length flags = length ss \<and>
    (\<forall>i < length ss. flags ! i \<longleftrightarrow> (\<exists>s. ss ! i = Some s \<and> udp_is_open s \<and> f (us_fd s)))"
proof -
  define P where "P = (\<lambda>x. case x of Some s \<Rightarrow> udp_is_open s \<and> f (us_fd s) | None \<Rightarrow> False)"
  define flags where "flags = map P ss"
  have ne: "ss \<noteq> []" using assms(3) by auto
  have r: "retry_call (sy_eintr sys) (\<lambda>k. sy_poll sys k (polled_fds ss) t) k = Some (((ready, e), map f (polled_fds ss)), k')"
    using assms(4,5) by (subst retry_call.simps) simp
  have "length (filter P ss) = length (filter id flags)" by (simp add: flags_def filter_map comp_def)
  then have m: "map_back ss (map f (polled_fds ss)) 0 0 (map (\<lambda>_. False) ss) 0 = Some (flags, int (length (filter id flags)))"
    using map_back_maps [of "[]" 0 "map f (polled_fds ss)" "[]" f ss 0 0] by (simp add: flags_def P_def)
  have c: "\<not> (ss = [] \<or> length readable \<noteq> length ss \<or> length ss > kMaxPolledSockets)" "\<not> ready \<le> 0"
    using assms(1,2,5) ne by (simp_all add: kMaxPolledSockets_def)
  have "wait_any_readable sys k ss readable t = Some (int (length (filter id flags)), flags, k')"
    unfolding wait_any_readable_def if_not_P [OF c(1)] Let_def if_not_P [OF assms(3)] r bind.bind_lunit prod.case
      if_not_P [OF c(2)] m by simp
  moreover have "flags ! i \<longleftrightarrow> (\<exists>s. ss ! i = Some s \<and> udp_is_open s \<and> f (us_fd s))" if "i < length ss" for i
    unfolding flags_def nth_map [OF that] P_def by (cases "ss ! i") simp_all
  moreover have "length flags = length ss" by (simp add: flags_def)
  ultimately show ?thesis by blast
qed

lemma wait_any_maps_back_witness:
  "\<exists>flags. wait_any_readable tiny_posix [] [None, Some (udp_init\<lparr>us_fd := 3\<rparr>), Some udp_init, Some (udp_init\<lparr>us_fd := 5\<rparr>)]
     [True, True, True, True] 10 = Some (int (length (filter id flags)), flags, []) \<and> length flags = 4 \<and> flags ! 3 \<and> \<not> flags ! 1"
proof -
  let ?ss = "[None, Some (udp_init\<lparr>us_fd := 3\<rparr>), Some udp_init, Some (udp_init\<lparr>us_fd := 5\<rparr>)]"
  have fds: "polled_fds ?ss = [3, 5]" by (simp add: udp_is_open_def udp_init_def)
  have p: "sy_poll tiny_posix [] (polled_fds ?ss) 10 = (((2, 0), map (\<lambda>fd. fd > 3) (polled_fds ?ss)), [])"
    unfolding fds by (simp add: tiny_posix_def)
  obtain flags where f: "wait_any_readable tiny_posix [] ?ss [True, True, True, True] 10 = Some (int (length (filter id flags)), flags, [])"
    "length flags = length ?ss"
    "\<forall>i < length ?ss. flags ! i \<longleftrightarrow> (\<exists>s. ?ss ! i = Some s \<and> udp_is_open s \<and> us_fd s > 3)"
    using wait_any_maps_back [OF _ _ _ p, of "[True, True, True, True]"] fds by (auto simp del: polled_fds.simps)
  have "flags ! 3" "\<not> flags ! 1"
    using f(3) [rule_format, of 3] f(3) [rule_format, of 1] by (simp_all add: udp_is_open_def)
  then show ?thesis using f(1,2) by auto
qed

section \<open>Oversized datagrams\<close>

text \<open>
  The length check of the parser cannot see a datagram above the cap of 1200 bytes: the buffer has exactly that size,
  the kernel cuts the rest off, and the remains parse as a valid packet.
\<close>

lemma oversized_accepted:
  assumes "mh_flags h AND NOT kAssignedMask = 0" "length payload > kMaxPayload" "us_fd s \<ge> 0" "length buffer = kMaxDatagram"
    "sy_recvmsg sys k (us_fd s) kMaxDatagram =
       (((int kMaxDatagram, 0), take kMaxDatagram (wire_media h payload), Sock_Other, True), k1)" "sy_now_us sys k1 = (t, k2)"
  shows "\<exists>buffer' s'. udp_recv_from sys k s buffer =
      Some (\<lparr>rr_bytes = kMaxDatagram, rr_from = no_endpoint, rr_arrival_us = t, rr_error = 0\<rparr>, buffer', k2, s') \<and>
    parse_media (take kMaxDatagram buffer') = Some (Inr \<lparr>mp_header = h, mp_payload = take kMaxPayload payload\<rparr>)"
proof -
  let ?cut = "take kMaxDatagram (wire_media h payload)"
  have cut: "?cut = wire_media h (take kMaxPayload payload)"
    by (simp add: wire_media_def kMaxPayload_def proto_consts be16_bytes_def be32_bytes_def)
  have len: "length ?cut = kMaxDatagram" using assms(2) by (simp add: cut wire_media_def kMaxPayload_def proto_consts)
  have m: "memcpy_at buffer 0 (wire_media h (take kMaxPayload payload)) = Some ?cut" "length ?cut = kMaxDatagram"
    using len assms(4) unfolding cut by (simp_all add: memcpy_at_def)
  have r: "retry_call (sy_eintr sys) (\<lambda>k. sy_recvmsg sys k (us_fd s) (length buffer)) k =
      Some (((int kMaxDatagram, 0), ?cut, Sock_Other, True), k1)"
    using assms(4,5) by (subst retry_call.simps) simp
  have ok: "media_ok \<lparr>mp_header = h, mp_payload = take kMaxPayload payload\<rparr>"
    using assms(1,2) by (auto simp: media_ok_def kMaxPayload_def proto_consts)
  show ?thesis
    using parse_media_wire [OF ok] assms(3,6) len
    by (simp add: udp_recv_from_def r m from_sockaddr_def no_recv_def Let_def cut)
qed

end
