(* ===== verification/Respond.thy ===== *)
theory Respond
  imports Session_Link
begin

text \<open>
  The peer of the bench (tools/radiobench/mode_respond.cpp): it answers PINGs and keeps one account per stream and
  sender in a table of eight slots. The theory proves that the loop is total on every datagram, and that
  after any run the table is exactly the accounts of the first eight streams seen, each as if it had been
  counted alone, with everything else in a counter of its own.
\<close>

section \<open>State\<close>

definition kMaxStreams :: nat where "kMaxStreams = 8"

record stream_state =
  rs_peer :: endpoint
  rs_stream_id :: u32
  rs_sequence :: seq_tracker
  rs_jitter :: jitter_estimator
  rs_first_seen_us :: micros
  rs_last_seen_us :: micros
  rs_bytes :: u64
  rs_active :: bool

definition blank_stream :: stream_state where
  "blank_stream = \<lparr>rs_peer = no_endpoint, rs_stream_id = 0, rs_sequence = seq_init, rs_jitter = je_init,
     rs_first_seen_us = 0, rs_last_seen_us = 0, rs_bytes = 0, rs_active = False\<rparr>"

text \<open>\<open>static_cast<std::size_t>\<close> of a reject class, and the counters by class.\<close>

fun reject_index :: "reject \<Rightarrow> nat" where
  "reject_index RejNone = 0"
| "reject_index TooShort = 1"
| "reject_index BadVersion = 2"
| "reject_index UnknownType = 3"
| "reject_index ReservedFlag = 4"
| "reject_index BadLength = 5"

definition reject_add :: "u64 list \<Rightarrow> reject \<Rightarrow> u64 list option" where
  "reject_add by_class r = do { n \<leftarrow> rd by_class (reject_index r); wr by_class (reject_index r) (n + 1) }"

definition reject_total :: "u64 list \<Rightarrow> u64" where
  "reject_total by_class = sum_list (drop 1 by_class)"

text \<open>The first slot with a property.\<close>

fun first_index :: "('a \<Rightarrow> bool) \<Rightarrow> 'a list \<Rightarrow> nat option" where
  "first_index P [] = None"
| "first_index P (x # xs) = (if P x then Some 0 else map_option Suc (first_index P xs))"

definition find_or_open :: "stream_state list \<Rightarrow> endpoint \<Rightarrow> u32 \<Rightarrow> micros \<Rightarrow> (nat \<times> stream_state list) option" where
  "find_or_open streams peer sid now =
     (case first_index (\<lambda>s. rs_active s \<and> rs_stream_id s = sid \<and> rs_peer s = peer) streams of
        Some i \<Rightarrow> Some (i, streams)
      | None \<Rightarrow>
          (case first_index (\<lambda>s. \<not> rs_active s) streams of
             Some i \<Rightarrow> Some (i, streams[i := blank_stream\<lparr>rs_peer := peer, rs_stream_id := sid, rs_first_seen_us := now,
                         rs_active := True\<rparr>])
           | None \<Rightarrow> None))"

text \<open>The variables of \<open>run_respond\<close>; \<open>rp_reads\<close> counts the readings of the clock.\<close>

record respond_state =
  rp_streams :: "stream_state list"
  rp_rejects :: "u64 list"
  rp_pings :: u64
  rp_pong_failed :: u64
  rp_unhandled :: u64
  rp_table_full :: u64
  rp_incoming :: bytes
  rp_outgoing :: bytes
  rp_reads :: nat

definition respond_init :: respond_state where
  "respond_init = \<lparr>rp_streams = replicate kMaxStreams blank_stream, rp_rejects = replicate 6 0, rp_pings = 0,
     rp_pong_failed = 0, rp_unhandled = 0, rp_table_full = 0, rp_incoming = replicate kMaxDatagram 0,
     rp_outgoing = replicate kMaxDatagram 0, rp_reads = 0\<rparr>"

section \<open>The loop\<close>

definition respond_reject :: "respond_state \<Rightarrow> reject \<Rightarrow> respond_state option" where
  "respond_reject s r = map_option (\<lambda>c. s\<lparr>rp_rejects := c\<rparr>) (reject_add (rp_rejects s) r)"

definition respond_ping ::
  "clock_readings \<Rightarrow> 'w net_send \<Rightarrow> respond_state \<Rightarrow> 'w \<Rightarrow> endpoint \<Rightarrow> micros \<Rightarrow> control_packet \<Rightarrow> (respond_state \<times> 'w) option" where
  "respond_ping clk send s w from_ep arrival_us packet = do {
     let t3 = clk (rp_reads s);
     let s = s\<lparr>rp_reads := Suc (rp_reads s)\<rparr>;
     (len, outgoing) \<leftarrow> encode_pong_for packet arrival_us t3 (rp_outgoing s);
     let s = s\<lparr>rp_outgoing := outgoing\<rparr>;
     Some (if len = 0 then (s\<lparr>rp_pong_failed := rp_pong_failed s + 1\<rparr>, w)
           else let (error, w) = send w from_ep (take len outgoing) in
             (if error = 0 then s\<lparr>rp_pings := rp_pings s + 1\<rparr> else s\<lparr>rp_pong_failed := rp_pong_failed s + 1\<rparr>, w))
   }"

definition stream_observe :: "stream_state \<Rightarrow> media_header \<Rightarrow> micros \<Rightarrow> nat \<Rightarrow> stream_state option" where
  "stream_observe st header arrival_us len = do {
     let st = st\<lparr>rs_sequence := snd (seq_observe (rs_sequence st) (mh_sequence header))\<rparr>;
     je \<leftarrow> (if talkspurt_start header then Some (je_reanchor (rs_jitter st) (mh_timestamp header) arrival_us)
           else je_observe (rs_jitter st) (mh_timestamp header) arrival_us);
     Some (st\<lparr>rs_jitter := je, rs_last_seen_us := arrival_us, rs_bytes := rs_bytes st + of_nat len\<rparr>)
   }"

definition respond_audio ::
  "respond_state \<Rightarrow> endpoint \<Rightarrow> micros \<Rightarrow> nat \<Rightarrow> media_header \<Rightarrow> respond_state option" where
  "respond_audio s from_ep arrival_us len header =
     (case find_or_open (rp_streams s) from_ep (mh_stream_id header) arrival_us of
        None \<Rightarrow> Some (s\<lparr>rp_table_full := rp_table_full s + 1\<rparr>)
      | Some (i, streams) \<Rightarrow> do {
          st \<leftarrow> rd streams i;
          st \<leftarrow> stream_observe st header arrival_us len;
          streams \<leftarrow> wr streams i st;
          Some (s\<lparr>rp_streams := streams\<rparr>)
        })"

text \<open>One datagram \<open>(from, arrival, data)\<close> that \<open>recv_from\<close> wrote to the start of the buffer.\<close>

definition respond_one ::
  "clock_readings \<Rightarrow> 'w net_send \<Rightarrow> respond_state \<Rightarrow> 'w \<Rightarrow> endpoint \<times> micros \<times> bytes \<Rightarrow> (respond_state \<times> 'w) option" where
  "respond_one clk send s w received = do {
     let (from_ep, arrival_us, data) = received;
     incoming \<leftarrow> memcpy_at (rp_incoming s) 0 data;
     let s = s\<lparr>rp_incoming := incoming\<rparr>;
     let datagram = take (length data) incoming;
     ty \<leftarrow> peek_type datagram;
     case ty of
       Inl r \<Rightarrow> map_option (\<lambda>s. (s, w)) (respond_reject s r)
     | Inr Ping \<Rightarrow> do {
         packet \<leftarrow> parse_control datagram;
         case packet of
           Inl r \<Rightarrow> map_option (\<lambda>s. (s, w)) (respond_reject s r)
         | Inr packet \<Rightarrow> respond_ping clk send s w from_ep arrival_us packet
       }
     | Inr Audio \<Rightarrow> do {
         packet \<leftarrow> parse_media datagram;
         case packet of
           Inl r \<Rightarrow> map_option (\<lambda>s. (s, w)) (respond_reject s r)
         | Inr packet \<Rightarrow> map_option (\<lambda>s. (s, w)) (respond_audio s from_ep arrival_us (length data) (mp_header packet))
       }
     | Inr _ \<Rightarrow> Some (s\<lparr>rp_unhandled := rp_unhandled s + 1\<rparr>, w)
   }"

fun respond_all ::
  "clock_readings \<Rightarrow> 'w net_send \<Rightarrow> respond_state \<Rightarrow> 'w \<Rightarrow> (endpoint \<times> micros \<times> bytes) list \<Rightarrow> (respond_state \<times> 'w) option" where
  "respond_all clk send s w [] = Some (s, w)"
| "respond_all clk send s w (r # rs) = do { (s, w) \<leftarrow> respond_one clk send s w r; respond_all clk send s w rs }"

section \<open>The first slot\<close>

lemma first_index_Some:
  "first_index P xs = Some i \<longleftrightarrow> i < length xs \<and> P (xs ! i) \<and> (\<forall>j<i. \<not> P (xs ! j))"
proof (induction xs arbitrary: i)
  case (Cons x xs)
  show ?case
  proof (cases i)
    case (Suc k)
    then show ?thesis using Cons.IH [of k] by (auto simp: less_Suc_eq_0_disj)
  qed (use Cons in auto)
qed simp

lemma first_index_None: "first_index P xs = None \<longleftrightarrow> (\<forall>i<length xs. \<not> P (xs ! i))"
  by (induction xs) (auto simp: less_Suc_eq_0_disj nth_Cons')

section \<open>Streams in order of their first packet\<close>

definition firsts :: "'a list \<Rightarrow> 'a list" where
  "firsts xs = rev (remdups (rev xs))"

lemma firsts_snoc: "firsts (xs @ [x]) = (if x \<in> set xs then firsts xs else firsts xs @ [x])"
  by (simp add: firsts_def)

lemma set_firsts [simp]: "set (firsts xs) = set xs"
  by (simp add: firsts_def)

lemma distinct_firsts [simp]: "distinct (firsts xs)"
  by (simp add: firsts_def)

lemma firsts_Nil [simp]: "firsts [] = []"
  by (simp add: firsts_def)

section \<open>One account\<close>

type_synonym stream_key = "endpoint \<times> u32"
type_synonym heard = "media_header \<times> micros \<times> nat"

definition opened_stream :: "stream_key \<Rightarrow> micros \<Rightarrow> stream_state" where
  "opened_stream k t = blank_stream\<lparr>rs_peer := fst k, rs_stream_id := snd k, rs_first_seen_us := t, rs_active := True\<rparr>"

fun observe_all :: "stream_state \<Rightarrow> heard list \<Rightarrow> stream_state option" where
  "observe_all st [] = Some st"
| "observe_all st ((h, t, n) # xs) = do { st \<leftarrow> stream_observe st h t n; observe_all st xs }"

lemma observe_all_append: "observe_all st (xs @ ys) = Option.bind (observe_all st xs) (\<lambda>st. observe_all st ys)"
  by (induction st xs rule: observe_all.induct) (auto split: Option.bind_splits)

text \<open>The account of a stream heard alone.\<close>

definition counted_alone :: "stream_key \<Rightarrow> heard list \<Rightarrow> stream_state option" where
  "counted_alone k xs = observe_all (opened_stream k (case xs of [] \<Rightarrow> 0 | (_, t, _) # _ \<Rightarrow> t)) xs"

lemma counted_alone_snoc:
  "xs \<noteq> [] \<Longrightarrow> counted_alone k (xs @ [(h, t, n)]) = Option.bind (counted_alone k xs) (\<lambda>st. stream_observe st h t n)"
  by (cases xs) (auto simp: counted_alone_def observe_all_append bind_assoc split: Option.bind_splits)

lemma counted_alone_one: "counted_alone k [(h, t, n)] = stream_observe (opened_stream k t) h t n"
  by (simp add: counted_alone_def)

lemma stream_observe_effect:
  assumes "je_small (rs_jitter st)"
  shows "\<exists>st'. stream_observe st h t n = Some st' \<and> je_small (rs_jitter st') \<and> rs_active st' = rs_active st \<and>
    rs_peer st' = rs_peer st \<and> rs_stream_id st' = rs_stream_id st \<and> rs_first_seen_us st' = rs_first_seen_us st \<and>
    rs_sequence st' = snd (seq_observe (rs_sequence st) (mh_sequence h)) \<and> rs_bytes st' = rs_bytes st + of_nat n \<and>
    rs_last_seen_us st' = t"
  using je_small_anchor [OF assms] je_small_observe [OF assms, of "mh_timestamp h" t]
  by (cases "talkspurt_start h") (auto simp: stream_observe_def)

text \<open>What the fields of an account are.\<close>

lemma observe_all_fields:
  assumes "observe_all st xs = Some st'" "je_small (rs_jitter st)"
  shows "rs_active st' = rs_active st \<and> rs_peer st' = rs_peer st \<and> rs_stream_id st' = rs_stream_id st \<and>
    rs_first_seen_us st' = rs_first_seen_us st \<and> je_small (rs_jitter st') \<and>
    rs_sequence st' = seq_run (rs_sequence st) (map (mh_sequence \<circ> fst) xs) \<and>
    rs_bytes st' = rs_bytes st + of_nat (sum_list (map (snd \<circ> snd) xs))"
  using assms
proof (induction st xs rule: observe_all.induct)
  case (2 st h t n xs)
  from stream_observe_effect [OF 2(3), of h t n] obtain st1 where o: "stream_observe st h t n = Some st1" "je_small (rs_jitter st1)"
    "rs_active st1 = rs_active st" "rs_peer st1 = rs_peer st" "rs_stream_id st1 = rs_stream_id st"
    "rs_first_seen_us st1 = rs_first_seen_us st" "rs_sequence st1 = snd (seq_observe (rs_sequence st) (mh_sequence h))"
    "rs_bytes st1 = rs_bytes st + of_nat n" by blast
  from 2(1) [OF o(1) _ o(2)] 2(2) o show ?case by (simp add: seq_run_def)
qed (simp add: seq_run_def)

lemma counted_alone_fields:
  assumes "counted_alone k xs = Some st"
  shows "rs_active st" "(rs_peer st, rs_stream_id st) = k" "je_small (rs_jitter st)"
    "rs_sequence st = seq_run seq_init (map (mh_sequence \<circ> fst) xs)" "rs_bytes st = of_nat (sum_list (map (snd \<circ> snd) xs))"
  using observe_all_fields [OF assms [unfolded counted_alone_def]] je_small_init
  by (simp_all add: opened_stream_def blank_stream_def)

section \<open>The table\<close>

type_synonym heard_key = "stream_key \<times> heard"

definition of_key :: "stream_key \<Rightarrow> heard_key list \<Rightarrow> heard list" where
  "of_key k ms = map snd (filter (\<lambda>m. fst m = k) ms)"

text \<open>The streams with a slot, and the packets of the others.\<close>

definition tabled :: "heard_key list \<Rightarrow> stream_key list" where
  "tabled ms = take kMaxStreams (firsts (map fst ms))"

definition turned_away :: "heard_key list \<Rightarrow> nat" where
  "turned_away ms = length (filter (\<lambda>m. fst m \<notin> set (tabled ms)) ms)"

definition table_ok :: "stream_state list \<Rightarrow> heard_key list \<Rightarrow> bool" where
  "table_ok streams ms \<longleftrightarrow> length streams = kMaxStreams \<and>
     (\<forall>i < length (tabled ms). counted_alone (tabled ms ! i) (of_key (tabled ms ! i) ms) = Some (streams ! i)) \<and>
     (\<forall>i < kMaxStreams. length (tabled ms) \<le> i \<longrightarrow> \<not> rs_active (streams ! i))"

lemma tabled_facts: "length (tabled ms) \<le> kMaxStreams" "distinct (tabled ms)" "set (tabled ms) \<subseteq> fst ` set ms"
  using set_take_subset [of kMaxStreams "firsts (map fst ms)"] by (simp_all add: tabled_def)

lemma tabled_snoc:
  "tabled (ms @ [m]) = (if fst m \<in> set (tabled ms) \<or> length (tabled ms) = kMaxStreams then tabled ms else tabled ms @ [fst m])"
proof (cases "length (firsts (map fst ms)) < kMaxStreams")
  case True
  then show ?thesis by (auto simp: tabled_def firsts_snoc)
next
  case False
  then have "length (tabled ms) = kMaxStreams" by (simp add: tabled_def)
  then show ?thesis using False by (simp add: tabled_def firsts_snoc)
qed

lemma of_key_snoc: "of_key k (ms @ [(k', x)]) = of_key k ms @ (if k' = k then [x] else [])"
  by (simp add: of_key_def)

lemma of_key_ne: "k \<in> fst ` set ms \<Longrightarrow> of_key k ms \<noteq> []"
  by (auto simp: of_key_def filter_empty_conv)

lemma table_slot:
  assumes "table_ok streams ms" "i < length (tabled ms)"
  shows "rs_active (streams ! i)" "(rs_peer (streams ! i), rs_stream_id (streams ! i)) = tabled ms ! i" "je_small (rs_jitter (streams ! i))"
proof -
  have "counted_alone (tabled ms ! i) (of_key (tabled ms ! i) ms) = Some (streams ! i)" using assms by (simp add: table_ok_def)
  from counted_alone_fields(1-3) [OF this] show "rs_active (streams ! i)"
    "(rs_peer (streams ! i), rs_stream_id (streams ! i)) = tabled ms ! i" "je_small (rs_jitter (streams ! i))" .
qed

lemma find_active:
  assumes "table_ok streams ms"
  shows "first_index (\<lambda>s. rs_active s \<and> rs_stream_id s = sid \<and> rs_peer s = peer) streams =
    first_index (\<lambda>k. k = (peer, sid)) (tabled ms)"
proof (cases "first_index (\<lambda>k. k = (peer, sid)) (tabled ms)")
  case None
  have "\<not> (rs_active (streams ! i) \<and> rs_stream_id (streams ! i) = sid \<and> rs_peer (streams ! i) = peer)" if "i < length streams" for i
  proof (cases "i < length (tabled ms)")
    case True
    then have "(rs_peer (streams ! i), rs_stream_id (streams ! i)) = tabled ms ! i" "tabled ms ! i \<noteq> (peer, sid)"
      using table_slot(2) [OF assms] None by (auto simp: first_index_None)
    then show ?thesis by auto
  next
    case False
    then show ?thesis using assms that by (simp add: table_ok_def)
  qed
  then have "first_index (\<lambda>s. rs_active s \<and> rs_stream_id s = sid \<and> rs_peer s = peer) streams = None"
    unfolding first_index_None by blast
  then show ?thesis using None by simp
next
  case (Some i)
  have key: "(rs_peer (streams ! j), rs_stream_id (streams ! j)) = tabled ms ! j \<and> rs_active (streams ! j)" if "j < length (tabled ms)" for j
    using table_slot [OF assms that] by simp
  have i: "i < length (tabled ms)" "tabled ms ! i = (peer, sid)" "\<forall>j<i. tabled ms ! j \<noteq> (peer, sid)"
    using Some by (auto simp: first_index_Some)
  have "first_index (\<lambda>s. rs_active s \<and> rs_stream_id s = sid \<and> rs_peer s = peer) streams = Some i"
    unfolding first_index_Some
  proof (intro conjI allI impI)
    show "i < length streams" using i(1) tabled_facts(1) [of ms] assms by (simp add: table_ok_def)
    show "rs_active (streams ! i)" "rs_stream_id (streams ! i) = sid" "rs_peer (streams ! i) = peer"
      using key [OF i(1)] i(2) by auto
    fix j assume "j < i"
    then have "tabled ms ! j \<noteq> (peer, sid)" "j < length (tabled ms)" using i by auto
    then show "\<not> (rs_active (streams ! j) \<and> rs_stream_id (streams ! j) = sid \<and> rs_peer (streams ! j) = peer)"
      using key [of j] by auto
  qed
  then show ?thesis using Some by simp
qed

lemma find_free:
  assumes "table_ok streams ms"
  shows "first_index (\<lambda>s. \<not> rs_active s) streams = (if length (tabled ms) = kMaxStreams then None else Some (length (tabled ms)))"
proof -
  have a: "rs_active (streams ! i)" if "i < length (tabled ms)" for i
    using table_slot(1) [OF assms that] .
  have "length streams = kMaxStreams" using assms by (simp add: table_ok_def)
  moreover have "length (tabled ms) \<noteq> kMaxStreams \<Longrightarrow> length (tabled ms) < kMaxStreams" using tabled_facts(1) [of ms] by simp
  ultimately show ?thesis using a assms by (auto simp: first_index_None first_index_Some table_ok_def)
qed

text \<open>One media packet.\<close>

lemma respond_audio_effect:
  fixes from_ep :: endpoint and h :: media_header and t :: micros and n :: nat
  assumes "table_ok (rp_streams s) ms" "rp_table_full s = of_nat (turned_away ms)"
  defines "m \<equiv> ((from_ep, mh_stream_id h), h, t, n)"
  shows "\<exists>streams full. respond_audio s from_ep t n h = Some (s\<lparr>rp_streams := streams, rp_table_full := full\<rparr>) \<and>
    table_ok streams (ms @ [m]) \<and> full = of_nat (turned_away (ms @ [m]))"
proof -
  let ?k = "(from_ep, mh_stream_id h)" and ?T = "tabled ms" and ?streams = "rp_streams s"
  have fm: "fst m = ?k" by (simp add: m_def)
  note fa = find_active [OF assms(1), of "mh_stream_id h" from_ep]
  have len: "length ?streams = kMaxStreams" "length ?T \<le> kMaxStreams" using assms(1) tabled_facts(1) by (simp_all add: table_ok_def)
  have acc: "counted_alone (?T ! i) (of_key (?T ! i) ms) = Some (?streams ! i)" if "i < length ?T" for i
    using assms(1) that by (simp add: table_ok_def)
  have inact: "\<not> rs_active (?streams ! i)" if "i < kMaxStreams" "length ?T \<le> i" for i using assms(1) that by (simp add: table_ok_def)
  show ?thesis
  proof (cases "?k \<in> set ?T")
    case True
    then obtain i where "first_index (\<lambda>k. k = ?k) ?T = Some i"
      by (cases "first_index (\<lambda>k. k = ?k) ?T") (auto simp: first_index_None in_set_conv_nth)
    note fi = this
    then have i: "i < length ?T" "?T ! i = ?k" by (auto simp: first_index_Some)
    have fo: "find_or_open ?streams from_ep (mh_stream_id h) t = Some (i, ?streams)" by (simp add: find_or_open_def fa fi)
    have ti: "tabled (ms @ [m]) = ?T" using True by (simp add: tabled_snoc fm)
    obtain st where st: "stream_observe (?streams ! i) h t n = Some st"
      using stream_observe_effect [OF table_slot(3) [OF assms(1) i(1)]] by blast
    have "of_key ?k ms \<noteq> []" using True tabled_facts(3) [of ms] by (intro of_key_ne) auto
    then have "counted_alone ?k (of_key ?k (ms @ [m])) = Some st"
      using acc [OF i(1)] st by (simp add: i(2) m_def of_key_snoc counted_alone_snoc)
    moreover have "of_key (?T ! j) (ms @ [m]) = of_key (?T ! j) ms" if "j < length ?T" "j \<noteq> i" for j
      using that i nth_eq_iff_index_eq [OF tabled_facts(2), of j ms i] by (auto simp: m_def of_key_snoc)
    ultimately have "table_ok (?streams[i := st]) (ms @ [m])"
      using acc inact len i by (auto simp: table_ok_def ti nth_list_update)
    moreover have "turned_away (ms @ [m]) = turned_away ms" using True by (simp add: turned_away_def ti fm)
    moreover have "respond_audio s from_ep t n h = Some (s\<lparr>rp_streams := ?streams[i := st], rp_table_full := rp_table_full s\<rparr>)"
      using i fo len st by (simp add: respond_audio_def rd_Some wr_Some)
    ultimately show ?thesis using assms(2) by auto
  next
    case new: False
    then have none: "first_index (\<lambda>s. rs_active s \<and> rs_stream_id s = mh_stream_id h \<and> rs_peer s = from_ep) ?streams = None"
      using fa by (auto simp: first_index_None in_set_conv_nth)
    show ?thesis
    proof (cases "length ?T = kMaxStreams")
      case True
      have ti: "tabled (ms @ [m]) = ?T" using True by (simp add: tabled_snoc)
      have "respond_audio s from_ep t n h = Some (s\<lparr>rp_table_full := rp_table_full s + 1\<rparr>)"
        using none find_free [OF assms(1)] True by (simp add: respond_audio_def find_or_open_def)
      then have "respond_audio s from_ep t n h = Some (s\<lparr>rp_streams := ?streams, rp_table_full := rp_table_full s + 1\<rparr>)" by simp
      moreover have "of_key (?T ! j) (ms @ [m]) = of_key (?T ! j) ms" if "j < length ?T" for j
        using that new by (auto simp: m_def of_key_snoc in_set_conv_nth)
      then have "table_ok ?streams (ms @ [m])" using acc inact len by (simp add: table_ok_def ti)
      moreover have "rp_table_full s + 1 = of_nat (turned_away (ms @ [m]))"
        using new assms(2) by (simp add: turned_away_def ti fm)
      ultimately show ?thesis by blast
    next
      case False
      let ?i = "length ?T" and ?o = "opened_stream ?k t"
      have ilt: "?i < kMaxStreams" using False len(2) by simp
      have ti: "tabled (ms @ [m]) = ?T @ [?k]" using False new by (simp add: tabled_snoc fm)
      have f: "find_or_open ?streams from_ep (mh_stream_id h) t = Some (?i, ?streams[?i := ?o])"
        using none find_free [OF assms(1)] False by (simp add: find_or_open_def opened_stream_def)
      have oj: "je_small (rs_jitter ?o)" using je_small_init by (simp add: opened_stream_def blank_stream_def)
      obtain st where st: "stream_observe ?o h t n = Some st" using stream_observe_effect [OF oj] by blast
      have "set ?T = fst ` set ms"
      proof -
        have "length (firsts (map fst ms)) < kMaxStreams" using ilt by (simp add: tabled_def)
        then show ?thesis by (simp add: tabled_def)
      qed
      then have nk: "of_key ?k ms = []" "\<And>m. m \<in> set ms \<Longrightarrow> fst m \<in> set ?T" using new by (force simp: of_key_def filter_empty_conv)+
      have "counted_alone ?k (of_key ?k (ms @ [m])) = Some st" using nk(1) st by (simp add: m_def of_key_snoc counted_alone_one)
      moreover have "of_key (?T ! j) (ms @ [m]) = of_key (?T ! j) ms" if "j < length ?T" for j
        using that new by (auto simp: m_def of_key_snoc in_set_conv_nth)
      ultimately have "table_ok (?streams[?i := st]) (ms @ [m])"
        using acc inact len ilt by (auto simp: table_ok_def ti nth_append nth_list_update less_Suc_eq)
      moreover have "turned_away ms = 0" using nk(2) by (auto simp: turned_away_def filter_empty_conv)
      moreover have "turned_away (ms @ [m]) = 0" using nk(2) by (auto simp: turned_away_def ti fm filter_empty_conv)
      moreover have "respond_audio s from_ep t n h = Some (s\<lparr>rp_streams := ?streams[?i := st], rp_table_full := rp_table_full s\<rparr>)"
        using f st len ilt by (simp add: respond_audio_def rd_Some wr_Some)
      ultimately show ?thesis using assms(2) by auto
    qed
  qed
qed

section \<open>One datagram\<close>

text \<open>How the loop classifies a datagram: its reject class, if any, a well-formed PING, or a type left alone.\<close>

definition rejected_as :: "bytes \<Rightarrow> reject option" where
  "rejected_as d = (case peek_type d of
     Some (Inl r) \<Rightarrow> Some r
   | Some (Inr Ping) \<Rightarrow> (case parse_control d of Some (Inl r) \<Rightarrow> Some r | _ \<Rightarrow> None)
   | Some (Inr Audio) \<Rightarrow> (case parse_media d of Some (Inl r) \<Rightarrow> Some r | _ \<Rightarrow> None)
   | _ \<Rightarrow> None)"

definition asks_pong :: "bytes \<Rightarrow> bool" where
  "asks_pong d \<longleftrightarrow> peek_type d = Some (Inr Ping) \<and> parses_control d"

definition left_alone :: "bytes \<Rightarrow> bool" where
  "left_alone d \<longleftrightarrow> (case peek_type d of Some (Inr ty) \<Rightarrow> ty \<noteq> Ping \<and> ty \<noteq> Audio | _ \<Rightarrow> False)"

definition heard_in :: "endpoint \<times> micros \<times> bytes \<Rightarrow> heard_key list" where
  "heard_in = (\<lambda>(e, t, d). case parsed_media d of
     Some p \<Rightarrow> [((e, mh_stream_id (mp_header p)), mp_header p, t, length d)] | None \<Rightarrow> [])"

definition media_heard :: "(endpoint \<times> micros \<times> bytes) list \<Rightarrow> heard_key list" where
  "media_heard rs = concat (map heard_in rs)"

text \<open>The counters that add up to the number of datagrams.\<close>

definition respond_inv :: "respond_state \<Rightarrow> (endpoint \<times> micros \<times> bytes) list \<Rightarrow> bool" where
  "respond_inv s rs \<longleftrightarrow> table_ok (rp_streams s) (media_heard rs) \<and> rp_table_full s = of_nat (turned_away (media_heard rs)) \<and>
     length (rp_rejects s) = 6 \<and>
     (\<forall>r. rp_rejects s ! reject_index r = of_nat (length (filter (\<lambda>(_, _, d). rejected_as d = Some r) rs))) \<and>
     rp_pings s + rp_pong_failed s = of_nat (length (filter (\<lambda>(_, _, d). asks_pong d) rs)) \<and>
     rp_unhandled s = of_nat (length (filter (\<lambda>(_, _, d). left_alone d) rs)) \<and> length (rp_incoming s) = kMaxDatagram"

lemma media_heard_snoc: "media_heard (rs @ [r]) = media_heard rs @ heard_in r"
  by (simp add: media_heard_def)

lemma reject_index_inj: "reject_index r = reject_index r' \<longleftrightarrow> r = r'"
  by (cases r; cases r') simp_all

lemma reject_index_less: "reject_index r < 6"
  by (cases r) simp_all

lemma respond_reject_inv:
  assumes "respond_inv s rs" "rejected_as d = Some r" "\<not> asks_pong d" "\<not> left_alone d" "heard_in (e, t, d) = []"
    "length buf = kMaxDatagram"
  shows "\<exists>s'. respond_reject (s\<lparr>rp_incoming := buf\<rparr>) r = Some s' \<and> respond_inv s' (rs @ [(e, t, d)])"
proof -
  have len: "reject_index r < length (rp_rejects s)" using assms(1) reject_index_less by (simp add: respond_inv_def)
  have "(rp_rejects s)[reject_index r := rp_rejects s ! reject_index r + 1] ! reject_index r' =
      rp_rejects s ! reject_index r' + (if r' = r then 1 else 0)" for r'
    using len reject_index_inj [of r r'] by (auto simp: nth_list_update)
  then show ?thesis
    using assms len by (auto simp: respond_inv_def respond_reject_def reject_add_def rd_Some wr_Some media_heard_snoc)
qed

lemma respond_ping_total: "\<exists>s' w'. respond_ping clk send s w e t packet = Some (s', w') \<and>
  rp_streams s' = rp_streams s \<and> rp_rejects s' = rp_rejects s \<and> rp_unhandled s' = rp_unhandled s \<and>
  rp_table_full s' = rp_table_full s \<and> rp_incoming s' = rp_incoming s \<and>
  rp_pings s' + rp_pong_failed s' = rp_pings s + rp_pong_failed s + 1"
proof -
  obtain len out where p: "encode_pong_for packet t (clk (rp_reads s)) (rp_outgoing s) = Some (len, out)"
    using pong_for_total [of packet t "clk (rp_reads s)" "rp_outgoing s"] by auto
  obtain err w1 where w: "send w e (take len out) = (err, w1)" by fastforce
  show ?thesis by (cases "len = 0"; cases "err = 0") (simp_all add: respond_ping_def p w Let_def)
qed

lemma media_class: "parsed_media d = Some p \<Longrightarrow> rejected_as d = None \<and> \<not> asks_pong d \<and> \<not> left_alone d"
  using parsed_media_peek [of d p] by (simp add: rejected_as_def asks_pong_def left_alone_def parsed_media_iff)

lemma respond_one_inv:
  assumes "respond_inv s rs" "length d \<le> kMaxDatagram"
  shows "\<exists>s' w'. respond_one clk send s w (e, t, d) = Some (s', w') \<and> respond_inv s' (rs @ [(e, t, d)])"
proof -
  have "length (rp_incoming s) = kMaxDatagram" using assms(1) by (simp add: respond_inv_def)
  then obtain buf where m: "memcpy_at (rp_incoming s) 0 d = Some buf" "length buf = kMaxDatagram"
    using assms(2) receive_view(2) by (fastforce simp: memcpy_at_def)
  obtain ty where ty: "peek_type d = Some ty" using peek_total by blast
  note run = respond_one_def [of clk send s w "(e, t, d)", unfolded Let_def prod.case m(1) bind.bind_lunit receive_view(1) [OF m(1)] ty]
  note rej = respond_reject_inv [OF assms(1) _ _ _ _ m(2), of d]
  have keep: "respond_inv s' (rs @ [(e, t, d)])"
    if "rp_streams s' = rp_streams s" "rp_rejects s' = rp_rejects s" "rp_table_full s' = rp_table_full s" "rp_incoming s' = buf"
      "rp_pings s' + rp_pong_failed s' = rp_pings s + rp_pong_failed s + of_bool (asks_pong d)"
      "rp_unhandled s' = rp_unhandled s + of_bool (left_alone d)" "rejected_as d = None" "parsed_media d = None" for s'
    using that assms(1) m(2) by (simp add: respond_inv_def media_heard_snoc heard_in_def)
  have none: "parsed_media d = None" if "ty \<noteq> Inr Audio" using that ty parsed_media_peek [of d] by (cases "parsed_media d") auto
  show ?thesis
  proof (cases ty)
    case (Inl r)
    then have "rejected_as d = Some r" "\<not> asks_pong d" "\<not> left_alone d" "heard_in (e, t, d) = []"
      using ty none by (simp_all add: rejected_as_def asks_pong_def left_alone_def heard_in_def)
    from rej [OF this] show ?thesis using run Inl by auto
  next
    case (Inr k)
    consider "k = Ping" | "k = Audio" | "k \<noteq> Ping" "k \<noteq> Audio" by blast
    then show ?thesis
    proof cases
      case 1
      obtain pc where pc: "parse_control d = Some pc" using parse_total(2) by blast
      have la: "\<not> left_alone d" "parsed_media d = None" using ty Inr 1 none by (simp_all add: left_alone_def)
      show ?thesis
      proof (cases pc)
        case (Inl r)
        then have "rejected_as d = Some r" "\<not> asks_pong d" "heard_in (e, t, d) = []"
          using ty Inr 1 pc la by (simp_all add: rejected_as_def asks_pong_def parses_control_def heard_in_def)
        from rej [OF this(1,2) la(1) this(3)] show ?thesis using run Inr 1 pc Inl by auto
      next
        case c: (Inr packet)
        obtain s' w' where s': "respond_ping clk send (s\<lparr>rp_incoming := buf\<rparr>) w e t packet = Some (s', w')"
          "rp_streams s' = rp_streams s" "rp_rejects s' = rp_rejects s" "rp_unhandled s' = rp_unhandled s"
          "rp_table_full s' = rp_table_full s" "rp_incoming s' = buf" "rp_pings s' + rp_pong_failed s' = rp_pings s + rp_pong_failed s + 1"
          using respond_ping_total [of clk send "s\<lparr>rp_incoming := buf\<rparr>" w e t packet] by auto
        have "asks_pong d" "rejected_as d = None" using ty Inr 1 pc c by (simp_all add: asks_pong_def parses_control_def rejected_as_def)
        then have "respond_inv s' (rs @ [(e, t, d)])" using s' la by (intro keep) simp_all
        then show ?thesis using run Inr 1 pc c s'(1) by simp
      qed
    next
      case 2
      have la: "\<not> left_alone d" "\<not> asks_pong d" using ty Inr 2 by (simp_all add: left_alone_def asks_pong_def)
      obtain pm where pm: "parse_media d = Some pm" using parse_total(1) by blast
      show ?thesis
      proof (cases pm)
        case (Inl r)
        then have "rejected_as d = Some r" "heard_in (e, t, d) = []"
          using ty Inr 2 pm by (simp_all add: rejected_as_def heard_in_def parsed_media_def)
        from rej [OF this(1) la(2,1) this(2)] show ?thesis using run Inr 2 pm Inl by auto
      next
        case c: (Inr p)
        then have p: "parsed_media d = Some p" using pm by (simp add: parsed_media_iff)
        have t: "table_ok (rp_streams (s\<lparr>rp_incoming := buf\<rparr>)) (media_heard rs)"
          "rp_table_full (s\<lparr>rp_incoming := buf\<rparr>) = of_nat (turned_away (media_heard rs))"
          using assms(1) by (simp_all add: respond_inv_def)
        from respond_audio_effect [OF t, where from_ep = e and h = "mp_header p" and t = t and n = "length d"] obtain streams full where
          a: "respond_audio (s\<lparr>rp_incoming := buf\<rparr>) e t (length d) (mp_header p) =
              Some (s\<lparr>rp_incoming := buf, rp_streams := streams, rp_table_full := full\<rparr>)"
          "table_ok streams (media_heard (rs @ [(e, t, d)]))" "full = of_nat (turned_away (media_heard (rs @ [(e, t, d)])))"
          by (auto simp: media_heard_snoc heard_in_def p)
        have "respond_inv (s\<lparr>rp_incoming := buf, rp_streams := streams, rp_table_full := full\<rparr>) (rs @ [(e, t, d)])"
          using a(2,3) assms(1) la m(2) media_class [OF p] by (simp add: respond_inv_def)
        then show ?thesis using run Inr 2 pm c a(1) by simp
      qed
    next
      case 3
      have "left_alone d" "\<not> asks_pong d" "rejected_as d = None" "parsed_media d = None"
        using ty Inr 3 none by (auto simp: left_alone_def asks_pong_def rejected_as_def split: ptype.split)
      then have "respond_inv (s\<lparr>rp_incoming := buf, rp_unhandled := rp_unhandled s + 1\<rparr>) (rs @ [(e, t, d)])"
        by (intro keep) simp_all
      moreover have "respond_one clk send s w (e, t, d) = Some (s\<lparr>rp_incoming := buf, rp_unhandled := rp_unhandled s + 1\<rparr>, w)"
        using run Inr 3 by (cases k) simp_all
      ultimately show ?thesis by blast
    qed
  qed
qed

lemma respond_init_inv: "respond_inv respond_init []"
proof -
  have "replicate 6 0 ! reject_index r = (0 :: u64)" for r using reject_index_less [of r] by simp
  then show ?thesis
    by (simp add: respond_inv_def respond_init_def media_heard_def table_ok_def tabled_def turned_away_def blank_stream_def)
qed

lemma respond_all_inv:
  assumes "respond_inv s rs0" "fits_buffer rs"
  shows "\<exists>s' w'. respond_all clk send s w rs = Some (s', w') \<and> respond_inv s' (rs0 @ rs)"
  using assms
proof (induction rs arbitrary: s w rs0)
  case (Cons r rs)
  obtain e t d where r: "r = (e, t, d)" by (cases r)
  have d: "length d \<le> kMaxDatagram" "fits_buffer rs" using Cons.prems(2) by (simp_all add: fits_buffer_def r)
  obtain s1 w1 where 1: "respond_one clk send s w r = Some (s1, w1)" "respond_inv s1 (rs0 @ [r])"
    using respond_one_inv [OF Cons.prems(1) d(1), of clk send w e t] by (auto simp: r)
  from Cons.IH [OF 1(2) d(2), of w1] show ?case using 1(1) by simp
qed simp

text \<open>Each datagram is in one class.\<close>

lemma one_place:
  "rejected_as d \<noteq> None \<and> \<not> asks_pong d \<and> \<not> left_alone d \<and> parsed_media d = None \<or>
   rejected_as d = None \<and> asks_pong d \<and> \<not> left_alone d \<and> parsed_media d = None \<or>
   rejected_as d = None \<and> \<not> asks_pong d \<and> left_alone d \<and> parsed_media d = None \<or>
   rejected_as d = None \<and> \<not> asks_pong d \<and> \<not> left_alone d \<and> parsed_media d \<noteq> None"
proof -
  obtain ty where ty: "peek_type d = Some ty" using peek_total by blast
  obtain pc pm where p: "parse_control d = Some pc" "parse_media d = Some pm" using parse_total by blast
  have none: "ty \<noteq> Inr Audio \<Longrightarrow> parsed_media d = None" using ty parsed_media_peek [of d] by (cases "parsed_media d") auto
  show ?thesis
  proof (cases ty)
    case (Inl r)
    then show ?thesis using ty none by (simp add: rejected_as_def asks_pong_def left_alone_def)
  next
    case (Inr k)
    then show ?thesis using ty none p
      by (cases k; cases pc; cases pm)
        (simp_all add: rejected_as_def asks_pong_def left_alone_def parses_control_def parsed_media_def)
  qed
qed

text \<open>The class \<open>None\<close> is never counted.\<close>

lemma rejected_not_none: "rejected_as d \<noteq> Some RejNone"
proof -
  have v: "validate_prefix d \<noteq> Some (Inl RejNone)"
    by (auto simp: validate_prefix_def split: Option.bind_splits option.splits if_splits)
  then have "peek_type d \<noteq> Some (Inl RejNone)" "parse_control d \<noteq> Some (Inl RejNone)" "parse_media d \<noteq> Some (Inl RejNone)"
    by (auto simp: peek_type_def parse_control_def parse_media_def Let_def
        split: Option.bind_splits option.splits if_splits sum.splits)
  then show ?thesis by (auto simp: rejected_as_def split: option.splits sum.splits ptype.splits)
qed

definition all_rejects :: "reject list" where
  "all_rejects = [RejNone, TooShort, BadVersion, UnknownType, ReservedFlag, BadLength]"

lemma rejected_sum:
  "(\<Sum>r\<leftarrow>all_rejects. length (filter (\<lambda>(_, _, d). rejected_as d = Some r) rs)) =
    length (filter (\<lambda>(_, _, d). rejected_as d \<noteq> None) rs)"
proof (induction rs)
  case (Cons r rs)
  obtain e t d where r: "r = (e, t, d)" by (cases r)
  show ?case
  proof (cases "rejected_as d")
    case (Some c)
    then show ?thesis using Cons.IH by (cases c) (simp_all add: r all_rejects_def)
  qed (use Cons.IH in \<open>simp add: r all_rejects_def\<close>)
qed (simp add: all_rejects_def)

lemma one_place_each:
  "length rs = length (filter (\<lambda>(_, _, d). rejected_as d \<noteq> None) rs) + length (filter (\<lambda>(_, _, d). asks_pong d) rs) +
    length (filter (\<lambda>(_, _, d). left_alone d) rs) + length (media_heard rs)"
proof (induction rs)
  case (Cons r rs)
  obtain e t d where r: "r = (e, t, d)" by (cases r)
  show ?case using one_place [of d] Cons.IH by (auto simp: r media_heard_def heard_in_def)
qed (simp add: media_heard_def)

section \<open>Properties\<close>

text \<open>
  C22. The responder is total on every batch of datagrams, and its table is what a reader of its report expects: slot by
  slot the accounts of the first eight streams (a sender and a stream id) in order of their first packet, each
  exactly as if that stream had been heard alone, its sequence statistics those of a tracker that saw only
  its packets; packets of later streams are all in \<open>table_full\<close> and disturb nobody.
\<close>

lemma respond_table_exact:
  assumes "fits_buffer rs"
  defines "ms \<equiv> media_heard rs"
  shows "\<exists>s w'. respond_all clk send respond_init w rs = Some (s, w') \<and>
    (\<forall>i < length (tabled ms). let k = tabled ms ! i; st = rp_streams s ! i in
       counted_alone k (of_key k ms) = Some st \<and> (rs_peer st, rs_stream_id st) = k \<and>
       rs_sequence st = seq_run seq_init (map (mh_sequence \<circ> fst) (of_key k ms)) \<and>
       rs_bytes st = of_nat (sum_list (map (snd \<circ> snd) (of_key k ms)))) \<and>
    (\<forall>i < kMaxStreams. length (tabled ms) \<le> i \<longrightarrow> \<not> rs_active (rp_streams s ! i)) \<and>
    rp_table_full s = of_nat (turned_away ms)"
proof -
  obtain s w' where r: "respond_all clk send respond_init w rs = Some (s, w')" "respond_inv s rs"
    using respond_all_inv [OF respond_init_inv assms(1), of clk send w] by auto
  then have t: "table_ok (rp_streams s) ms" "rp_table_full s = of_nat (turned_away ms)" by (simp_all add: respond_inv_def ms_def)
  have a: "counted_alone (tabled ms ! i) (of_key (tabled ms ! i) ms) = Some (rp_streams s ! i)" if "i < length (tabled ms)" for i
    using t(1) that by (simp add: table_ok_def)
  show ?thesis using r(1) t counted_alone_fields [OF a] a by (auto simp: Let_def table_ok_def)
qed


section \<open>A concrete run\<close>

definition demo_heard :: bytes where
  "demo_heard = wire_media \<lparr>mh_flags = kTalkspurtStart, mh_stream_id = 9, mh_sequence = 5, mh_timestamp = 0\<rparr> [1, 2]"

lemma demo_heard_parsed: "parsed_media demo_heard =
  Some \<lparr>mp_header = \<lparr>mh_flags = kTalkspurtStart, mh_stream_id = 9, mh_sequence = 5, mh_timestamp = 0\<rparr>, mp_payload = [1, 2]\<rparr>"
proof -
  let ?p = "\<lparr>mp_header = \<lparr>mh_flags = kTalkspurtStart, mh_stream_id = 9, mh_sequence = 5, mh_timestamp = 0\<rparr>, mp_payload = [1, 2]\<rparr>"
  have "media_ok ?p" by (simp add: media_ok_def kMaxPayload_def proto_consts kTalkspurtStart_def kTalkspurtEnd_def kFec_def kAssignedMask_def)
  from parse_media_wire [OF this] show ?thesis by (simp add: parsed_media_def demo_heard_def)
qed

definition demo_batch :: "(endpoint \<times> micros \<times> bytes) list" where
  "demo_batch = [(no_endpoint, 5, demo_heard), (no_endpoint, 6, []), (no_endpoint, 7, demo_heard)]"

lemma demo_batch_fits: "fits_buffer demo_batch"
  using media_clean(4) [OF demo_heard_parsed] by (simp add: fits_buffer_def demo_batch_def)

lemma demo_batch_heard: "tabled (media_heard demo_batch) = [(no_endpoint, 9)]" "turned_away (media_heard demo_batch) = 0"
  "of_key (no_endpoint, 9) (media_heard demo_batch) \<noteq> []"
proof -
  have e: "parsed_media [] = None" by (simp add: parsed_media_def parse_media_def validate_prefix_def kPrefixSize_def)
  show t: "tabled (media_heard demo_batch) = [(no_endpoint, 9)]"
    by (simp add: demo_batch_def media_heard_def heard_in_def demo_heard_parsed e tabled_def firsts_def kMaxStreams_def)
  show "turned_away (media_heard demo_batch) = 0" "of_key (no_endpoint, 9) (media_heard demo_batch) \<noteq> []"
    unfolding turned_away_def t by (simp_all add: demo_batch_def media_heard_def heard_in_def demo_heard_parsed e of_key_def)
qed

lemma respond_table_exact_witness:
  "\<exists>s. respond_all (\<lambda>_. 0) (\<lambda>w e d. (0, w)) respond_init () demo_batch = Some (s, ()) \<and>
    rs_stream_id (rp_streams s ! 0) = 9 \<and> rp_table_full s = 0"
  using respond_table_exact [OF demo_batch_fits, of "\<lambda>_. 0" "\<lambda>w e d. (0, w)" "()"]
  by (auto simp: demo_batch_heard Let_def)


end
